(* ===== verification/Prelude.thy ===== *)
theory Prelude
  imports Main "HOL-Library.Word" "HOL-Library.Monad_Syntax"
begin

text \<open>
  Shared vocabulary of the development: the machine types of the C++ sources, the answers of
  system calls, the splitting of a byte string into fixed-size frames, and the generic lemmas
  on words, lists and arithmetic that the component theories use.

  A system call is code outside the repository. It enters the model through its answers only:
  a definition that calls the kernel takes the list of answers that the successive calls give
  (a \<^emph>\<open>script\<close>), and the script running out means that the call under way has not
  returned (result \<open>None\<close>). A theorem that quantifies over the script therefore covers every
  behaviour of the kernel.
\<close>

unbundle bit_operations_syntax

named_theorems codec_defs \<open>the codec's definitions, for evaluation on concrete frames\<close>
named_theorems ring_defs \<open>the ring's geometry constants\<close>
named_theorems server_consts \<open>the numeric constants of the server\<close>


section \<open>Machine types\<close>

type_synonym byte = "8 word"
type_synonym u16 = "16 word"
type_synonym u32 = "32 word"
type_synonym u64 = "64 word"
type_synonym bytes = "byte list"

text \<open>
  \<open>std::size_t\<close> values that only count bytes are natural numbers; the one place where the
  sources can wrap around, an unsigned subtraction, is written out by \<open>sub64\<close>.
\<close>

definition sub64 :: "nat \<Rightarrow> nat \<Rightarrow> nat" where
  "sub64 a b = (if b \<le> a then a - b else a + 2 ^ 64 - b)"

lemma sub64_le [simp]: "b \<le> a \<Longrightarrow> sub64 a b = a - b"
  by (simp add: sub64_def)


section \<open>Answers of system calls\<close>

datatype errno = EINTR | EAGAIN | EWOULDBLOCK | EEXIST | ESRCH | EOTHER int

datatype 'a sysret = Ret 'a | Fail errno

text \<open>
  A call that is repeated while it is interrupted: its outcome is decided by the first answer
  other than \<open>EINTR\<close>. \<open>settle\<close> is the reference description that the retry loops of the
  sources are compared with.
\<close>

text \<open>The result of a process or of its main function.\<close>

datatype exitCode = EXIT_SUCCESS | EXIT_FAILURE

text \<open>The status of a process as \<open>WIFEXITED\<close>, \<open>WIFSIGNALED\<close> and their values read it.\<close>

datatype waitStatus = Exited int | Signaled int | Stopped

definition interrupted :: "'a sysret \<Rightarrow> bool" where
  "interrupted r \<longleftrightarrow> r = Fail EINTR"

definition settle :: "'a sysret list \<Rightarrow> ('a sysret \<times> 'a sysret list) option" where
  "settle script =
     (case dropWhile interrupted script of [] \<Rightarrow> None | r # rest \<Rightarrow> Some (r, rest))"

lemma interrupted_simps [simp]:
  "interrupted (Fail EINTR)" "\<not> interrupted (Ret v)" "e \<noteq> EINTR \<Longrightarrow> \<not> interrupted (Fail e)"
  by (simp_all add: interrupted_def)

lemma settle_simps [simp]:
  "settle [] = None"
  "settle (Ret v # s) = Some (Ret v, s)"
  "settle (Fail e # s) = (if e = EINTR then settle s else Some (Fail e, s))"
  by (simp_all add: settle_def interrupted_def)

lemma settle_Some_iff: "(\<exists>x. settle s = Some x) \<longleftrightarrow> (\<exists>r \<in> set s. \<not> interrupted r)"
  by (induction s) (auto simp: settle_def)

lemma settle_not_interrupted: "settle s = Some (r, s') \<Longrightarrow> \<not> interrupted r"
  by (auto simp: settle_def split: list.splits dest: dropWhile_eq_Cons_conv [THEN iffD1])


text \<open>
  Answers without errors: \<open>enough n P\<close> has at least \<open>n\<close> completed calls, with values in \<open>P\<close>, and
  possibly interruptions; \<open>steady n P\<close> has no interruptions either.
\<close>

fun enough :: "nat \<Rightarrow> ('a \<Rightarrow> bool) \<Rightarrow> 'a sysret list \<Rightarrow> bool" where
  "enough n P [] \<longleftrightarrow> n = 0"
| "enough n P (Ret v # s) \<longleftrightarrow> P v \<and> enough (n - 1) P s"
| "enough n P (Fail e # s) \<longleftrightarrow> e = EINTR \<and> enough n P s"

definition steady :: "nat \<Rightarrow> ('a \<Rightarrow> bool) \<Rightarrow> 'a sysret list \<Rightarrow> bool" where
  "steady n P s \<longleftrightarrow> n \<le> length s \<and> list_all (\<lambda>r. case r of Ret v \<Rightarrow> P v | Fail _ \<Rightarrow> False) s"

lemma enough_mono: "enough n P s \<Longrightarrow> m \<le> n \<Longrightarrow> enough m P s"
proof (induction n P s arbitrary: m rule: enough.induct)
  case (2 n P v s)
  then show ?case by (auto intro: "2.IH" [OF _ diff_le_mono])
qed auto

lemma steady_mono: "steady n P s \<Longrightarrow> m \<le> n \<Longrightarrow> steady m P s"
  by (simp add: steady_def)

lemma enough_replicate [simp]: "P v \<Longrightarrow> m \<le> n \<Longrightarrow> enough m P (replicate n (Ret v))"
  by (induction n arbitrary: m) auto

lemma steady_replicate [simp]: "P v \<Longrightarrow> m \<le> n \<Longrightarrow> steady m P (replicate n (Ret v))"
  by (simp add: steady_def list_all_iff)

lemma steady_next:
  assumes "steady n P s" and "0 < n"
  obtains v rest where "s = Ret v # rest" and "P v" and "steady (n - 1) P rest"
  using assms by (cases s) (auto simp: steady_def split: sysret.splits)

section \<open>Fixed-size chunks\<close>

fun chunks :: "nat \<Rightarrow> 'a list \<Rightarrow> 'a list list" where
  "chunks n xs = (if n = 0 \<or> length xs < n then [] else take n xs # chunks n (drop n xs))"

declare chunks.simps [simp del]

lemma chunks_short [simp]: "length xs < n \<Longrightarrow> chunks n xs = []"
  by (simp add: chunks.simps)

lemma chunks_step: "0 < n \<Longrightarrow> n \<le> length xs \<Longrightarrow> chunks n xs = take n xs # chunks n (drop n xs)"
  by (subst chunks.simps) simp

lemma chunks_append: "0 < n \<Longrightarrow> length xs = n \<Longrightarrow> chunks n (xs @ ys) = xs # chunks n ys"
  by (simp add: chunks_step)

lemma length_chunks: "0 < n \<Longrightarrow> length (chunks n xs) = length xs div n"
proof (induction n xs rule: chunks.induct)
  case (1 n xs)
  show ?case
  proof (cases "length xs < n")
    case False
    then have "length xs div n = Suc ((length xs - n) div n)"
      using "1.prems" by (simp add: le_div_geq)
    with False "1" show ?thesis by (simp add: chunks_step)
  qed simp
qed

lemma concat_chunks: "0 < n \<Longrightarrow> concat (chunks n xs) = take (n * (length xs div n)) xs"
proof (induction n xs rule: chunks.induct)
  case (1 n xs)
  show ?case
  proof (cases "length xs < n")
    case False
    then have *: "n * (length xs div n) = n + n * ((length xs - n) div n)"
      using "1.prems" by (simp add: le_div_geq)
    from False "1" show ?thesis by (simp add: chunks_step * take_add)
  qed simp
qed

lemma concat_chunks_whole:
  "0 < n \<Longrightarrow> n dvd length xs \<Longrightarrow> concat (chunks n xs) = xs"
  by (simp add: concat_chunks)

lemma chunks_concat:
  "0 < n \<Longrightarrow> \<forall>x \<in> set xss. length x = n \<Longrightarrow> chunks n (concat xss) = xss"
  by (induction xss) (simp_all add: chunks_append)

lemma chunks_lengths: "0 < n \<Longrightarrow> x \<in> set (chunks n xs) \<Longrightarrow> length x = n"
proof (induction n xs rule: chunks.induct)
  case (1 n xs)
  then show ?case by (cases "length xs < n") (auto simp: chunks_step)
qed

lemma chunks_append_dvd:
  "0 < n \<Longrightarrow> n dvd length xs \<Longrightarrow> chunks n (xs @ ys) = chunks n xs @ chunks n ys"
proof (induction n xs rule: chunks.induct)
  case (1 n xs)
  show ?case
  proof (cases "length xs < n")
    case True
    with "1.prems" have "xs = []" using dvd_imp_le by fastforce
    then show ?thesis using "1.prems" by simp
  next
    case False
    then have "n dvd length (drop n xs)" using "1.prems" by simp
    with False "1" show ?thesis
      by (simp add: chunks_step [of n "xs @ ys"] chunks_step [of n xs])
  qed
qed

lemma chunks_take:
  "0 < n \<Longrightarrow> chunks n (take (k * n) xs) = take k (chunks n xs)"
proof (induction k arbitrary: xs)
  case (Suc k)
  show ?case
  proof (cases "length xs < n")
    case False
    then show ?thesis
      using Suc by (simp add: chunks_step [of n xs] chunks_step [of n "take (n + k * n) xs"]
        drop_take)
  qed simp
qed simp

lemma chunks_drop:
  "0 < n \<Longrightarrow> chunks n (drop (k * n) xs) = drop k (chunks n xs)"
proof (induction k arbitrary: xs)
  case (Suc k)
  show ?case
  proof (cases "length xs < n")
    case False
    then show ?thesis
      using Suc.IH [of "drop n xs"] Suc.prems
      by (simp add: chunks_step [of n xs] add.commute)
  qed simp
qed simp

lemma nth_chunks:
  "0 < n \<Longrightarrow> i < length xs div n \<Longrightarrow> chunks n xs ! i = take n (drop (i * n) xs)"
proof (induction i arbitrary: xs)
  case 0
  then have "n \<le> length xs" by (metis div_less not_less less_not_refl)
  with 0 show ?case by (simp add: chunks_step)
next
  case (Suc i)
  then have n: "n \<le> length xs" by (metis div_less not_less less_nat_zero_code)
  then have "length xs div n = Suc (length (drop n xs) div n)"
    using Suc.prems by (simp add: le_div_geq)
  with Suc n show ?case by (simp add: chunks_step add.commute)
qed


section \<open>Bytes of a word\<close>

lemma ucast_and_255 [simp]: "(ucast (w AND 0xFF) :: byte) = ucast (w :: 'a::len word)"
proof -
  have *: "w AND 0xFF = take_bit 8 w"
    by (simp add: take_bit_eq_mask mask_eq_exp_minus_1)
  show ?thesis
    unfolding * by (rule bit_word_eqI) (simp add: bit_simps)
qed

lemma bit_byte_lane:
  "bit (push_bit k (ucast (ucast (drop_bit k v) :: byte) :: 'a word)) n
     \<longleftrightarrow> k \<le> n \<and> n < k + 8 \<and> bit (v :: 'a::len word) n"
  by (auto simp: bit_simps dest: bit_imp_le_length)

lemma bit_byte_lane_low:
  "bit (ucast (ucast v :: byte) :: 'a word) n \<longleftrightarrow> n < 8 \<and> bit (v :: 'a::len word) n"
  using bit_byte_lane [of 0 v n] by simp

lemmas byte_lanes = bit_or_iff bit_byte_lane bit_byte_lane_low

text \<open>The big-endian bytes of a word, the reference for the wire format.\<close>

definition be_bytes :: "nat \<Rightarrow> 'a::len word \<Rightarrow> bytes" where
  "be_bytes n w = map (\<lambda>i. ucast (drop_bit (8 * (n - 1 - i)) w)) [0..<n]"

lemma length_be_bytes [simp]: "length (be_bytes n w) = n"
  by (simp add: be_bytes_def)


section \<open>Decimal numerals\<close>

text \<open>
  \<open>dec_string\<close> is the decimal text that \<open>std::to_string\<close> and the stream inserters give
  for an unsigned value; \<open>dec_value\<close> reads a digit string back.
\<close>

definition digit_char :: "nat \<Rightarrow> char" where
  "digit_char d = char_of (48 + d)"

fun dec_string :: "nat \<Rightarrow> string" where
  "dec_string n = (if n < 10 then [digit_char n] else dec_string (n div 10) @ [digit_char (n mod 10)])"

declare dec_string.simps [simp del]

definition is_digit :: "char \<Rightarrow> bool" where
  "is_digit c \<longleftrightarrow> 48 \<le> (of_char c :: nat) \<and> (of_char c :: nat) \<le> 57"

definition digit_value :: "char \<Rightarrow> nat" where
  "digit_value c = of_char c - 48"

definition dec_value :: "string \<Rightarrow> nat" where
  "dec_value s = foldl (\<lambda>a c. 10 * a + digit_value c) 0 s"

lemma is_digit_digit_char [simp]: "d < 10 \<Longrightarrow> is_digit (digit_char d)"
  by (simp add: is_digit_def digit_char_def)

lemma digit_value_digit_char [simp]: "d < 10 \<Longrightarrow> digit_value (digit_char d) = d"
  by (simp add: digit_value_def digit_char_def)

lemma dec_value_snoc [simp]: "dec_value (s @ [c]) = 10 * dec_value s + digit_value c"
  by (simp add: dec_value_def)

lemma dec_value_single [simp]: "dec_value [c] = digit_value c"
  by (simp add: dec_value_def)

lemma dec_string_nonempty [simp]: "dec_string n \<noteq> []"
  by (subst dec_string.simps) simp

lemma dec_string_digits: "\<forall>c \<in> set (dec_string n). is_digit c"
proof (induction n rule: dec_string.induct)
  case (1 n)
  then show ?case by (subst dec_string.simps) auto
qed

lemma dec_value_dec_string [simp]: "dec_value (dec_string n) = n"
proof (induction n rule: dec_string.induct)
  case (1 n)
  then show ?case by (subst dec_string.simps) auto
qed

lemma dec_string_inject [simp]: "dec_string m = dec_string n \<longleftrightarrow> m = n"
  by (metis dec_value_dec_string)


section \<open>Wrapping 64-bit counters\<close>

lemma unat_plus_of_nat: "unat (x :: u64) + c < 2 ^ 64 \<Longrightarrow> unat (x + of_nat c) = unat x + c"
  by (simp add: unat_word_ariths unat_of_nat)

lemma unat_minus_of_nat:
  assumes "c \<le> unat (x :: u64)"
  shows "unat (x - of_nat c) = unat x - c"
proof -
  have "unat x < 2 ^ 64" using unsigned_less [of x, where ?'a = nat] by simp
  with assms have "unat (of_nat c :: u64) = c" by (simp add: unat_of_nat)
  with assms show ?thesis by (simp add: unat_sub word_le_nat_alt)
qed

text \<open>A counter that wraps at \<open>2 ^ 64\<close> keeps its residue modulo a divisor of \<open>2 ^ 64\<close>.\<close>

lemma unat_plus_mod: "n dvd 2 ^ 64 \<Longrightarrow> unat (x + y :: u64) mod n = (unat x + unat y) mod n"
  by (simp add: unat_word_ariths mod_mod_cancel)

lemma unat_plus_of_nat_mod:
  assumes "n dvd 2 ^ 64"
  shows "unat (x + of_nat c :: u64) mod n = (unat x + c) mod n"
proof -
  have "c mod 2 ^ 64 mod n = c mod n" using assms by (rule mod_mod_cancel)
  then have "(unat x + c mod 2 ^ 64) mod n = (unat x + c) mod n" by (metis mod_add_right_eq)
  with assms show ?thesis by (simp add: unat_plus_mod unat_of_nat)
qed

end
