(* ===== verification/Codec.thy ===== *)
theory Codec
  imports Prelude
begin

text \<open>
  The binary codec of \<open>Protocol/\<close>: \<open>TelemetryRecord\<close>, the frame constants, the
  big-endian writers and readers, \<open>encode\<close>, \<open>decode\<close> and \<open>toString\<close>. A frame
  (\<open>std::array<std::byte, 32>\<close>) is a list of bytes; a \<open>double\<close> is its IEEE 754 binary64 bit
  pattern, on which \<open>std::bit_cast\<close> in either direction is the identity. The defaulted
  \<open>operator==\<close> compares the \<open>double\<close> field as IEEE does: the two zeros are equal and a NaN
  is equal to nothing.
\<close>

section \<open>Records and constants\<close>

type_synonym double = "64 word"

record telemetryRecord =
  sensorId :: u32
  metricId :: u32
  timestampNs :: u64
  valueD :: double

definition emptyRecord :: telemetryRecord where
  "emptyRecord = \<lparr>sensorId = 0, metricId = 0, timestampNs = 0, valueD = 0\<rparr>"

definition isNaN :: "double \<Rightarrow> bool" where
  "isNaN d \<longleftrightarrow> take_bit 11 (drop_bit 52 d) = 0x7FF \<and> take_bit 52 d \<noteq> 0"

definition isZero :: "double \<Rightarrow> bool" where
  "isZero d \<longleftrightarrow> take_bit 63 d = 0"

definition doubleEq :: "double \<Rightarrow> double \<Rightarrow> bool" where
  "doubleEq a b \<longleftrightarrow> \<not> isNaN a \<and> \<not> isNaN b \<and> (a = b \<or> isZero a \<and> isZero b)"

definition recordEq :: "telemetryRecord \<Rightarrow> telemetryRecord \<Rightarrow> bool" where
  "recordEq r q \<longleftrightarrow> sensorId r = sensorId q \<and> metricId r = metricId q \<and>
     timestampNs r = timestampNs q \<and> doubleEq (valueD r) (valueD q)"

definition kMagic :: u32 where "kMagic = 0x544C5259"
definition kVersion :: u16 where "kVersion = 1"
definition kFrameSize :: nat where "kFrameSize = 32"

definition kMagicOffset :: nat where "kMagicOffset = 0"
definition kVersionOffset :: nat where "kVersionOffset = 4"
definition kFrameSizeOffset :: nat where "kFrameSizeOffset = 6"
definition kSensorIdOffset :: nat where "kSensorIdOffset = 8"
definition kMetricIdOffset :: nat where "kMetricIdOffset = 12"
definition kTimestampOffset :: nat where "kTimestampOffset = 16"
definition kValueOffset :: nat where "kValueOffset = 24"

lemmas offset_defs =
  kMagicOffset_def kVersionOffset_def kFrameSizeOffset_def kSensorIdOffset_def
  kMetricIdOffset_def kTimestampOffset_def kValueOffset_def

datatype decodeError =
  NoError | InvalidSize | InvalidMagic | UnsupportedVersion | InvalidDeclaredFrameSize

record decodeResult =
  dr_record :: telemetryRecord
  dr_error :: decodeError

definition dr_ok :: "decodeResult \<Rightarrow> bool" where
  "dr_ok d \<longleftrightarrow> dr_error d = NoError"


section \<open>Writers\<close>

definition writeU16 :: "bytes \<Rightarrow> nat \<Rightarrow> u16 \<Rightarrow> bytes" where
  "writeU16 frame offset value =
     frame[offset := ucast (drop_bit 8 value AND 0xFF),
           offset + 1 := ucast (value AND 0xFF)]"

definition writeU32 :: "bytes \<Rightarrow> nat \<Rightarrow> u32 \<Rightarrow> bytes" where
  "writeU32 frame offset value =
     frame[offset := ucast (drop_bit 24 value AND 0xFF),
           offset + 1 := ucast (drop_bit 16 value AND 0xFF),
           offset + 2 := ucast (drop_bit 8 value AND 0xFF),
           offset + 3 := ucast (value AND 0xFF)]"

definition writeU64 :: "bytes \<Rightarrow> nat \<Rightarrow> u64 \<Rightarrow> bytes" where
  "writeU64 frame offset value =
     foldl (\<lambda>f index.
        let shift = (7 - index) * 8
        in f[offset + index := ucast (drop_bit shift value AND 0xFF)])
       frame [0..<8]"


section \<open>Readers\<close>

text \<open>The operands of \<open><<\<close> and \<open>|\<close> on \<open>uint16_t\<close> are promoted to 32-bit integers.\<close>

definition readU16 :: "bytes \<Rightarrow> nat \<Rightarrow> u16" where
  "readU16 frame offset =
     (let byte0 = ucast (frame ! offset) :: u32;
          byte1 = ucast (frame ! (offset + 1)) :: u32
      in ucast (push_bit 8 byte0 OR byte1))"

definition readU32 :: "bytes \<Rightarrow> nat \<Rightarrow> u32" where
  "readU32 frame offset =
     (let byte0 = ucast (frame ! offset) :: u32;
          byte1 = ucast (frame ! (offset + 1)) :: u32;
          byte2 = ucast (frame ! (offset + 2)) :: u32;
          byte3 = ucast (frame ! (offset + 3)) :: u32
      in push_bit 24 byte0 OR push_bit 16 byte1 OR push_bit 8 byte2 OR byte3)"

definition readU64 :: "bytes \<Rightarrow> nat \<Rightarrow> u64" where
  "readU64 frame offset =
     foldl (\<lambda>value index. push_bit 8 value OR ucast (frame ! (offset + index))) 0 [0..<8]"


section \<open>Encoding and decoding\<close>

definition encode :: "telemetryRecord \<Rightarrow> bytes" where
  "encode r =
     (let frame = replicate kFrameSize 0;
          frame = writeU32 frame kMagicOffset kMagic;
          frame = writeU16 frame kVersionOffset kVersion;
          frame = writeU16 frame kFrameSizeOffset (of_nat kFrameSize);
          frame = writeU32 frame kSensorIdOffset (sensorId r);
          frame = writeU32 frame kMetricIdOffset (metricId r);
          frame = writeU64 frame kTimestampOffset (timestampNs r);
          valueBits = valueD r
      in writeU64 frame kValueOffset valueBits)"

definition decode :: "bytes \<Rightarrow> decodeResult" where
  "decode frame =
     (if length frame \<noteq> kFrameSize then
        \<lparr>dr_record = emptyRecord, dr_error = InvalidSize\<rparr>
      else if readU32 frame kMagicOffset \<noteq> kMagic then
        \<lparr>dr_record = emptyRecord, dr_error = InvalidMagic\<rparr>
      else if readU16 frame kVersionOffset \<noteq> kVersion then
        \<lparr>dr_record = emptyRecord, dr_error = UnsupportedVersion\<rparr>
      else if readU16 frame kFrameSizeOffset \<noteq> of_nat kFrameSize then
        \<lparr>dr_record = emptyRecord, dr_error = InvalidDeclaredFrameSize\<rparr>
      else
        \<lparr>dr_record =
           \<lparr>sensorId = readU32 frame kSensorIdOffset,
            metricId = readU32 frame kMetricIdOffset,
            timestampNs = readU64 frame kTimestampOffset,
            valueD = readU64 frame kValueOffset\<rparr>,
         dr_error = NoError\<rparr>)"

fun toString :: "decodeError \<Rightarrow> string" where
  "toString NoError = ''none''"
| "toString InvalidSize = ''invalid frame size''"
| "toString InvalidMagic = ''invalid magic''"
| "toString UnsupportedVersion = ''unsupported version''"
| "toString InvalidDeclaredFrameSize = ''invalid declared frame size''"

declare kMagic_def [codec_defs] kVersion_def [codec_defs] kFrameSize_def [codec_defs]
  offset_defs [codec_defs] readU16_def [codec_defs] readU32_def [codec_defs]
  readU64_def [codec_defs] writeU16_def [codec_defs] writeU32_def [codec_defs]
  writeU64_def [codec_defs] encode_def [codec_defs] decode_def [codec_defs]
  emptyRecord_def [codec_defs]


lemma kFrameSize_pos [simp]: "0 < kFrameSize" "kFrameSize \<noteq> 0"
  by (simp_all add: kFrameSize_def)

section \<open>The writers against the big-endian reference\<close>

lemma upt_8: "[0..<8] = [0, 1, 2, 3, 4, 5, 6, 7::nat]"
  by (simp add: upt_rec)

lemma be_bytes_2: "be_bytes 2 w = [ucast (drop_bit 8 w), ucast w]"
  by (simp add: be_bytes_def upt_rec)

lemma be_bytes_4:
  "be_bytes 4 w = [ucast (drop_bit 24 w), ucast (drop_bit 16 w), ucast (drop_bit 8 w), ucast w]"
  by (simp add: be_bytes_def upt_rec)

lemma be_bytes_8:
  "be_bytes 8 w =
     [ucast (drop_bit 56 w), ucast (drop_bit 48 w), ucast (drop_bit 40 w), ucast (drop_bit 32 w),
      ucast (drop_bit 24 w), ucast (drop_bit 16 w), ucast (drop_bit 8 w), ucast w]"
  by (simp add: be_bytes_def upt_rec)

lemma list_update_at: "n = length xs \<Longrightarrow> (xs @ y # ys)[n := z] = xs @ z # ys"
  by (simp add: list_update_append)

text \<open>A writer replaces exactly the bytes of its field.\<close>

lemma writeU16_at:
  assumes "length xs = offset"
  shows "writeU16 (xs @ [b0, b1] @ ys) offset v = xs @ be_bytes 2 v @ ys"
  using assms by (simp add: writeU16_def be_bytes_2 list_update_append)

lemma writeU32_at:
  assumes "length xs = offset"
  shows "writeU32 (xs @ [b0, b1, b2, b3] @ ys) offset v = xs @ be_bytes 4 v @ ys"
  using assms by (simp add: writeU32_def be_bytes_4 list_update_append)

lemma writeU64_at:
  assumes "length xs = offset"
  shows "writeU64 (xs @ [b0, b1, b2, b3, b4, b5, b6, b7] @ ys) offset v = xs @ be_bytes 8 v @ ys"
  using assms by (simp add: writeU64_def be_bytes_8 upt_8 list_update_append)


definition wire_layout :: "telemetryRecord \<Rightarrow> bytes" where
  "wire_layout r =
     be_bytes 4 kMagic @ be_bytes 2 kVersion @ be_bytes 2 (of_nat kFrameSize :: u16) @
     be_bytes 4 (sensorId r) @ be_bytes 4 (metricId r) @
     be_bytes 8 (timestampNs r) @ be_bytes 8 (valueD r)"

lemma length_wire_layout [simp]: "length (wire_layout r) = kFrameSize"
  by (simp add: wire_layout_def kFrameSize_def)

lemma encode_eq_wire_layout: "encode r = wire_layout r"
proof -
  define z :: "nat \<Rightarrow> bytes" where "z n = replicate n 0" for n
  have z: "replicate kFrameSize (0::byte) = [] @ [0,0,0,0] @ z 28"
    "z 28 = [0,0] @ z 26" "z 26 = [0,0] @ z 24" "z 24 = [0,0,0,0] @ z 20" "z 20 = [0,0,0,0] @ z 16"
    "z 16 = [0,0,0,0,0,0,0,0] @ z 8" "z 8 = [0,0,0,0,0,0,0,0] @ []"
    by (simp_all add: z_def kFrameSize_def numeral_eq_Suc)
  define m where "m = be_bytes 4 kMagic"
  define v where "v = m @ be_bytes 2 kVersion"
  define l where "l = v @ be_bytes 2 (of_nat kFrameSize :: u16)"
  define s where "s = l @ be_bytes 4 (sensorId r)"
  define k where "k = s @ be_bytes 4 (metricId r)"
  define t where "t = k @ be_bytes 8 (timestampNs r)"
  have len: "length m = 4" "length v = 6" "length l = 8" "length s = 12" "length k = 16" "length t = 24"
    by (simp_all add: m_def v_def l_def s_def k_def t_def)
  have 1: "writeU32 (replicate kFrameSize 0) kMagicOffset kMagic = m @ z 28"
    unfolding z(1) m_def by (subst writeU32_at) (simp_all add: kMagicOffset_def)
  have 2: "writeU16 (m @ z 28) kVersionOffset kVersion = v @ z 26"
    unfolding z(2) v_def by (subst writeU16_at) (simp_all add: kVersionOffset_def len)
  have 3: "writeU16 (v @ z 26) kFrameSizeOffset (of_nat kFrameSize) = l @ z 24"
    unfolding z(3) l_def by (subst writeU16_at) (simp_all add: kFrameSizeOffset_def len)
  have 4: "writeU32 (l @ z 24) kSensorIdOffset (sensorId r) = s @ z 20"
    unfolding z(4) s_def by (subst writeU32_at) (simp_all add: kSensorIdOffset_def len)
  have 5: "writeU32 (s @ z 20) kMetricIdOffset (metricId r) = k @ z 16"
    unfolding z(5) k_def by (subst writeU32_at) (simp_all add: kMetricIdOffset_def len)
  have 6: "writeU64 (k @ z 16) kTimestampOffset (timestampNs r) = t @ z 8"
    unfolding z(6) t_def by (subst writeU64_at) (simp_all add: kTimestampOffset_def len)
  have 7: "writeU64 (t @ z 8) kValueOffset (valueD r) = t @ be_bytes 8 (valueD r)"
    unfolding z(7) by (subst writeU64_at) (simp_all add: kValueOffset_def len)
  show ?thesis
    unfolding encode_def Let_def 1 2 3 4 5 6 7
    by (simp add: wire_layout_def m_def v_def l_def s_def k_def t_def)
qed

lemma length_encode [simp]: "length (encode r) = kFrameSize"
  by (simp add: encode_eq_wire_layout)


section \<open>The readers invert the big-endian reference\<close>

lemma readU16_be_bytes:
  assumes "length xs = offset"
  shows "readU16 (xs @ be_bytes 2 v @ ys) offset = (v :: u16)"
proof -
  have "ucast (push_bit 8 (ucast (ucast (drop_bit 8 v) :: byte) :: u32) OR
      ucast (ucast v :: byte)) = v"
    by (rule bit_word_eqI) (auto simp: bit_simps)
  with assms show ?thesis by (simp add: readU16_def be_bytes_2 nth_append)
qed

lemma readU32_be_bytes:
  assumes "length xs = offset"
  shows "readU32 (xs @ be_bytes 4 v @ ys) offset = (v :: u32)"
proof -
  have "push_bit 24 (ucast (ucast (drop_bit 24 v) :: byte) :: u32) OR
      push_bit 16 (ucast (ucast (drop_bit 16 v) :: byte)) OR
      push_bit 8 (ucast (ucast (drop_bit 8 v) :: byte)) OR ucast (ucast v :: byte) = v"
    by (rule bit_word_eqI) (simp only: byte_lanes, auto)
  with assms show ?thesis by (simp add: readU32_def be_bytes_4 nth_append)
qed

text \<open>The accumulating loop of \<open>readU64\<close> after \<open>k\<close> bytes holds the top \<open>k\<close> bytes.\<close>

lemma readU64_step:
  "k \<le> 56 \<Longrightarrow>
   push_bit 8 (drop_bit (k + 8) v) OR ucast (ucast (drop_bit k v) :: byte) = (drop_bit k v :: u64)"
  by (rule bit_word_eqI) (auto simp: bit_simps add.commute)

lemma readU64_be_bytes:
  assumes "length xs = offset"
  shows "readU64 (xs @ be_bytes 8 v @ ys) offset = (v :: u64)"
  using assms readU64_step [of 56 v] readU64_step [of 48 v] readU64_step [of 40 v]
    readU64_step [of 32 v] readU64_step [of 24 v] readU64_step [of 16 v] readU64_step [of 8 v]
    readU64_step [of 0 v]
  by (simp add: readU64_def be_bytes_8 upt_8 nth_append)

lemma take_drop_2: "offset + 2 \<le> length f \<Longrightarrow> take 2 (drop offset f) = [f ! offset, f ! (offset + 1)]"
  by (simp add: take_Suc_conv_app_nth numeral_2_eq_2 add.commute)

lemma take_drop_4:
  "offset + 4 \<le> length f \<Longrightarrow>
   take 4 (drop offset f) = [f ! offset, f ! (offset + 1), f ! (offset + 2), f ! (offset + 3)]"
  by (simp add: take_Suc_conv_app_nth numeral_eq_Suc)

lemma take_drop_8:
  "offset + 8 \<le> length f \<Longrightarrow>
   take 8 (drop offset f) =
     [f ! offset, f ! (offset + 1), f ! (offset + 2), f ! (offset + 3),
      f ! (offset + 4), f ! (offset + 5), f ! (offset + 6), f ! (offset + 7)]"
  by (simp add: take_Suc_conv_app_nth numeral_eq_Suc)

text \<open>Conversely the bytes under a field are the big-endian bytes of what the reader returns.\<close>

lemma bit_byte_high [simp]: "8 \<le> n \<Longrightarrow> \<not> bit (b :: byte) n"
  using bit_imp_le_length [of b n] by auto

lemma be_bytes_readU16:
  assumes "offset + 2 \<le> length f"
  shows "be_bytes 2 (readU16 f offset) = take 2 (drop offset f)"
  using assms
  by (auto simp: take_drop_2 be_bytes_2 readU16_def Let_def bit_simps intro!: bit_word_eqI)

lemma be_bytes_readU32:
  assumes "offset + 4 \<le> length f"
  shows "be_bytes 4 (readU32 f offset) = take 4 (drop offset f)"
  using assms
  by (auto simp: take_drop_4 be_bytes_4 readU32_def Let_def bit_simps intro!: bit_word_eqI)

lemma readU64_lanes:
  "readU64 f offset =
     push_bit 56 (ucast (f ! offset)) OR push_bit 48 (ucast (f ! (offset + 1))) OR
     push_bit 40 (ucast (f ! (offset + 2))) OR push_bit 32 (ucast (f ! (offset + 3))) OR
     push_bit 24 (ucast (f ! (offset + 4))) OR push_bit 16 (ucast (f ! (offset + 5))) OR
     push_bit 8 (ucast (f ! (offset + 6))) OR ucast (f ! (offset + 7))"
  by (simp add: readU64_def upt_8 push_bit_or or.assoc)

lemma be_bytes_readU64:
  assumes "offset + 8 \<le> length f"
  shows "be_bytes 8 (readU64 f offset) = take 8 (drop offset f)"
  using assms
  by (auto simp: take_drop_8 be_bytes_8 readU64_lanes bit_simps intro!: bit_word_eqI)


section \<open>Correctness of the codec\<close>

lemma decode_wire_layout: "decode (wire_layout r) = \<lparr>dr_record = r, dr_error = NoError\<rparr>"
proof -
  let ?m = "be_bytes 4 kMagic" and ?v = "be_bytes 2 kVersion"
    and ?l = "be_bytes 2 (of_nat kFrameSize :: u16)" and ?s = "be_bytes 4 (sensorId r)"
    and ?k = "be_bytes 4 (metricId r)" and ?t = "be_bytes 8 (timestampNs r)"
    and ?d = "be_bytes 8 (valueD r)"
  have w: "wire_layout r = ?m @ ?v @ ?l @ ?s @ ?k @ ?t @ ?d" by (simp add: wire_layout_def)
  have "readU32 (wire_layout r) kMagicOffset = kMagic"
    unfolding w using readU32_be_bytes [of "[]" kMagicOffset] by (simp add: kMagicOffset_def)
  moreover have "readU16 (wire_layout r) kVersionOffset = kVersion"
    unfolding w using readU16_be_bytes [of "?m" kVersionOffset] by (simp add: kVersionOffset_def)
  moreover have "readU16 (wire_layout r) kFrameSizeOffset = of_nat kFrameSize"
    unfolding w using readU16_be_bytes [of "?m @ ?v" kFrameSizeOffset]
    by (simp add: kFrameSizeOffset_def)
  moreover have "readU32 (wire_layout r) kSensorIdOffset = sensorId r"
    unfolding w using readU32_be_bytes [of "?m @ ?v @ ?l" kSensorIdOffset]
    by (simp add: kSensorIdOffset_def)
  moreover have "readU32 (wire_layout r) kMetricIdOffset = metricId r"
    unfolding w using readU32_be_bytes [of "?m @ ?v @ ?l @ ?s" kMetricIdOffset]
    by (simp add: kMetricIdOffset_def)
  moreover have "readU64 (wire_layout r) kTimestampOffset = timestampNs r"
    unfolding w using readU64_be_bytes [of "?m @ ?v @ ?l @ ?s @ ?k" kTimestampOffset]
    by (simp add: kTimestampOffset_def)
  moreover have "readU64 (wire_layout r) kValueOffset = valueD r"
    unfolding w using readU64_be_bytes [of "?m @ ?v @ ?l @ ?s @ ?k @ ?t" kValueOffset "valueD r" "[]"]
    by (simp add: kValueOffset_def)
  ultimately show ?thesis by (simp add: decode_def)
qed

lemma list_32_fields:
  assumes "length f = kFrameSize"
  shows "f = take 4 (drop 0 f) @ take 2 (drop 4 f) @ take 2 (drop 6 f) @ take 4 (drop 8 f) @
    take 4 (drop 12 f) @ take 8 (drop 16 f) @ take 8 (drop 24 f)"
proof -
  have *: "drop n f = take k (drop n f) @ drop (n + k) f" for n k
    by (metis add.commute append_take_drop_id drop_drop)
  have "f = drop 0 f" by simp
  then show ?thesis
    using * [of 0 4] * [of 4 2] * [of 6 2] * [of 8 4] * [of 12 4] * [of 16 8] assms
    by (simp add: kFrameSize_def)
qed

lemma decode_ok_iff: "dr_error (decode f) = NoError \<longleftrightarrow> f = wire_layout (dr_record (decode f))"
proof
  assume ok: "dr_error (decode f) = NoError"
  then have len: "length f = kFrameSize" and m: "readU32 f 0 = kMagic" and v: "readU16 f 4 = kVersion"
    and l: "readU16 f 6 = of_nat kFrameSize"
    and r: "dr_record (decode f) = \<lparr>sensorId = readU32 f 8, metricId = readU32 f 12,
      timestampNs = readU64 f 16, valueD = readU64 f 24\<rparr>"
    by (auto simp: decode_def offset_defs split: if_splits)
  have "length f = 32" using len by (simp add: kFrameSize_def)
  then have b: "be_bytes 4 (readU32 f 0) = take 4 (drop 0 f)"
    "be_bytes 2 (readU16 f 4) = take 2 (drop 4 f)" "be_bytes 2 (readU16 f 6) = take 2 (drop 6 f)"
    "be_bytes 4 (readU32 f 8) = take 4 (drop 8 f)" "be_bytes 4 (readU32 f 12) = take 4 (drop 12 f)"
    "be_bytes 8 (readU64 f 16) = take 8 (drop 16 f)" "be_bytes 8 (readU64 f 24) = take 8 (drop 24 f)"
    by (simp_all only: be_bytes_readU16 be_bytes_readU32 be_bytes_readU64)
  have "wire_layout (dr_record (decode f)) = take 4 (drop 0 f) @ take 2 (drop 4 f) @
      take 2 (drop 6 f) @ take 4 (drop 8 f) @ take 4 (drop 12 f) @ take 8 (drop 16 f) @ take 8 (drop 24 f)"
    unfolding b [symmetric] m v l by (simp add: wire_layout_def r)
  then show "f = wire_layout (dr_record (decode f))"
    using list_32_fields [OF len] by simp
next
  assume "f = wire_layout (dr_record (decode f))"
  then show "dr_error (decode f) = NoError" by (metis decode_wire_layout decodeResult.select_convs(2))
qed


section \<open>Properties\<close>

text \<open>C25: round trip. Decoding the frame that \<open>encode\<close> produces succeeds and gives back
  every field of the record bit for bit, the NaN payloads and signed zeros of the value
  included.\<close>

theorem decode_encode: "decode (encode r) = \<lparr>dr_record = r, dr_error = NoError\<rparr>"
  by (simp add: encode_eq_wire_layout decode_wire_layout)

text \<open>C26: the format is canonical. A byte string decodes without error exactly when it is the
  encoding of the record that decoding it returns, so a frame that passes validation carries no
  hidden bits and re-encoding it reproduces the same 32 bytes.\<close>

theorem decode_canonical: "dr_ok (decode f) \<longleftrightarrow> encode (dr_record (decode f)) = f"
  using decode_ok_iff [of f] by (auto simp: dr_ok_def encode_eq_wire_layout)

text \<open>C27: the in-place writers produce the documented wire format: 32 bytes that are the
  big-endian bytes of magic, version, declared size, sensor, metric, timestamp and value at
  offsets 0, 4, 6, 8, 12, 16 and 24.\<close>

theorem encode_wire_format:
  "encode r =
     be_bytes 4 (0x544C5259 :: u32) @ be_bytes 2 (1 :: u16) @ be_bytes 2 (32 :: u16) @
     be_bytes 4 (sensorId r) @ be_bytes 4 (metricId r) @
     be_bytes 8 (timestampNs r) @ be_bytes 8 (valueD r)"
  by (simp add: encode_eq_wire_layout wire_layout_def kMagic_def kVersion_def kFrameSize_def)

lemma readU32_field: "offset + 4 \<le> length f \<Longrightarrow> readU32 f offset = v \<longleftrightarrow> take 4 (drop offset f) = be_bytes 4 v"
  using be_bytes_readU32 [of offset f] readU32_be_bytes [of "take offset f" offset v "drop (offset + 4) f"]
  by (metis append_take_drop_id drop_drop add.commute length_take min_absorb2 add_leD1)

lemma readU16_field: "offset + 2 \<le> length f \<Longrightarrow> readU16 f offset = v \<longleftrightarrow> take 2 (drop offset f) = be_bytes 2 v"
  using be_bytes_readU16 [of offset f] readU16_be_bytes [of "take offset f" offset v "drop (offset + 2) f"]
  by (metis append_take_drop_id drop_drop add.commute length_take min_absorb2 add_leD1)

text \<open>C28: the error of \<open>decode\<close> for every byte string, read off its bytes: the actual size is
  checked first, then the bytes TLRY, then the version bytes, then the declared size, and the
  first mismatch decides. A rejected frame carries the empty record.\<close>

theorem decode_error_order:
  "dr_error (decode f) =
     (if length f \<noteq> 32 then InvalidSize
      else if take 4 f \<noteq> [0x54, 0x4C, 0x52, 0x59] then InvalidMagic
      else if take 2 (drop 4 f) \<noteq> [0, 1] then UnsupportedVersion
      else if take 2 (drop 6 f) \<noteq> [0, 32] then InvalidDeclaredFrameSize
      else NoError) \<and>
   (dr_error (decode f) \<noteq> NoError \<longrightarrow> dr_record (decode f) = emptyRecord)"
proof -
  have m: "be_bytes 4 kMagic = [0x54, 0x4C, 0x52, 0x59]"
    by (simp add: be_bytes_4 kMagic_def)
  have v: "be_bytes 2 kVersion = [0, 1]" by (simp add: be_bytes_2 kVersion_def)
  have l: "be_bytes 2 (of_nat kFrameSize :: u16) = [0, 32]" by (simp add: be_bytes_2 kFrameSize_def)
  show ?thesis
    using readU32_field [of 0 f kMagic] readU16_field [of 4 f kVersion]
      readU16_field [of 6 f "of_nat kFrameSize"]
    unfolding m v l by (auto simp: decode_def offset_defs kFrameSize_def)
qed

theorem decode_error_order_witness:
  "dr_error (decode [0x54, 0x4C, 0x52, 0x59, 0]) = InvalidSize \<and>
   dr_record (decode [0x54, 0x4C, 0x52, 0x59, 0]) = emptyRecord"
  using decode_error_order [of "[0x54, 0x4C, 0x52, 0x59, 0]"] by simp

text \<open>The round trip seen through the record's own \<open>operator==\<close>, which compares the value
  as IEEE does: the decoded record compares equal to the original exactly when the value is not
  a NaN.\<close>

theorem decode_encode_operator_eq:
  "recordEq (dr_record (decode (encode r))) r \<longleftrightarrow> \<not> isNaN (valueD r)"
  by (simp add: encode_eq_wire_layout decode_wire_layout recordEq_def doubleEq_def)

end
