(* ===== verification/Config.thy ===== *)
theory Config
  imports Codec
begin

text \<open>
  The command line of \<open>Config/\<close>: \<open>AppConfig\<close>, \<open>parseUnsigned\<close> over
  \<open>std::from_chars\<close>, \<open>validate\<close>, \<open>parseArguments\<close> and \<open>printUsage\<close>. A
  configuration and the text written to the error stream are passed as explicit state, so that
  what the parser leaves behind on an error is visible. Sizes are natural numbers; the width of
  the destination type is the first argument of \<open>from_chars\<close>.
\<close>

section \<open>Data\<close>

record appConfig =
  port :: nat
  dataFilePath :: string
  maxSegmentBytes :: nat
  syncEveryBytes :: nat
  quiet :: bool

definition defaultConfig :: appConfig where
  "defaultConfig =
     \<lparr>port = 9000, dataFilePath = ''telemetry.bin'', maxSegmentBytes = 64 * 1024 * 1024,
      syncEveryBytes = 1 * 1024 * 1024, quiet = False\<rparr>"

datatype parseStatus = Success | HelpRequested | Error

abbreviation nl :: string where "nl \<equiv> [CHR 0x0A]"

definition portBits :: nat where "portBits = 16"
definition sizeBits :: nat where "sizeBits = 64"


section \<open>Numbers\<close>

text \<open>
  \<open>std::from_chars\<close> on an unsigned destination: the longest prefix of decimal digits is the
  match; no digit is \<open>invalid_argument\<close>, a value beyond the type is \<open>result_out_of_range\<close>,
  and in both cases the destination keeps its value. The result is the destination, the number
  of characters consumed and the error.
\<close>

datatype errc = NoErrc | InvalidArgument | ResultOutOfRange

definition from_chars :: "nat \<Rightarrow> string \<Rightarrow> nat \<Rightarrow> nat \<times> nat \<times> errc" where
  "from_chars w text dest =
     (let digits = takeWhile is_digit text; n = length digits; v = dec_value digits
      in if digits = [] then (dest, 0, InvalidArgument)
         else if 2 ^ w \<le> v then (dest, n, ResultOutOfRange)
         else (v, n, NoErrc))"

definition parseUnsigned :: "nat \<Rightarrow> string \<Rightarrow> nat \<Rightarrow> bool \<times> nat" where
  "parseUnsigned w text result =
     (if text = [] then (False, result)
      else case from_chars w text 0 of
        (parsed, ptr, error) \<Rightarrow>
          if error \<noteq> NoErrc \<or> ptr \<noteq> length text then (False, result) else (True, parsed))"


section \<open>Validation and parsing\<close>

definition validate :: "appConfig \<Rightarrow> string \<Rightarrow> bool \<times> string" where
  "validate config out =
     (if port config = 0 then (False, out @ ''port must be between 1 and 65535'' @ nl)
      else if dataFilePath config = [] then (False, out @ ''data file path cannot be empty'' @ nl)
      else if maxSegmentBytes config < kFrameSize then
        (False, out @ ''segment size must be at least '' @ dec_string kFrameSize @ '' bytes'' @ nl)
      else if maxSegmentBytes config mod kFrameSize \<noteq> 0 then
        (False, out @ ''segment size must be a multiple of '' @ dec_string kFrameSize @ '' bytes'' @ nl)
      else if syncEveryBytes config \<noteq> 0 \<and> maxSegmentBytes config < syncEveryBytes config then
        (False, out @ ''sync interval cannot exceed '' @ ''segment size'' @ nl)
      else (True, out))"

text \<open>The lambda \<open>nextValue\<close>: the value, the arguments left and the error output.\<close>

definition nextValue ::
  "string \<Rightarrow> string list \<Rightarrow> string \<Rightarrow> string option \<times> string list \<times> string" where
  "nextValue argument rest out =
     (case rest of
        [] \<Rightarrow> (None, [], out @ ''missing value for '' @ argument @ nl)
      | v # rest' \<Rightarrow> (Some v, rest', out))"

text \<open>
  The loop over \<open>argv[1]\<close>, \<open>argv[2]\<close>, \dots: the recursion is on the arguments left, which
  \<open>nextValue\<close> shortens by one more where an option takes a value.
\<close>

function parseLoop ::
  "string list \<Rightarrow> appConfig \<Rightarrow> string \<Rightarrow> parseStatus \<times> appConfig \<times> string" where
  "parseLoop [] config out =
     (case validate config out of
        (ok, out') \<Rightarrow> (if ok then Success else Error, config, out'))"
| "parseLoop (argument # rest) config out =
     (if argument = ''--help'' \<or> argument = ''-h'' then (HelpRequested, config, out)
      else if argument = ''--quiet'' then parseLoop rest (config\<lparr>quiet := True\<rparr>) out
      else if argument = ''--port'' then
        (case nextValue argument rest out of
           (None, _, out') \<Rightarrow> (Error, config, out')
         | (Some value, rest', out') \<Rightarrow>
             (case parseUnsigned portBits value (port config) of
                (ok, p) \<Rightarrow>
                  (let config' = config\<lparr>port := p\<rparr>
                   in if \<not> ok \<or> p = 0
                      then (Error, config', out' @ ''invalid port: '' @ value @ nl)
                      else parseLoop rest' config' out')))
      else if argument = ''--data-file'' then
        (case nextValue argument rest out of
           (None, _, out') \<Rightarrow> (Error, config, out' @ ''invalid data file path'' @ nl)
         | (Some value, rest', out') \<Rightarrow>
             if value = [] then (Error, config, out' @ ''invalid data file path'' @ nl)
             else parseLoop rest' (config\<lparr>dataFilePath := value\<rparr>) out')
      else if argument = ''--segment-bytes'' then
        (case nextValue argument rest out of
           (None, _, out') \<Rightarrow> (Error, config, out' @ ''invalid segment size'' @ nl)
         | (Some value, rest', out') \<Rightarrow>
             (case parseUnsigned sizeBits value (maxSegmentBytes config) of
                (ok, n) \<Rightarrow>
                  if \<not> ok then (Error, config, out' @ ''invalid segment size'' @ nl)
                  else parseLoop rest' (config\<lparr>maxSegmentBytes := n\<rparr>) out'))
      else if argument = ''--sync-bytes'' then
        (case nextValue argument rest out of
           (None, _, out') \<Rightarrow> (Error, config, out' @ ''invalid sync interval'' @ nl)
         | (Some value, rest', out') \<Rightarrow>
             (case parseUnsigned sizeBits value (syncEveryBytes config) of
                (ok, n) \<Rightarrow>
                  if \<not> ok then (Error, config, out' @ ''invalid sync interval'' @ nl)
                  else parseLoop rest' (config\<lparr>syncEveryBytes := n\<rparr>) out'))
      else (Error, config, out @ ''unknown argument: '' @ argument @ nl))"
  by pat_completeness auto
termination
  by (relation "measure (\<lambda>(args, _, _). length args)")
    (auto simp: nextValue_def split: list.splits)

definition parseArguments ::
  "string list \<Rightarrow> appConfig \<Rightarrow> string \<Rightarrow> parseStatus \<times> appConfig \<times> string" where
  "parseArguments argv config out = parseLoop (drop 1 argv) config out"

definition printUsage :: "string \<Rightarrow> string \<Rightarrow> string" where
  "printUsage output programName =
     output @ ''usage: '' @ programName @ '' [options]'' @ nl @ nl
       @ ''options:'' @ nl
       @ ''  --port PORT'' @ nl
       @ ''  --data-file PATH'' @ nl
       @ ''  --segment-bytes BYTES'' @ nl
       @ ''  --sync-bytes BYTES'' @ nl
       @ ''  --quiet (suppress per-record logs)'' @ nl
       @ ''  -h, --help'' @ nl"



section \<open>Numbers: what is accepted\<close>

declare parseLoop.simps [simp del]

lemma takeWhile_all_digits: "list_all is_digit t \<Longrightarrow> takeWhile is_digit t = t"
  by (simp add: list_all_iff)

lemma takeWhile_not_all: "\<not> list_all P t \<Longrightarrow> length (takeWhile P t) \<noteq> length t"
  by (metis list_all_iff takeWhile_eq_take set_takeWhileD take_all_iff le_refl)

lemma parseUnsigned_iff:
  "parseUnsigned w text result =
     (if text \<noteq> [] \<and> list_all is_digit text \<and> dec_value text < 2 ^ w
      then (True, dec_value text) else (False, result))"
proof (cases "list_all is_digit text")
  case True
  then show ?thesis
    by (auto simp: parseUnsigned_def from_chars_def takeWhile_all_digits Let_def)
next
  case False
  then have "length (takeWhile is_digit text) \<noteq> length text"
    by (rule takeWhile_not_all)
  then show ?thesis
    using False by (auto simp: parseUnsigned_def from_chars_def Let_def)
qed

lemma parseUnsigned_dec_string [simp]:
  "n < 2 ^ w \<Longrightarrow> parseUnsigned w (dec_string n) r = (True, n)"
  using dec_string_digits [of n] by (simp add: parseUnsigned_iff list_all_iff)

lemma parseUnsigned_bound: "parseUnsigned w text r = (ok, n) \<Longrightarrow> r < 2 ^ w \<Longrightarrow> n < 2 ^ w"
  by (auto simp: parseUnsigned_iff split: if_splits)


section \<open>Validity\<close>

definition validConfig :: "appConfig \<Rightarrow> bool" where
  "validConfig c \<longleftrightarrow> port c \<noteq> 0 \<and> dataFilePath c \<noteq> [] \<and> kFrameSize \<le> maxSegmentBytes c \<and>
     kFrameSize dvd maxSegmentBytes c \<and> syncEveryBytes c \<le> maxSegmentBytes c"

definition configInRange :: "appConfig \<Rightarrow> bool" where
  "configInRange c \<longleftrightarrow>
     port c < 2 ^ portBits \<and> maxSegmentBytes c < 2 ^ sizeBits \<and> syncEveryBytes c < 2 ^ sizeBits"

lemma validate_iff: "fst (validate c out) \<longleftrightarrow> validConfig c"
  by (auto simp: validate_def validConfig_def dvd_eq_mod_eq_0)

lemma validate_output:
  "validate c out = (ok, out') \<Longrightarrow> if ok then out' = out else \<exists>msg. msg \<noteq> [] \<and> out' = out @ msg @ nl"
  by (auto simp: validate_def split: if_splits)

text \<open>
  The shared shape of the induction over the parser: a predicate on the starting configuration
  that every assignment keeps holds for the resulting configuration.
\<close>

lemma parseLoop_invariant:
  assumes "parseLoop args c out = (st, c', out')" and "P c"
    and "\<And>c. P c \<Longrightarrow> P (c\<lparr>quiet := True\<rparr>)"
    and "\<And>c v ok p. P c \<Longrightarrow> parseUnsigned portBits v (port c) = (ok, p) \<Longrightarrow> P (c\<lparr>port := p\<rparr>)"
    and "\<And>c v. P c \<Longrightarrow> v \<noteq> [] \<Longrightarrow> P (c\<lparr>dataFilePath := v\<rparr>)"
    and "\<And>c v n. P c \<Longrightarrow> parseUnsigned sizeBits v (maxSegmentBytes c) = (True, n) \<Longrightarrow>
      P (c\<lparr>maxSegmentBytes := n\<rparr>)"
    and "\<And>c v n. P c \<Longrightarrow> parseUnsigned sizeBits v (syncEveryBytes c) = (True, n) \<Longrightarrow>
      P (c\<lparr>syncEveryBytes := n\<rparr>)"
  shows "P c'"
  using assms(1,2)
proof (induction args c out rule: parseLoop.induct)
  case (1 config out)
  then show ?case by (simp add: parseLoop.simps split: prod.splits)
next
  case (2 argument rest config out)
  show ?case
    using "2.prems" "2.IH" assms(3-)
    by (auto simp: parseLoop.simps(2) Let_def split: if_splits option.splits prod.splits)
qed


lemma parseLoop_in_range:
  assumes "parseLoop args c out = (st, c', out')" and "configInRange c"
  shows "configInRange c'"
  using assms
  by (rule parseLoop_invariant) (auto simp: configInRange_def intro: parseUnsigned_bound)

lemma parseLoop_outcome:
  "parseLoop args c out = (st, c', out') \<Longrightarrow>
     (case st of Success \<Rightarrow> validConfig c' \<and> out' = out
       | HelpRequested \<Rightarrow> out' = out
       | Error \<Rightarrow> \<exists>msg. msg \<noteq> [] \<and> out' = out @ msg @ nl)"
proof (induction args c out rule: parseLoop.induct)
  case (1 config out)
  then show ?case
    using validate_iff [of config out] validate_output [of config out]
    by (auto simp: parseLoop.simps split: prod.splits if_splits)
next
  case (2 argument rest config out)
  show ?case
    using "2.prems" "2.IH"
    by (auto simp: parseLoop.simps(2) nextValue_def Let_def split: if_splits list.splits prod.splits)
qed


section \<open>Command lines made of well-formed options\<close>

datatype setting =
  SetPort nat | SetDataFile string | SetSegmentBytes nat | SetSyncBytes nat | SetQuiet

fun render :: "setting \<Rightarrow> string list" where
  "render (SetPort n) = [''--port'', dec_string n]"
| "render (SetDataFile p) = [''--data-file'', p]"
| "render (SetSegmentBytes n) = [''--segment-bytes'', dec_string n]"
| "render (SetSyncBytes n) = [''--sync-bytes'', dec_string n]"
| "render SetQuiet = [''--quiet'']"

fun settingOk :: "setting \<Rightarrow> bool" where
  "settingOk (SetPort n) \<longleftrightarrow> 0 < n \<and> n < 2 ^ portBits"
| "settingOk (SetDataFile p) \<longleftrightarrow> p \<noteq> []"
| "settingOk (SetSegmentBytes n) \<longleftrightarrow> n < 2 ^ sizeBits"
| "settingOk (SetSyncBytes n) \<longleftrightarrow> n < 2 ^ sizeBits"
| "settingOk SetQuiet \<longleftrightarrow> True"

fun assign :: "appConfig \<Rightarrow> setting \<Rightarrow> appConfig" where
  "assign c (SetPort n) = c\<lparr>port := n\<rparr>"
| "assign c (SetDataFile p) = c\<lparr>dataFilePath := p\<rparr>"
| "assign c (SetSegmentBytes n) = c\<lparr>maxSegmentBytes := n\<rparr>"
| "assign c (SetSyncBytes n) = c\<lparr>syncEveryBytes := n\<rparr>"
| "assign c SetQuiet = c\<lparr>quiet := True\<rparr>"

lemma parseLoop_setting:
  "settingOk s \<Longrightarrow> parseLoop (render s @ rest) c out = parseLoop rest (assign c s) out"
  by (cases s) (simp_all add: parseLoop.simps(2) nextValue_def Let_def)

lemma parseLoop_settings:
  "list_all settingOk ss \<Longrightarrow>
   parseLoop (concat (map render ss) @ rest) c out = parseLoop rest (foldl assign c ss) out"
  by (induction ss arbitrary: c) (simp_all add: parseLoop_setting)

lemma parseLoop_end:
  "parseLoop [] c out =
     (if validConfig c then (Success, c, out) else (Error, c, snd (validate c out)))"
proof -
  obtain ok out' where v: "validate c out = (ok, out')" by fastforce
  then have "ok = validConfig c" using validate_iff [of c out] by simp
  with v show ?thesis using validate_output [OF v] by (auto simp: parseLoop.simps)
qed

text \<open>The canonical command line of a configuration.\<close>

definition commandLine :: "appConfig \<Rightarrow> setting list" where
  "commandLine c =
     [SetPort (port c), SetDataFile (dataFilePath c), SetSegmentBytes (maxSegmentBytes c),
      SetSyncBytes (syncEveryBytes c)] @ (if quiet c then [SetQuiet] else [])"

lemma commandLine_ok: "validConfig c \<Longrightarrow> configInRange c \<Longrightarrow> list_all settingOk (commandLine c)"
  by (simp add: commandLine_def validConfig_def configInRange_def)

lemma assign_commandLine: "foldl assign defaultConfig (commandLine c) = c"
  by (simp add: commandLine_def defaultConfig_def)

lemma defaultConfig_valid: "validConfig defaultConfig" "configInRange defaultConfig"
  by (simp_all add: validConfig_def configInRange_def defaultConfig_def kFrameSize_def portBits_def
      sizeBits_def)


section \<open>Properties\<close>

text \<open>A number is accepted exactly when it is a nonempty string of decimal digits whose value
  fits the destination type; signs, blanks, suffixes and overflow are rejected and leave the
  destination unchanged.\<close>

theorem parseUnsigned_accepts:
  "parseUnsigned w text result =
     (if text \<noteq> [] \<and> list_all is_digit text \<and> dec_value text < 2 ^ w
      then (True, dec_value text) else (False, result))"
  by (rule parseUnsigned_iff)

text \<open>C33: what each outcome of \<open>parseArguments\<close> guarantees. Success leaves a valid configuration
  whose numbers fit their types and prints nothing; a help request prints nothing; every error
  prints a nonempty diagnostic that ends the line.\<close>

theorem parseArguments_outcome:
  assumes "parseArguments argv c out = (st, c', out')" and "configInRange c"
  shows "configInRange c' \<and>
    (case st of Success \<Rightarrow> validConfig c' \<and> out' = out
      | HelpRequested \<Rightarrow> out' = out
      | Error \<Rightarrow> \<exists>msg. msg \<noteq> [] \<and> out' = out @ msg @ nl)"
  using assms parseLoop_in_range parseLoop_outcome unfolding parseArguments_def by blast

lemma parseArguments_sample:
  "parseArguments [''ts'', ''--port'', dec_string 9100, ''--quiet''] defaultConfig [] =
     (Success, defaultConfig\<lparr>port := 9100, quiet := True\<rparr>, [])"
  using parseLoop_settings [of "[SetPort 9100, SetQuiet]" "[]" defaultConfig "[]"] defaultConfig_valid
  by (simp add: parseArguments_def parseLoop_end validConfig_def portBits_def)

theorem parseArguments_outcome_witness:
  "validConfig (defaultConfig\<lparr>port := 9100, quiet := True\<rparr>)"
  using parseArguments_outcome [OF parseArguments_sample defaultConfig_valid(2)] by simp

text \<open>Options may come in any order and number, the last one of a kind wins, and validation is
  applied once, to the final configuration: parsing a command line made of well-formed options
  gives the configuration with all of them assigned in order, with success exactly when that
  configuration is valid.\<close>

theorem parseArguments_settings:
  assumes "list_all settingOk ss"
  shows "parseArguments (prog # concat (map render ss)) c out =
    (let c' = foldl assign c ss
     in if validConfig c' then (Success, c', out) else (Error, c', snd (validate c' out)))"
  using parseLoop_settings [OF assms, of "[]" c out]
  by (simp add: parseArguments_def parseLoop_end Let_def)

theorem parseArguments_settings_witness:
  "parseArguments (''ts'' # concat (map render [SetSyncBytes 0, SetSegmentBytes 32])) defaultConfig [] =
     (Success, defaultConfig\<lparr>syncEveryBytes := 0, maxSegmentBytes := 32\<rparr>, [])"
  using parseArguments_settings [of "[SetSyncBytes 0, SetSegmentBytes 32]" "''ts''" defaultConfig "[]"]
  by (simp add: sizeBits_def validConfig_def defaultConfig_def kFrameSize_def)

text \<open>C34: every valid configuration can be requested. Printing a configuration as a command line and
  parsing it from the defaults gives the same configuration back.\<close>

theorem parseArguments_commandLine:
  assumes "validConfig c" and "configInRange c"
  shows "parseArguments (prog # concat (map render (commandLine c))) defaultConfig out = (Success, c, out)"
  using parseLoop_settings [OF commandLine_ok [OF assms], of "[]" defaultConfig out] assms
  by (simp add: parseArguments_def parseLoop_end assign_commandLine)

theorem parseArguments_commandLine_witness:
  "parseArguments (''ts'' # concat (map render (commandLine defaultConfig))) defaultConfig [] =
     (Success, defaultConfig, [])"
  by (rule parseArguments_commandLine [OF defaultConfig_valid])

end
