(* ===== verification/Ring.thy ===== *)
theory Ring
  imports Codec
begin

text \<open>
  The shared frame queue of \<open>Ipc/\<close>, \<open>SharedRingBuffer\<close>. \<open>layout\<close> is the mapped
  \<open>SharedRingBuffer::Layout\<close>: the two 64-bit counters and the close flag at their widths, and
  the \<open>slots\<close> array as a byte-addressed memory relative to the start of the array, so that the
  two \<open>memcpy\<close> calls of a batch are address ranges and a write outside the array would be
  visible. \<open>sharedRing\<close> is the C++ object with its possibly null \<open>m_layout\<close>. This theory
  has the operations as atomic calls; \<open>RingConcurrent\<close> splits them into their loads, copies
  and stores.
\<close>

section \<open>Data\<close>

definition capacityBytes :: nat where "capacityBytes = 4 * 1024 * 1024"
definition capacityFrames :: nat where "capacityFrames = capacityBytes div kFrameSize"
definition cacheLineSize :: nat where "cacheLineSize = 64"

record layout =
  head :: u64
  tail :: u64
  closedFlag :: u32
  slots :: "nat \<Rightarrow> byte"

record sharedRing =
  m_layout :: "layout option"
  m_mappingSize :: nat

definition emptyLayout :: layout where
  "emptyLayout = \<lparr>head = 0, tail = 0, closedFlag = 0, slots = (\<lambda>_. 0)\<rparr>"

definition newRing :: sharedRing where
  "newRing = \<lparr>m_layout = None, m_mappingSize = 0\<rparr>"

definition sizeofLayout :: nat where
  "sizeofLayout = 3 * cacheLineSize + capacityBytes"


section \<open>Memory\<close>

definition memcpy_in :: "(nat \<Rightarrow> byte) \<Rightarrow> nat \<Rightarrow> bytes \<Rightarrow> (nat \<Rightarrow> byte)" where
  "memcpy_in mem dst src = (\<lambda>a. if dst \<le> a \<and> a < dst + length src then src ! (a - dst) else mem a)"

definition memcpy_out :: "(nat \<Rightarrow> byte) \<Rightarrow> nat \<Rightarrow> nat \<Rightarrow> bytes" where
  "memcpy_out mem src n = map mem [src..<src + n]"

text \<open>Writing \<open>src\<close> at position \<open>off\<close> of a private buffer.\<close>

definition overwrite :: "'a list \<Rightarrow> nat \<Rightarrow> 'a list \<Rightarrow> 'a list" where
  "overwrite buf off src = take off buf @ src @ drop (off + length src) buf"


section \<open>Operations\<close>

text \<open>\<open>create\<close>: the argument is what \<open>mmap\<close> answers (\<open>MAP_FAILED\<close> or a zeroed mapping).\<close>

definition create :: "bool \<Rightarrow> sharedRing \<Rightarrow> bool \<times> sharedRing" where
  "create mmap_ok ring =
     (if m_layout ring \<noteq> None then (False, ring)
      else if \<not> mmap_ok then (False, ring)
      else (True, ring\<lparr>m_layout := Some emptyLayout, m_mappingSize := sizeofLayout\<rparr>))"

text \<open>The destructor: the sizes of the \<open>munmap\<close> calls it makes.\<close>

definition destroyRing :: "sharedRing \<Rightarrow> nat list" where
  "destroyRing ring = (case m_layout ring of None \<Rightarrow> [] | Some l \<Rightarrow> [m_mappingSize ring])"

definition producerClosed :: "sharedRing \<Rightarrow> bool" where
  "producerClosed ring = (case m_layout ring of None \<Rightarrow> True | Some l \<Rightarrow> closedFlag l \<noteq> 0)"

definition closeProducer :: "sharedRing \<Rightarrow> sharedRing" where
  "closeProducer ring =
     (case m_layout ring of None \<Rightarrow> ring | Some l \<Rightarrow> ring\<lparr>m_layout := Some (l\<lparr>closedFlag := 1\<rparr>)\<rparr>)"

definition tryPush :: "bytes \<Rightarrow> sharedRing \<Rightarrow> bool \<times> sharedRing" where
  "tryPush frame ring =
     (case m_layout ring of
        None \<Rightarrow> (False, ring)
      | Some l \<Rightarrow>
          if length frame \<noteq> kFrameSize then (False, ring)
          else if producerClosed ring then (False, ring)
          else if capacityFrames \<le> unat (head l - tail l) then (False, ring)
          else let slot = unat (head l) mod capacityFrames
               in (True, ring\<lparr>m_layout := Some
                     (l\<lparr>slots := memcpy_in (slots l) (slot * kFrameSize) frame,
                       head := head l + 1\<rparr>)\<rparr>))"

definition tryPop :: "bytes \<Rightarrow> sharedRing \<Rightarrow> bool \<times> bytes \<times> sharedRing" where
  "tryPop frame ring =
     (case m_layout ring of
        None \<Rightarrow> (False, frame, ring)
      | Some l \<Rightarrow>
          if length frame \<noteq> kFrameSize then (False, frame, ring)
          else if tail l = head l then (False, frame, ring)
          else let slot = unat (tail l) mod capacityFrames
               in (True, memcpy_out (slots l) (slot * kFrameSize) kFrameSize,
                   ring\<lparr>m_layout := Some (l\<lparr>tail := tail l + 1\<rparr>)\<rparr>))"

text \<open>The one or two \<open>memcpy\<close> calls of a batch: up to the end of the array, then from its start.\<close>

definition writeBatch :: "(nat \<Rightarrow> byte) \<Rightarrow> u64 \<Rightarrow> nat \<Rightarrow> bytes \<Rightarrow> (nat \<Rightarrow> byte)" where
  "writeBatch mem h count frames =
     (let index = unat h mod capacityFrames;
          first = min count (capacityFrames - index);
          mem1 = memcpy_in mem (index * kFrameSize) (take (first * kFrameSize) frames)
      in if first \<noteq> count
         then memcpy_in mem1 0 (take ((count - first) * kFrameSize) (drop (first * kFrameSize) frames))
         else mem1)"

definition readBatch :: "(nat \<Rightarrow> byte) \<Rightarrow> u64 \<Rightarrow> nat \<Rightarrow> bytes \<Rightarrow> bytes" where
  "readBatch mem t count frames =
     (let index = unat t mod capacityFrames;
          first = min count (capacityFrames - index);
          buf1 = overwrite frames 0 (memcpy_out mem (index * kFrameSize) (first * kFrameSize))
      in if first \<noteq> count
         then overwrite buf1 (first * kFrameSize) (memcpy_out mem 0 ((count - first) * kFrameSize))
         else buf1)"

definition tryPushBatch :: "bytes \<Rightarrow> sharedRing \<Rightarrow> nat \<times> sharedRing" where
  "tryPushBatch frames ring =
     (case m_layout ring of
        None \<Rightarrow> (0, ring)
      | Some l \<Rightarrow>
          if frames = [] \<or> length frames mod kFrameSize \<noteq> 0 \<or> producerClosed ring then (0, ring)
          else let freeFrames = sub64 capacityFrames (unat (head l - tail l));
                   count = min (length frames div kFrameSize) freeFrames
               in if count = 0 then (0, ring)
                  else (count, ring\<lparr>m_layout := Some
                          (l\<lparr>slots := writeBatch (slots l) (head l) count frames,
                            head := head l + of_nat count\<rparr>)\<rparr>))"

definition tryPopBatch :: "bytes \<Rightarrow> sharedRing \<Rightarrow> nat \<times> bytes \<times> sharedRing" where
  "tryPopBatch frames ring =
     (case m_layout ring of
        None \<Rightarrow> (0, frames, ring)
      | Some l \<Rightarrow>
          if frames = [] \<or> length frames mod kFrameSize \<noteq> 0 then (0, frames, ring)
          else let count = min (length frames div kFrameSize) (unat (head l - tail l))
               in if count = 0 then (0, frames, ring)
                  else (count, readBatch (slots l) (tail l) count frames,
                        ring\<lparr>m_layout := Some (l\<lparr>tail := tail l + of_nat count\<rparr>)\<rparr>))"

definition pendingFrames :: "sharedRing \<Rightarrow> nat" where
  "pendingFrames ring =
     (case m_layout ring of None \<Rightarrow> 0 | Some l \<Rightarrow> unat (head l - tail l))"

definition pendingBytes :: "sharedRing \<Rightarrow> nat" where
  "pendingBytes ring = pendingFrames ring * kFrameSize"

definition ringEmpty :: "sharedRing \<Rightarrow> bool" where
  "ringEmpty ring \<longleftrightarrow> pendingFrames ring = 0"

definition ringFull :: "sharedRing \<Rightarrow> bool" where
  "ringFull ring \<longleftrightarrow> capacityFrames \<le> pendingFrames ring"


section \<open>Slots and contents\<close>

definition slot_at :: "(nat \<Rightarrow> byte) \<Rightarrow> nat \<Rightarrow> bytes" where
  "slot_at mem j = memcpy_out mem (j * kFrameSize) kFrameSize"

definition queued :: "layout \<Rightarrow> nat" where
  "queued l = unat (head l - tail l)"

text \<open>The frames in the queue, oldest first.\<close>

definition contents :: "layout \<Rightarrow> bytes list" where
  "contents l = map (\<lambda>i. slot_at (slots l) ((unat (tail l) + i) mod capacityFrames)) [0..<queued l]"

definition layoutInv :: "layout \<Rightarrow> bool" where
  "layoutInv l \<longleftrightarrow> queued l \<le> capacityFrames"

definition ringInv :: "sharedRing \<Rightarrow> bool" where
  "ringInv ring \<longleftrightarrow> (\<exists>l. m_layout ring = Some l \<and> layoutInv l)"

definition ringFrames :: "sharedRing \<Rightarrow> bytes list" where
  "ringFrames ring = (case m_layout ring of None \<Rightarrow> [] | Some l \<Rightarrow> contents l)"

definition isFrame :: "bytes \<Rightarrow> bool" where
  "isFrame f \<longleftrightarrow> length f = kFrameSize"

definition validFrame :: "bytes \<Rightarrow> bool" where
  "validFrame f \<longleftrightarrow> isFrame f \<and> dr_ok (decode f)"

lemma validFrame_encode: "validFrame (encode r)"
  by (simp add: validFrame_def isFrame_def encode_eq_wire_layout decode_wire_layout dr_ok_def)

lemma capacityFrames_eq [ring_defs]: "capacityFrames = 2 ^ 17"
  by (simp add: capacityFrames_def capacityBytes_def kFrameSize_def)

lemma capacityFrames_pos [simp]: "0 < capacityFrames" "capacityFrames \<noteq> 0"
  by (simp_all add: ring_defs)

lemma capacityFrames_dvd: "capacityFrames dvd 2 ^ 64"
  unfolding capacityFrames_eq by (rule le_imp_power_dvd) simp

lemma capacityFrames_lt: "capacityFrames < 2 ^ 64"
  by (simp add: ring_defs)

lemma length_slot_at [simp]: "length (slot_at mem j) = kFrameSize"
  by (simp add: slot_at_def memcpy_out_def)

lemma length_contents [simp]: "length (contents l) = queued l"
  by (simp add: contents_def)

lemma contents_frames: "f \<in> set (contents l) \<Longrightarrow> isFrame f"
  by (auto simp: contents_def isFrame_def)

lemma pendingFrames_eq: "pendingFrames ring = length (ringFrames ring)"
  by (simp add: pendingFrames_def ringFrames_def queued_def split: option.split)


section \<open>Copies as slots\<close>

text \<open>A copy of whole frames replaces whole slots.\<close>

lemma slot_at_memcpy_in:
  assumes "length bs = n * kFrameSize"
  shows "slot_at (memcpy_in mem (i * kFrameSize) bs) j =
    (if i \<le> j \<and> j < i + n then take kFrameSize (drop ((j - i) * kFrameSize) bs) else slot_at mem j)"
proof (cases "i \<le> j \<and> j < i + n")
  case True
  then obtain d where d: "j = i + d" "d < n" by (metis le_Suc_ex nat_add_left_cancel_less)
  then have room: "d * kFrameSize + kFrameSize \<le> length bs"
    using assms by (metis Suc_leI add.commute mult_Suc mult_le_mono1)
  show ?thesis
  proof (rule nth_equalityI)
    fix k assume "k < length (slot_at (memcpy_in mem (i * kFrameSize) bs) j)"
    then have "k < kFrameSize" by simp
    with d room True show "slot_at (memcpy_in mem (i * kFrameSize) bs) j ! k =
        (if i \<le> j \<and> j < i + n then take kFrameSize (drop ((j - i) * kFrameSize) bs)
         else slot_at mem j) ! k"
      by (simp add: slot_at_def memcpy_out_def memcpy_in_def add_mult_distrib)
  qed (use d room in simp)
next
  case False
  then have "(j + 1) * kFrameSize \<le> i * kFrameSize \<or> (i + n) * kFrameSize \<le> j * kFrameSize"
    by (metis Suc_eq_plus1 Suc_leI mult_le_mono1 not_le)
  then have "\<forall>a \<in> {j * kFrameSize..<j * kFrameSize + kFrameSize}.
      memcpy_in mem (i * kFrameSize) bs a = mem a"
    using assms by (auto simp: memcpy_in_def add_mult_distrib)
  with False show ?thesis by (auto simp: slot_at_def memcpy_out_def)
qed

text \<open>Reading a run of slots reads the concatenation of their frames.\<close>

lemma memcpy_out_add: "memcpy_out mem a (b + c) = memcpy_out mem a b @ memcpy_out mem (a + b) c"
  unfolding memcpy_out_def by (metis add.assoc le_add1 map_append upt_add_eq_append)

lemma memcpy_out_slots:
  "memcpy_out mem (i * kFrameSize) (n * kFrameSize) = concat (map (slot_at mem) [i..<i + n])"
proof (induction n)
  case (Suc n)
  have "Suc n * kFrameSize = n * kFrameSize + kFrameSize" by simp
  then show ?case
    by (simp only: memcpy_out_add Suc) (simp add: slot_at_def add_mult_distrib)
qed (simp add: memcpy_out_def)


section \<open>Batches\<close>

text \<open>The distance of slot \<open>j\<close> from slot \<open>index\<close>, going forward around the ring.\<close>

definition ringDist :: "nat \<Rightarrow> nat \<Rightarrow> nat" where
  "ringDist index j = (if index \<le> j then j - index else j + capacityFrames - index)"

lemma ringDist_forward:
  "index < capacityFrames \<Longrightarrow> d < capacityFrames \<Longrightarrow> ringDist index ((index + d) mod capacityFrames) = d"
  by (cases "index + d < capacityFrames")
    (auto simp: ringDist_def not_less mod_if le_mod_geq)

lemma chunk_of_run:
  assumes "d < n" and "(m + n) * kFrameSize \<le> length frames"
  shows "take kFrameSize (drop (d * kFrameSize) (take (n * kFrameSize) (drop (m * kFrameSize) frames))) =
    chunks kFrameSize frames ! (m + d)"
proof -
  have "(d + 1) * kFrameSize \<le> n * kFrameSize" using assms(1) by (intro mult_le_mono1) simp
  then have "take kFrameSize (drop (d * kFrameSize) (take (n * kFrameSize) (drop (m * kFrameSize) frames))) =
      take kFrameSize (drop ((m + d) * kFrameSize) frames)"
    by (simp add: drop_take add_mult_distrib add.commute)
  moreover have "m + n \<le> length frames div kFrameSize"
    using assms(2) by (metis div_le_mono kFrameSize_pos(2) nonzero_mult_div_cancel_right)
  then have "m + d < length frames div kFrameSize" using assms(1) by simp
  ultimately show ?thesis by (simp add: nth_chunks)
qed

lemmas chunk_of_prefix = chunk_of_run [where m = 0, simplified]

text \<open>The batch copy split at the end of the array, slot by slot.\<close>

lemma slot_at_two_copies:
  assumes "length bs1 = n1 * kFrameSize" and "length bs2 = n2 * kFrameSize"
  shows "slot_at (memcpy_in (memcpy_in mem (index * kFrameSize) bs1) 0 bs2) j =
    (if j < n2 then take kFrameSize (drop (j * kFrameSize) bs2)
     else if index \<le> j \<and> j < index + n1 then take kFrameSize (drop ((j - index) * kFrameSize) bs1)
     else slot_at mem j)"
  using slot_at_memcpy_in [OF assms(2), of "memcpy_in mem (index * kFrameSize) bs1" 0 j]
  by (simp add: slot_at_memcpy_in [OF assms(1)])

lemma slot_at_writeBatch:
  assumes "j < capacityFrames" and "count \<le> capacityFrames" and "count * kFrameSize \<le> length frames"
  shows "slot_at (writeBatch mem h count frames) j =
    (let d = ringDist (unat h mod capacityFrames) j
     in if d < count then chunks kFrameSize frames ! d else slot_at mem j)"
proof -
  define index where "index = unat h mod capacityFrames"
  define first where "first = min count (capacityFrames - index)"
  have index: "index < capacityFrames" by (simp add: index_def)
  have f: "first \<le> count" by (simp add: first_def)
  then have "first * kFrameSize \<le> length frames" using assms(3) by (meson le_trans mult_le_mono1)
  then have len1: "length (take (first * kFrameSize) frames) = first * kFrameSize" by simp
  have len2: "length (take ((count - first) * kFrameSize) (drop (first * kFrameSize) frames)) =
      (count - first) * kFrameSize"
    using assms(3) by (simp add: diff_mult_distrib)
  have one: "take kFrameSize (drop (d * kFrameSize) (take (first * kFrameSize) frames)) =
      chunks kFrameSize frames ! d" if "d < first" for d
    using chunk_of_prefix that \<open>first * kFrameSize \<le> length frames\<close> by blast
  have two: "take kFrameSize (drop (d * kFrameSize)
      (take ((count - first) * kFrameSize) (drop (first * kFrameSize) frames))) =
      chunks kFrameSize frames ! (first + d)" if "d < count - first" for d
    using chunk_of_run [OF that, of first frames] f assms(3) by simp
  have w: "writeBatch mem h count frames =
      (let mem1 = memcpy_in mem (index * kFrameSize) (take (first * kFrameSize) frames)
       in if first \<noteq> count then memcpy_in mem1 0
            (take ((count - first) * kFrameSize) (drop (first * kFrameSize) frames)) else mem1)"
    by (simp add: writeBatch_def index_def first_def Let_def)
  have split: "first = count \<and> index + count \<le> capacityFrames \<or>
      first < count \<and> first = capacityFrames - index"
    using index by (auto simp: first_def min_def)
  note s1 = slot_at_memcpy_in [OF len1, of mem index j]
  note s2 = slot_at_two_copies [OF len1 len2, of mem index j]
  show ?thesis
  proof (cases "first = count")
    case True
    with split assms(1) index show ?thesis
      unfolding w Let_def index_def [symmetric] using s1 one by (auto simp: ringDist_def)
  next
    case False
    with split assms(1,2) index show ?thesis
      unfolding w Let_def index_def [symmetric] if_P [OF False] s2
      using one two by (auto simp: ringDist_def add.commute [of capacityFrames j])
  qed
qed

lemma length_overwrite [simp]: "off + length src \<le> length buf \<Longrightarrow> length (overwrite buf off src) = length buf"
  by (simp add: overwrite_def)

lemma length_memcpy_out [simp]: "length (memcpy_out mem a n) = n"
  by (simp add: memcpy_out_def)

text \<open>A batch read copies the frames that follow \<open>t\<close> around the ring.\<close>

lemma readBatch_eq:
  assumes "count \<le> capacityFrames" and "count * kFrameSize \<le> length buf"
  shows "readBatch mem t count buf =
    concat (map (\<lambda>i. slot_at mem ((unat t + i) mod capacityFrames)) [0..<count]) @
    drop (count * kFrameSize) buf"
proof -
  define index where "index = unat t mod capacityFrames"
  define first where "first = min count (capacityFrames - index)"
  have index: "index < capacityFrames" by (simp add: index_def)
  have f: "first \<le> count" by (simp add: first_def)
  have wrap: "(unat t + i) mod capacityFrames =
      (if i < capacityFrames - index then index + i else i - (capacityFrames - index))"
    if "i < count" for i
  proof -
    have "(unat t + i) mod capacityFrames = (index + i) mod capacityFrames"
      unfolding index_def by (simp add: mod_add_left_eq)
    with that assms(1) index show ?thesis by (auto simp: mod_if)
  qed
  have run: "concat (map (\<lambda>i. slot_at mem ((unat t + i) mod capacityFrames)) [0..<count]) =
      memcpy_out mem (index * kFrameSize) (first * kFrameSize) @
      memcpy_out mem 0 ((count - first) * kFrameSize)"
  proof -
    have e1: "[0..<count] = [0..<first] @ map (\<lambda>i. first + i) [0..<count - first]"
      using f by (intro nth_equalityI) (auto simp: nth_append)
    have e2: "map (\<lambda>i. slot_at mem ((unat t + i) mod capacityFrames)) [0..<first] =
        map (slot_at mem) [index..<index + first]"
      using f by (auto intro!: nth_equalityI simp: wrap first_def)
    have e3: "map (\<lambda>i. slot_at mem ((unat t + (first + i)) mod capacityFrames)) [0..<count - first] =
        map (slot_at mem) [0..<count - first]"
      by (auto intro!: map_cong simp: wrap first_def)
    have e4: "memcpy_out mem 0 ((count - first) * kFrameSize) =
        concat (map (slot_at mem) [0..<count - first])"
      using memcpy_out_slots [of mem 0 "count - first"] by simp
    show ?thesis
      unfolding e1 map_append map_map comp_def e2 e3 e4 memcpy_out_slots concat_append ..
  qed
  have len: "first * kFrameSize + (count - first) * kFrameSize = count * kFrameSize"
    using f by (simp add: diff_mult_distrib)
  have r: "readBatch mem t count buf =
      (let buf1 = overwrite buf 0 (memcpy_out mem (index * kFrameSize) (first * kFrameSize))
       in if first \<noteq> count then overwrite buf1 (first * kFrameSize)
            (memcpy_out mem 0 ((count - first) * kFrameSize)) else buf1)"
    by (simp add: readBatch_def index_def first_def Let_def)
  show ?thesis
    unfolding run r Let_def using len assms(2) mult_le_mono1 [OF f, of kFrameSize]
    by (cases "first = count") (simp_all add: overwrite_def memcpy_out_def [of mem 0 0])
qed



section \<open>The operations on the queue\<close>

lemma head_index: "unat (head l) mod capacityFrames = (unat (tail l) + queued l) mod capacityFrames"
  using unat_plus_mod [OF capacityFrames_dvd, of "tail l" "head l - tail l"] by (simp add: queued_def)

text \<open>
  Seen from the write position, the frame \<open>i\<close> places after the tail lies either in the written
  range or, for a queued frame, beyond it all the way around the ring.
\<close>

lemma ringDist_from_head:
  assumes "i < queued l + count" and "queued l + count \<le> capacityFrames"
  shows "ringDist (unat (head l) mod capacityFrames) ((unat (tail l) + i) mod capacityFrames) =
    (if i < queued l then i + capacityFrames - queued l else i - queued l)"
proof -
  let ?d = "if i < queued l then i + capacityFrames - queued l else i - queued l"
  let ?h = "unat (head l) mod capacityFrames"
  have "(?h + ?d) mod capacityFrames = (unat (tail l) + queued l + ?d) mod capacityFrames"
    unfolding head_index by (simp add: mod_add_left_eq)
  moreover have "unat (tail l) + queued l + ?d =
      (if i < queued l then unat (tail l) + i + capacityFrames else unat (tail l) + i)"
    using assms by auto
  ultimately have "(unat (tail l) + i) mod capacityFrames = (?h + ?d) mod capacityFrames"
    by auto
  moreover have "?d < capacityFrames" using assms by auto
  ultimately show ?thesis using ringDist_forward [of ?h ?d] by simp
qed

lemma slot_after_write:
  assumes "i < queued l + count" and "queued l + count \<le> capacityFrames"
    and "count * kFrameSize \<le> length frames"
  shows "slot_at (writeBatch (slots l) (head l) count frames) ((unat (tail l) + i) mod capacityFrames) =
    (if i < queued l then slot_at (slots l) ((unat (tail l) + i) mod capacityFrames)
     else chunks kFrameSize frames ! (i - queued l))"
proof -
  have "count \<le> capacityFrames" using assms(2) by simp
  then show ?thesis
    using slot_at_writeBatch [of "(unat (tail l) + i) mod capacityFrames" count frames "slots l" "head l"]
      assms ringDist_from_head [OF assms(1,2)]
    by (auto simp: Let_def)
qed

lemma contents_write:
  assumes "queued l + count \<le> capacityFrames" and "count * kFrameSize \<le> length frames"
  defines "l' \<equiv> l\<lparr>slots := writeBatch (slots l) (head l) count frames, head := head l + of_nat count\<rparr>"
  shows "contents l' = contents l @ take count (chunks kFrameSize frames)"
    and "queued l' = queued l + count"
proof -
  have h: "head l + of_nat count - tail l = (head l - tail l) + of_nat count" by simp
  have "unat (head l - tail l) + count < 2 ^ 64"
    using assms(1) capacityFrames_lt unfolding queued_def by linarith
  from unat_plus_of_nat [OF this] show q: "queued l' = queued l + count"
    unfolding queued_def l'_def h [symmetric] by simp
  have len: "count \<le> length (chunks kFrameSize frames)"
    using div_le_mono [OF assms(2), of kFrameSize] by (simp add: length_chunks)
  have nth: "contents l' ! i = slot_at (slots l') ((unat (tail l) + i) mod capacityFrames)"
    if "i < queued l'" for i
    using that by (simp add: contents_def) (simp add: l'_def)
  show "contents l' = contents l @ take count (chunks kFrameSize frames)"
  proof (rule nth_equalityI)
    fix i assume "i < length (contents l')"
    then have "i < queued l'" "i < queued l + count" by (simp_all add: q)
    then show "contents l' ! i = (contents l @ take count (chunks kFrameSize frames)) ! i"
      using nth slot_after_write [OF _ assms(1,2), of i]
      by (auto simp: nth_append contents_def [of l] l'_def)
  qed (use q len in simp)
qed

lemma contents_read:
  assumes "count \<le> queued l"
  defines "l' \<equiv> l\<lparr>tail := tail l + of_nat count\<rparr>"
  shows "contents l' = drop count (contents l)" and "queued l' = queued l - count"
proof -
  have t: "head l - (tail l + of_nat count) = (head l - tail l) - of_nat count" by simp
  show q: "queued l' = queued l - count"
    using unat_minus_of_nat [OF assms(1) [unfolded queued_def]]
    unfolding queued_def l'_def t [symmetric] by simp
  have "(unat (tail l + of_nat count) + i) mod capacityFrames =
      (unat (tail l) + (count + i)) mod capacityFrames" for i
    by (metis unat_plus_of_nat_mod [OF capacityFrames_dvd] mod_add_left_eq add.assoc)
  then show "contents l' = drop count (contents l)"
    unfolding contents_def q by (auto intro!: nth_equalityI simp: l'_def)
qed

lemma length_concat_frames: "\<forall>f \<in> set fs. isFrame f \<Longrightarrow> length (concat fs) = length fs * kFrameSize"
  by (induction fs) (auto simp: isFrame_def)

lemma chunks_concat_frames: "\<forall>f \<in> set fs. isFrame f \<Longrightarrow> chunks kFrameSize (concat fs) = fs"
  by (rule chunks_concat) (auto simp: isFrame_def)

lemma concat_frames_empty: "\<forall>f \<in> set fs. isFrame f \<Longrightarrow> concat fs = [] \<longleftrightarrow> fs = []"
  by (cases fs) (auto simp: isFrame_def)

lemma ringFrames_frames: "f \<in> set (ringFrames r) \<Longrightarrow> isFrame f"
  by (auto simp: ringFrames_def contents_frames split: option.splits)

lemma ringInv_bounded: "ringInv r \<Longrightarrow> length (ringFrames r) \<le> capacityFrames"
  by (auto simp: ringInv_def layoutInv_def ringFrames_def)

lemma tryPushBatch_closed: "producerClosed r \<Longrightarrow> tryPushBatch bs r = (0, r)"
  by (simp add: tryPushBatch_def split: option.split)

lemma tryPushBatch_layout:
  assumes "m_layout r = Some l" and "queued l \<le> capacityFrames" and "\<not> producerClosed r"
    and "\<forall>f \<in> set fs. isFrame f"
  shows "tryPushBatch (concat fs) r =
    (let c = min (length fs) (capacityFrames - queued l)
     in if c = 0 then (0, r)
        else (c, r\<lparr>m_layout := Some (l\<lparr>slots := writeBatch (slots l) (head l) c (concat fs),
               head := head l + of_nat c\<rparr>)\<rparr>))"
  using assms concat_frames_empty [OF assms(4)] length_concat_frames [OF assms(4)]
  unfolding tryPushBatch_def queued_def by (cases "concat fs = []") (auto simp: Let_def min_def)

lemma tryPushBatch_open:
  assumes "ringInv r" and "\<not> producerClosed r" and "\<forall>f \<in> set fs. isFrame f"
    and "tryPushBatch (concat fs) r = (n, r')"
  shows "n = min (length fs) (capacityFrames - length (ringFrames r)) \<and>
    ringFrames r' = ringFrames r @ take n fs \<and> ringInv r' \<and> \<not> producerClosed r'"
proof -
  obtain l where l: "m_layout r = Some l" "queued l \<le> capacityFrames"
    using assms(1) by (auto simp: ringInv_def layoutInv_def)
  define c where "c = min (length fs) (capacityFrames - queued l)"
  have q: "ringFrames r = contents l" by (simp add: ringFrames_def l)
  note push = tryPushBatch_layout [OF l assms(2,3), unfolded assms(4), folded c_def]
  show ?thesis
  proof (cases "c = 0")
    case True
    with push assms(1,2) show ?thesis by (simp add: c_def q)
  next
    case False
    have fits: "queued l + c \<le> capacityFrames" "c * kFrameSize \<le> length (concat fs)"
      using l(2) assms(3) by (auto simp: c_def length_concat_frames)
    show ?thesis
      using push False l assms(2) contents_write [OF fits] fits(1) chunks_concat_frames [OF assms(3)]
      by (simp add: q c_def [symmetric] ringFrames_def ringInv_def layoutInv_def producerClosed_def)
  qed
qed

lemma tryPopBatch_spec:
  assumes "ringInv r" and "length buf = k * kFrameSize" and "tryPopBatch buf r = (n, buf', r')"
  shows "n = min k (length (ringFrames r)) \<and>
    buf' = concat (take n (ringFrames r)) @ drop (n * kFrameSize) buf \<and>
    ringFrames r' = drop n (ringFrames r) \<and> ringInv r' \<and> producerClosed r' = producerClosed r"
proof -
  obtain l where l: "m_layout r = Some l" "queued l \<le> capacityFrames"
    using assms(1) by (auto simp: ringInv_def layoutInv_def)
  define c where "c = min k (queued l)"
  have q: "ringFrames r = contents l" by (simp add: ringFrames_def l)
  show ?thesis
  proof (cases "c = 0")
    case True
    then have "n = 0 \<and> r' = r \<and> buf' = buf"
      using assms(2,3) l by (auto simp: tryPopBatch_def c_def queued_def [symmetric] Let_def split: if_splits)
    with True assms(1) show ?thesis by (simp add: c_def q)
  next
    case False
    then have "buf \<noteq> []" using assms(2) by (auto simp: c_def)
    with False have r': "n = c \<and> buf' = readBatch (slots l) (tail l) c buf \<and>
        r' = r\<lparr>m_layout := Some (l\<lparr>tail := tail l + of_nat c\<rparr>)\<rparr>"
      using assms(2,3) l by (auto simp: tryPopBatch_def c_def queued_def [symmetric] Let_def split: if_splits)
    have c: "c \<le> queued l" "c \<le> capacityFrames" "c * kFrameSize \<le> length buf"
      using l(2) assms(2) by (auto simp: c_def)
    have "concat (take c (contents l)) =
        concat (map (\<lambda>i. slot_at (slots l) ((unat (tail l) + i) mod capacityFrames)) [0..<c])"
      using c(1) by (simp add: contents_def take_map)
    then show ?thesis
      using r' l contents_read [OF c(1)] readBatch_eq [OF c(2,3)]
      by (simp add: q c_def [symmetric] ringFrames_def ringInv_def layoutInv_def producerClosed_def)
  qed
qed

lemma closeProducer_spec:
  "ringInv r \<Longrightarrow> ringInv (closeProducer r) \<and> ringFrames (closeProducer r) = ringFrames r \<and>
     producerClosed (closeProducer r)"
  by (auto simp: ringInv_def closeProducer_def ringFrames_def producerClosed_def layoutInv_def queued_def
      contents_def)

lemma create_spec:
  "create True newRing = (True, r) \<Longrightarrow> ringInv r \<and> ringFrames r = [] \<and> \<not> producerClosed r"
  by (auto simp: create_def newRing_def ringInv_def layoutInv_def ringFrames_def producerClosed_def
      emptyLayout_def queued_def contents_def)


section \<open>The queue interface\<close>

text \<open>
  What the server and the reader rely on: a bounded first-in first-out queue that is closed once.
  A producer hands over a list of items and learns how many were taken; a consumer asks for at
  most \<open>k\<close> items. \<open>qRun\<close> runs a sequence of such calls and collects what was accepted and
  what was delivered.
\<close>

datatype 'a qop = Enq "'a list" | Deq nat | Close

fun qRun ::
  "('a list \<Rightarrow> 'q \<Rightarrow> nat \<times> 'q) \<Rightarrow> (nat \<Rightarrow> 'q \<Rightarrow> 'a list \<times> 'q) \<Rightarrow> ('q \<Rightarrow> 'q) \<Rightarrow>
   'a qop list \<Rightarrow> 'q \<Rightarrow> 'a list \<times> 'a list \<times> 'q" where
  "qRun enq deq close [] q = ([], [], q)"
| "qRun enq deq close (Enq xs # ops) q =
     (case enq xs q of (n, q1) \<Rightarrow>
      case qRun enq deq close ops q1 of (acc, del, q2) \<Rightarrow> (take n xs @ acc, del, q2))"
| "qRun enq deq close (Deq k # ops) q =
     (case deq k q of (ys, q1) \<Rightarrow>
      case qRun enq deq close ops q1 of (acc, del, q2) \<Rightarrow> (acc, ys @ del, q2))"
| "qRun enq deq close (Close # ops) q = qRun enq deq close ops (close q)"

fun qopOk :: "('a \<Rightarrow> bool) \<Rightarrow> 'a qop \<Rightarrow> bool" where
  "qopOk ok (Enq xs) \<longleftrightarrow> list_all ok xs"
| "qopOk ok (Deq k) \<longleftrightarrow> True"
| "qopOk ok Close \<longleftrightarrow> True"

text \<open>
  A queue from the outside: what a history of calls means for a queue of a capacity, as the items
  accepted so far, how many of them are gone, and whether it is closed. The calls of two processes on
  one queue make up one history; \<open>unitOps\<close> counts what was taken item by item, so that histories
  that group it differently can be compared.
\<close>

fun histStep :: "nat \<Rightarrow> 'a list \<times> nat \<times> bool \<Rightarrow> 'a qop \<Rightarrow> 'a list \<times> nat \<times> bool" where
  "histStep cap (acc, gone, closed) (Enq xs) =
     (if closed then (acc, gone, closed) else (acc @ take (cap - (length acc - gone)) xs, gone, closed))"
| "histStep cap (acc, gone, closed) (Deq k) = (acc, min (length acc) (gone + k), closed)"
| "histStep cap (acc, gone, closed) Close = (acc, gone, True)"

definition history :: "nat \<Rightarrow> 'a qop list \<Rightarrow> 'a list \<times> nat \<times> bool" where
  "history cap ops = foldl (histStep cap) ([], 0, False) ops"

fun isPop :: "'a qop \<Rightarrow> bool" where
  "isPop (Deq k) \<longleftrightarrow> True"
| "isPop _ \<longleftrightarrow> False"

fun unitOp :: "'a qop \<Rightarrow> 'a qop list" where
  "unitOp (Deq k) = replicate k (Deq 1)"
| "unitOp op = [op]"

definition unitOps :: "'a qop list \<Rightarrow> 'a qop list" where
  "unitOps ops = concat (map unitOp ops)"

text \<open>
  Two views of one history: each is what the history was at the last call of that process. One
  view continues the other, with calls that only the other process makes: the pops are the
  consumer's, everything else is the producer's.
\<close>

definition sameHistory :: "'a qop list \<Rightarrow> 'a qop list \<Rightarrow> bool" where
  "sameHistory producer consumer \<longleftrightarrow>
     (\<exists>rest. consumer = producer @ rest \<and> list_all isPop rest) \<or>
     (\<exists>rest. producer = consumer @ rest \<and> list_all (\<lambda>op. \<not> isPop op) rest)"

lemma history_snoc: "history cap (ops @ ops') = foldl (histStep cap) (history cap ops) ops'"
  by (simp add: history_def)

lemma foldl_units:
  "gone \<le> length acc \<Longrightarrow> foldl (histStep cap) (acc, gone, closed) (replicate k (Deq 1)) = histStep cap (acc, gone, closed) (Deq k)"
proof (induction k arbitrary: gone)
  case (Suc k)
  from Suc.IH [of "min (length acc) (gone + 1)"] show ?case by (auto simp: min_def)
qed simp

lemma history_unitOps: "history cap (unitOps ops) = history cap ops"
proof -
  have "gone \<le> length acc \<Longrightarrow>
      foldl (histStep cap) (acc, gone, closed) (unitOps ops) = foldl (histStep cap) (acc, gone, closed) ops" for acc gone closed
  proof (induction ops arbitrary: acc gone closed)
    case (Cons op ops)
    show ?case
    proof (cases op)
      case (Deq k)
      have "foldl (histStep cap) (acc, gone, closed) (unitOps (op # ops)) =
          foldl (histStep cap) (foldl (histStep cap) (acc, gone, closed) (replicate k (Deq 1))) (unitOps ops)"
        by (simp add: unitOps_def Deq)
      with foldl_units [OF Cons.prems, of cap closed k] Cons.IH show ?thesis by (simp add: Deq)
    qed (use Cons in \<open>auto simp: unitOps_def\<close>)
  qed (simp add: unitOps_def)
  then show ?thesis by (simp add: history_def)
qed

lemma foldl_pops: "list_all isPop ops \<Longrightarrow> \<exists>gone'. foldl (histStep cap) (acc, gone, closed) ops = (acc, gone', closed)"
proof (induction ops arbitrary: gone)
  case (Cons op ops)
  then show ?case by (cases op) auto
qed simp

lemma foldl_closed: "\<exists>gone'. foldl (histStep cap) (acc, gone, True) ops = (acc, gone', True)"
proof (induction ops arbitrary: gone)
  case (Cons op ops)
  then show ?case by (cases op) auto
qed simp

text \<open>Processes that both have seen the end have seen the same items.\<close>

lemma sameHistory_agree:
  assumes "sameHistory (unitOps producer) (unitOps consumer)" and "history cap producer = (pub, g, True)"
    and "history cap consumer = (acc, g', True)"
  shows "acc = pub"
proof -
  have p: "history cap (unitOps producer) = (pub, g, True)" and c: "history cap (unitOps consumer) = (acc, g', True)"
    using assms(2,3) by (simp_all add: history_unitOps)
  from assms(1) consider (longer) rest where "unitOps consumer = unitOps producer @ rest" "list_all isPop rest"
    | (shorter) rest where "unitOps producer = unitOps consumer @ rest"
    unfolding sameHistory_def by blast
  then show ?thesis
  proof cases
    case longer
    with c p foldl_pops [OF longer(2), of cap pub g True] show ?thesis by (auto simp: history_snoc)
  next
    case shorter
    with c p foldl_closed [of cap acc g' rest] show ?thesis by (auto simp: history_snoc)
  qed
qed

locale spsc_queue =
  fixes invar :: "'q \<Rightarrow> bool" and items :: "'q \<Rightarrow> 'a list" and closed :: "'q \<Rightarrow> bool"
    and cap :: nat and item_ok :: "'a \<Rightarrow> bool"
    and enq :: "'a list \<Rightarrow> 'q \<Rightarrow> nat \<times> 'q" and deq :: "nat \<Rightarrow> 'q \<Rightarrow> 'a list \<times> 'q"
    and close :: "'q \<Rightarrow> 'q"
  assumes bounded: "invar q \<Longrightarrow> length (items q) \<le> cap"
    and enq_open: "invar q \<Longrightarrow> \<not> closed q \<Longrightarrow> list_all item_ok xs \<Longrightarrow> enq xs q = (n, q') \<Longrightarrow>
      n = min (length xs) (cap - length (items q)) \<and> items q' = items q @ take n xs \<and>
      invar q' \<and> \<not> closed q'"
    and enq_closed: "invar q \<Longrightarrow> closed q \<Longrightarrow> enq xs q = (0, q)"
    and deq_spec: "invar q \<Longrightarrow> deq k q = (ys, q') \<Longrightarrow>
      ys = take k (items q) \<and> items q' = drop k (items q) \<and> invar q' \<and> closed q' = closed q"
    and close_spec: "invar q \<Longrightarrow> invar (close q) \<and> items (close q) = items q \<and> closed (close q)"
begin

lemma enq_step:
  assumes "invar q" and "list_all item_ok xs" and "enq xs q = (n, q')"
  shows "items q' = items q @ take n xs" and "invar q'" and "closed q' = closed q"
  using assms(1,3) enq_open [OF assms(1) _ assms(2,3)] enq_closed [OF assms(1), of xs]
  by (cases "closed q"; simp)+

text \<open>Conservation: what goes in comes out, once and in order, or is still queued.\<close>

lemma fifo:
  "invar q \<Longrightarrow> list_all (qopOk item_ok) ops \<Longrightarrow> qRun enq deq close ops q = (acc, del, q') \<Longrightarrow>
   items q @ acc = del @ items q' \<and> invar q'"
proof (induction ops arbitrary: q acc del)
  case (Cons op ops)
  show ?case
  proof (cases op)
    case (Enq xs)
    with Cons.prems obtain n q1 acc1 where
      step: "enq xs q = (n, q1)" "qRun enq deq close ops q1 = (acc1, del, q')" "acc = take n xs @ acc1"
      by (auto split: prod.splits)
    with Cons.prems Enq enq_step [of q xs n q1] Cons.IH [of q1 acc1 del] show ?thesis by auto
  next
    case (Deq k)
    with Cons.prems obtain ys q1 del1 where
      step: "deq k q = (ys, q1)" "qRun enq deq close ops q1 = (acc, del1, q')" "del = ys @ del1"
      by (auto split: prod.splits)
    with Cons.prems deq_spec [of q k ys q1] have "items q = ys @ items q1" "invar q1" by simp_all
    with Cons.prems Cons.IH [of q1 acc del1] step show ?thesis by simp
  next
    case Close
    with Cons.prems close_spec [of q] Cons.IH [of "close q" acc del] show ?thesis by simp
  qed
qed simp

text \<open>The history of the calls tells what was accepted, how much is queued and whether it is closed.\<close>

lemma fifo_history:
  "invar q \<Longrightarrow> list_all (qopOk item_ok) ops \<Longrightarrow> qRun enq deq close ops q = (acc, del, q') \<Longrightarrow>
   length (items q) \<le> length sofar \<Longrightarrow>
   foldl (histStep cap) (sofar, length sofar - length (items q), closed q) ops =
     (sofar @ acc, length (sofar @ acc) - length (items q'), closed q') \<and> length (items q') \<le> length (sofar @ acc)"
proof (induction ops arbitrary: q acc del sofar)
  case (Cons op ops)
  show ?case
  proof (cases op)
    case (Enq xs)
    with Cons.prems obtain n q1 acc1 where
      step: "enq xs q = (n, q1)" "qRun enq deq close ops q1 = (acc1, del, q')" "acc = take n xs @ acc1"
      by (auto split: prod.splits)
    have ok: "list_all item_ok xs" using Cons.prems(2) Enq by simp
    note e = enq_step [OF Cons.prems(1) ok step(1)]
    have n: "take n xs = (if closed q then [] else take (cap - length (items q)) xs)"
      using enq_open [OF Cons.prems(1) _ ok step(1)] enq_closed [OF Cons.prems(1), of xs] step(1)
      by (cases "closed q") (auto simp: min_def)
    have len: "length (items q1) \<le> length (sofar @ take n xs)" using e(1) Cons.prems(4) by simp
    have "length (sofar @ take n xs) - length (items q1) = length sofar - length (items q)"
      using e(1) Cons.prems(4) by simp
    with Cons.IH [OF e(2) _ step(2) len] Cons.prems(2,4) Enq e(3) n step(3) show ?thesis by (auto simp: min_def)
  next
    case (Deq k)
    with Cons.prems obtain ys q1 del1 where
      step: "deq k q = (ys, q1)" "qRun enq deq close ops q1 = (acc, del1, q')"
      by (auto split: prod.splits)
    from deq_spec [OF Cons.prems(1) step(1)] have d: "items q1 = drop k (items q)" "invar q1" "closed q1 = closed q" by simp_all
    have "min (length sofar) (length sofar - length (items q) + k) = length sofar - length (items q1)"
      using d(1) Cons.prems(4) by (simp add: min_def)
    with Cons.IH [OF d(2) _ step(2), of sofar] Cons.prems(2,4) Deq d(1,3) show ?thesis by simp
  next
    case Close
    with Cons.prems close_spec [of q] Cons.IH [of "close q" acc del sofar] show ?thesis by simp
  qed
qed simp

text \<open>Once closed, nothing more is accepted, so draining \<open>cap\<close> items empties the queue for good.\<close>

lemma closed_accepts_nothing:
  "invar q \<Longrightarrow> closed q \<Longrightarrow> list_all (qopOk item_ok) ops \<Longrightarrow>
   qRun enq deq close ops q = (acc, del, q') \<Longrightarrow> acc = [] \<and> closed q'"
proof (induction ops arbitrary: q acc del)
  case (Cons op ops)
  show ?case
  proof (cases op)
    case (Enq xs)
    with Cons.prems have "qRun enq deq close ops q = (acc, del, q')"
      by (simp add: enq_closed split: prod.splits)
    with Cons.prems Cons.IH [of q acc del] show ?thesis by simp
  next
    case (Deq k)
    with Cons.prems obtain ys q1 del1 where
      step: "deq k q = (ys, q1)" "qRun enq deq close ops q1 = (acc, del1, q')"
      by (auto split: prod.splits)
    with Cons.prems deq_spec [OF _ step(1)] Cons.IH [of q1 acc del1] show ?thesis by simp
  next
    case Close
    with Cons.prems close_spec [of q] Cons.IH [of "close q" acc del] show ?thesis by simp
  qed
qed simp

lemma drained_after_close:
  assumes "invar q" and "closed q" and "deq cap q = (ys, q')"
  shows "ys = items q" and "items q' = []"
  using deq_spec [OF assms(1,3)] bounded [OF assms(1)] by auto

end

text \<open>Frames in and out of the ring, over the batch calls.\<close>

definition pushFrames :: "bytes list \<Rightarrow> sharedRing \<Rightarrow> nat \<times> sharedRing" where
  "pushFrames fs r = tryPushBatch (concat fs) r"

definition popFrames :: "nat \<Rightarrow> sharedRing \<Rightarrow> bytes list \<times> sharedRing" where
  "popFrames k r =
     (case tryPopBatch (replicate (k * kFrameSize) 0) r of
        (n, buf, r') \<Rightarrow> (chunks kFrameSize (take (n * kFrameSize) buf), r'))"

lemma popFrames_spec:
  assumes "ringInv r" and "popFrames k r = (ys, r')"
  shows "ys = take k (ringFrames r) \<and> ringFrames r' = drop k (ringFrames r) \<and> ringInv r' \<and>
    producerClosed r' = producerClosed r"
proof -
  obtain n buf where pop: "tryPopBatch (replicate (k * kFrameSize) 0) r = (n, buf, r')"
    and ys: "ys = chunks kFrameSize (take (n * kFrameSize) buf)"
    using assms(2) by (auto simp: popFrames_def split: prod.splits)
  note p = tryPopBatch_spec [OF assms(1) _ pop, of k, simplified]
  have fr: "\<forall>f \<in> set (take n (ringFrames r)). isFrame f"
    using ringFrames_frames in_set_takeD by fastforce
  have "n \<le> length (ringFrames r)" using p by simp
  then have "take (n * kFrameSize) buf = concat (take n (ringFrames r))"
    using p length_concat_frames [OF fr] by simp
  with ys have "ys = take n (ringFrames r)" by (simp add: chunks_concat_frames [OF fr])
  with p show ?thesis by (auto simp: min_def)
qed

interpretation ring: spsc_queue ringInv ringFrames producerClosed capacityFrames isFrame
  pushFrames popFrames closeProducer
proof unfold_locales
  fix xs n q' and q :: sharedRing
  assume "ringInv q" "\<not> producerClosed q" "list_all isFrame xs" "pushFrames xs q = (n, q')"
  then show "n = min (length xs) (capacityFrames - length (ringFrames q)) \<and>
      ringFrames q' = ringFrames q @ take n xs \<and> ringInv q' \<and> \<not> producerClosed q'"
    unfolding pushFrames_def list_all_iff by (rule tryPushBatch_open)
next
  fix xs and q :: sharedRing
  assume "producerClosed q"
  then show "pushFrames xs q = (0, q)" by (simp add: pushFrames_def tryPushBatch_closed)
qed (use ringInv_bounded popFrames_spec closeProducer_spec in blast)+

text \<open>The history of a ring that is as it is.\<close>

definition ringHistory :: "sharedRing \<Rightarrow> bytes qop list" where
  "ringHistory ring = Enq (ringFrames ring) # (if producerClosed ring then [Close] else [])"

lemma ringHistory_history:
  "ringInv ring \<Longrightarrow> history capacityFrames (ringHistory ring) = (ringFrames ring, 0, producerClosed ring)"
  using ringInv_bounded [of ring] by (simp add: history_def ringHistory_def)


section \<open>Batches against single transfers\<close>

lemma memcpy_in_outside: "dst + length src \<le> a \<Longrightarrow> memcpy_in mem dst src a = mem a"
  by (simp add: memcpy_in_def)

lemma writeBatch_outside:
  assumes "count \<le> capacityFrames" and "capacityFrames * kFrameSize \<le> a"
  shows "writeBatch mem h count frames a = mem a"
proof -
  define index where "index = unat h mod capacityFrames"
  define first where "first = min count (capacityFrames - index)"
  have "index < capacityFrames" by (simp add: index_def)
  then have "index + first \<le> capacityFrames" by (auto simp: first_def)
  then have "(index + first) * kFrameSize \<le> a" using assms(2) by (meson le_trans mult_le_mono1)
  moreover have "(count - first) * kFrameSize \<le> a"
    using assms by (meson le_trans mult_le_mono1 diff_le_self)
  moreover have "length (take n xs) \<le> n" for n and xs :: bytes by simp
  ultimately have
    "index * kFrameSize + length (take (first * kFrameSize) frames) \<le> a"
    "0 + length (take ((count - first) * kFrameSize) (drop (first * kFrameSize) frames)) \<le> a"
    by (auto simp: add_mult_distrib min_def not_le)
  note e = memcpy_in_outside [OF this(1)] memcpy_in_outside [OF this(2)]
  show ?thesis
    unfolding writeBatch_def Let_def index_def [symmetric] first_def [symmetric]
    using e(1) [of mem] e(2) [of "memcpy_in mem (index * kFrameSize) (take (first * kFrameSize) frames)"]
    by (cases "first = count") simp_all
qed

lemma memory_ext:
  assumes "\<And>j. j < capacityFrames \<Longrightarrow> slot_at m j = slot_at m' j"
    and "\<And>a. capacityFrames * kFrameSize \<le> a \<Longrightarrow> m a = m' a"
  shows "m = m'"
proof
  fix a
  show "m a = m' a"
  proof (cases "a < capacityFrames * kFrameSize")
    case True
    then have "slot_at m (a div kFrameSize) = slot_at m' (a div kFrameSize)"
      by (intro assms(1)) (simp add: less_mult_imp_div_less)
    then have "slot_at m (a div kFrameSize) ! (a mod kFrameSize) = slot_at m' (a div kFrameSize) ! (a mod kFrameSize)"
      by simp
    moreover have "[a div kFrameSize * kFrameSize..<a div kFrameSize * kFrameSize + kFrameSize] ! (a mod kFrameSize) = a"
      using dividend_less_div_times [of kFrameSize a] by (subst nth_upt) (simp_all add: add.commute)
    then have "slot_at mm (a div kFrameSize) ! (a mod kFrameSize) = mm a" for mm
      by (simp add: slot_at_def memcpy_out_def)
    ultimately show ?thesis by simp
  qed (use assms(2) in simp)
qed

lemma ringDist_lt: "index < capacityFrames \<Longrightarrow> j < capacityFrames \<Longrightarrow> ringDist index j < capacityFrames"
  by (auto simp: ringDist_def)

lemma ringDist_shift:
  assumes "index < capacityFrames" and "j < capacityFrames" and "a \<le> capacityFrames"
  shows "ringDist ((index + a) mod capacityFrames) j =
    (if a \<le> ringDist index j then ringDist index j - a else ringDist index j + capacityFrames - a)"
proof (cases "index + a < capacityFrames")
  case True
  with assms show ?thesis by (auto simp: ringDist_def)
next
  case False
  with assms have "index + a < 2 * capacityFrames" by simp
  with False have "(index + a) mod capacityFrames = index + a - capacityFrames"
    by (simp add: mod_if)
  with False assms show ?thesis by (auto simp: ringDist_def)
qed

lemma writeBatch_append:
  assumes "length xs = a * kFrameSize" and "b * kFrameSize \<le> length ys" and "a + b \<le> capacityFrames"
  shows "writeBatch mem h (a + b) (xs @ ys) = writeBatch (writeBatch mem h a xs) (h + of_nat a) b ys"
proof (rule memory_ext)
  fix j assume j: "j < capacityFrames"
  let ?i = "unat h mod capacityFrames"
  have shift: "unat (h + of_nat a) mod capacityFrames = (?i + a) mod capacityFrames"
    by (simp add: unat_plus_of_nat_mod [OF capacityFrames_dvd] mod_add_left_eq)
  have ch: "chunks kFrameSize (xs @ ys) = chunks kFrameSize xs @ chunks kFrameSize ys"
    using assms(1) by (intro chunks_append_dvd) simp_all
  have la: "length (chunks kFrameSize xs) = a" using assms(1) by (simp add: length_chunks)
  have "slot_at (writeBatch mem h (a + b) (xs @ ys)) j =
      (let d = ringDist ?i j in if d < a + b then chunks kFrameSize (xs @ ys) ! d else slot_at mem j)"
    using j assms by (intro slot_at_writeBatch) (auto simp: add_mult_distrib)
  moreover have "slot_at (writeBatch (writeBatch mem h a xs) (h + of_nat a) b ys) j =
      (let d = ringDist ((?i + a) mod capacityFrames) j
       in if d < b then chunks kFrameSize ys ! d else slot_at (writeBatch mem h a xs) j)"
    unfolding shift [symmetric] using j assms by (intro slot_at_writeBatch) auto
  moreover have "slot_at (writeBatch mem h a xs) j =
      (let d = ringDist ?i j in if d < a then chunks kFrameSize xs ! d else slot_at mem j)"
    using j assms by (intro slot_at_writeBatch) auto
  ultimately show "slot_at (writeBatch mem h (a + b) (xs @ ys)) j =
      slot_at (writeBatch (writeBatch mem h a xs) (h + of_nat a) b ys) j"
    using ringDist_shift [of ?i j a] ringDist_lt [of ?i j] j assms(3)
    by (auto simp: Let_def ch nth_append la)
qed (use assms(3) in \<open>simp add: writeBatch_outside\<close>)

lemma writeBatch_0 [simp]: "writeBatch mem h 0 frames = mem"
  by (auto simp: writeBatch_def memcpy_in_def fun_eq_iff Let_def)

lemma writeBatch_1:
  assumes "isFrame f"
  shows "writeBatch mem h (Suc 0) f = memcpy_in mem (unat h mod capacityFrames * kFrameSize) f"
proof -
  have "unat h mod capacityFrames < capacityFrames" by simp
  then have "min (Suc 0) (capacityFrames - unat h mod capacityFrames) = Suc 0" by linarith
  with assms show ?thesis by (simp add: writeBatch_def isFrame_def Let_def)
qed

text \<open>Pushing one frame after the other until the first refusal.\<close>

fun pushEach :: "bytes list \<Rightarrow> sharedRing \<Rightarrow> nat \<times> sharedRing" where
  "pushEach [] r = (0, r)"
| "pushEach (f # fs) r =
     (case tryPush f r of
        (False, r') \<Rightarrow> (0, r')
      | (True, r') \<Rightarrow> (case pushEach fs r' of (n, r'') \<Rightarrow> (Suc n, r'')))"


lemma tryPush_layout:
  assumes "m_layout r = Some l" and "\<not> producerClosed r" and "isFrame f"
  shows "tryPush f r =
    (if capacityFrames \<le> queued l then (False, r)
     else (True, r\<lparr>m_layout := Some (l\<lparr>slots := writeBatch (slots l) (head l) 1 f,
             head := head l + of_nat 1\<rparr>)\<rparr>))"
  using assms by (simp add: tryPush_def writeBatch_1 queued_def isFrame_def Let_def)

lemma pushEach_eq_tryPushBatch:
  "ringInv r \<Longrightarrow> \<not> producerClosed r \<Longrightarrow> \<forall>f \<in> set fs. isFrame f \<Longrightarrow>
   pushEach fs r = tryPushBatch (concat fs) r"
proof (induction fs arbitrary: r)
  case Nil
  then show ?case by (auto simp: tryPushBatch_def ringInv_def)
next
  case (Cons f fs)
  then obtain l where l: "m_layout r = Some l" "queued l \<le> capacityFrames"
    by (auto simp: ringInv_def layoutInv_def)
  note single = tryPush_layout [OF l(1) Cons.prems(2), of f]
    and batch = tryPushBatch_layout [OF l Cons.prems(2,3)]
  show ?case
  proof (cases "queued l = capacityFrames")
    case True
    then show ?thesis using single batch Cons.prems by simp
  next
    case False
    define l1 where "l1 = l\<lparr>slots := writeBatch (slots l) (head l) 1 f, head := head l + of_nat 1\<rparr>"
    define r1 where "r1 = r\<lparr>m_layout := Some l1\<rparr>"
    define c where "c = min (length fs) (capacityFrames - queued l1)"
    have q: "queued l1 = queued l + 1"
      unfolding l1_def using contents_write(2) [of l 1 f] False l(2) Cons.prems(3) by (simp add: isFrame_def)
    then have inv1: "ringInv r1" "\<not> producerClosed r1" "queued l1 \<le> capacityFrames"
      using False l Cons.prems(2) by (auto simp: ringInv_def layoutInv_def r1_def producerClosed_def l1_def)
    have c1: "min (length (f # fs)) (capacityFrames - queued l) = 1 + c"
      using False l(2) q by (auto simp: c_def)
    have w: "writeBatch (slots l) (head l) (1 + c) (concat (f # fs)) =
        writeBatch (slots l1) (head l1) c (concat fs)"
      using writeBatch_append [of f 1 c "concat fs" "slots l" "head l"] Cons.prems(3) False l(2) q
      by (simp add: l1_def isFrame_def c_def length_concat_frames)
    have "m_layout r1 = Some l1" by (simp add: r1_def)
    note rest = tryPushBatch_layout [OF this inv1(3,2), of fs, folded c_def]
    have "tryPushBatch (concat (f # fs)) r = (1 + c, r\<lparr>m_layout := Some
        (l1\<lparr>slots := writeBatch (slots l1) (head l1) c (concat fs), head := head l1 + of_nat c\<rparr>)\<rparr>)"
      unfolding batch c1 w Let_def by (simp add: l1_def algebra_simps)
    moreover have "pushEach (f # fs) r = (case tryPushBatch (concat fs) r1 of (n, r'') \<Rightarrow> (Suc n, r''))"
      using single Cons.IH [OF inv1(1,2)] Cons.prems(3) False l(2) by (simp add: r1_def l1_def)
    ultimately show ?thesis using rest Cons.prems(3) by (auto simp: Let_def r1_def)
  qed
qed


section \<open>Properties\<close>

text \<open>C4: the ring is a first-in first-out queue. For any sequence of batch pushes of whole frames,
  batch pops and a close, from any well-formed ring and across the wrap-around of the slot index
  and of the 64-bit counters: the frames queued before followed by the frames accepted are the
  frames delivered followed by the frames still queued; nothing is lost, duplicated, altered or
  reordered.\<close>

theorem ring_fifo:
  assumes "ringInv r" and "list_all (qopOk isFrame) ops"
    and "qRun pushFrames popFrames closeProducer ops r = (accepted, delivered, r')"
  shows "ringFrames r @ accepted = delivered @ ringFrames r' \<and> ringInv r'"
  using assms by (rule ring.fifo)

lemma created_ring: "create True newRing = (True, newRing\<lparr>m_layout := Some emptyLayout, m_mappingSize := sizeofLayout\<rparr>)"
  by (simp add: create_def newRing_def)

abbreviation emptyRing :: sharedRing where
  "emptyRing \<equiv> newRing\<lparr>m_layout := Some emptyLayout, m_mappingSize := sizeofLayout\<rparr>"

lemmas emptyRing_facts = create_spec [OF created_ring]

theorem ring_fifo_witness:
  "let f = encode emptyRecord in
   \<exists>accepted delivered r'.
     qRun pushFrames popFrames closeProducer [Enq [f, f], Deq 1, Close, Deq 5] emptyRing =
       (accepted, delivered, r') \<and> ringFrames emptyRing @ accepted = delivered @ ringFrames r' \<and> ringInv r'"
proof -
  let ?f = "encode emptyRecord"
  obtain a d r' where run: "qRun pushFrames popFrames closeProducer [Enq [?f, ?f], Deq 1, Close, Deq 5] emptyRing =
      (a, d, r')" by (metis prod_cases3)
  have "list_all (qopOk isFrame) [Enq [?f, ?f], Deq 1, Close, Deq 5]" by (simp add: isFrame_def)
  with ring_fifo [OF _ _ run] emptyRing_facts run show ?thesis by (auto simp: Let_def)
qed

text \<open>C23: the batch push is the single push repeated: on an open well-formed ring, one
  \<open>tryPushBatch\<close> of any frames returns the same count and leaves exactly the same shared memory
  (counters, flag and every byte of the slots) as calling \<open>tryPush\<close> frame by frame until it
  refuses.\<close>

theorem tryPushBatch_is_repeated_tryPush:
  assumes "ringInv r" and "\<not> producerClosed r" and "\<forall>f \<in> set fs. isFrame f"
  shows "tryPushBatch (concat fs) r = pushEach fs r"
  using pushEach_eq_tryPushBatch [OF assms] by simp

theorem tryPushBatch_is_repeated_tryPush_witness:
  "tryPushBatch (concat [encode emptyRecord, encode emptyRecord]) emptyRing =
     pushEach [encode emptyRecord, encode emptyRecord] emptyRing"
  using tryPushBatch_is_repeated_tryPush [of emptyRing "[encode emptyRecord, encode emptyRecord]"]
    emptyRing_facts by (simp add: isFrame_def)

text \<open>C22: functional behaviour and bound of a batch push on an open ring: it accepts as many whole
  frames as there is room for, appends exactly that prefix, never holds more than the capacity,
  and never writes a byte outside the slot array.\<close>

theorem tryPushBatch_bounded:
  assumes "ringInv r" and "\<not> producerClosed r" and "\<forall>f \<in> set fs. isFrame f"
    and "tryPushBatch (concat fs) r = (n, r')"
  shows "n = min (length fs) (capacityFrames - pendingFrames r) \<and>
    ringFrames r' = ringFrames r @ take n fs \<and>
    pendingBytes r' = pendingBytes r + n * kFrameSize \<and> pendingBytes r' \<le> capacityBytes \<and>
    (\<forall>a. capacityBytes \<le> a \<longrightarrow>
       map_option (\<lambda>l. slots l a) (m_layout r') = map_option (\<lambda>l. slots l a) (m_layout r))"
proof -
  note p = tryPushBatch_open [OF assms]
  obtain l where l: "m_layout r = Some l" "queued l \<le> capacityFrames"
    using assms(1) by (auto simp: ringInv_def layoutInv_def)
  have cap: "capacityFrames * kFrameSize = capacityBytes"
    by (simp add: capacityFrames_def capacityBytes_def kFrameSize_def)
  have outside: "map_option (\<lambda>l. slots l a) (m_layout r') = map_option (\<lambda>l. slots l a) (m_layout r)"
    if "capacityBytes \<le> a" for a
    using tryPushBatch_layout [OF l assms(2,3)] assms(4) that l
    by (auto simp: Let_def writeBatch_outside cap split: if_splits)
  have "pendingBytes r' = pendingBytes r + n * kFrameSize"
    using p by (simp add: pendingBytes_def pendingFrames_eq add_mult_distrib)
  moreover have "pendingBytes r' \<le> capacityBytes"
    unfolding cap [symmetric] pendingBytes_def pendingFrames_eq
    using p ringInv_bounded by (intro mult_le_mono1) blast
  ultimately show ?thesis using p outside by (simp add: pendingFrames_eq)
qed

theorem tryPushBatch_bounded_witness:
  "\<exists>r'. tryPushBatch (concat [encode emptyRecord]) emptyRing = (1, r') \<and>
     ringFrames r' = [encode emptyRecord] \<and> pendingBytes r' = 32"
proof -
  obtain n r' where push: "tryPushBatch (concat [encode emptyRecord]) emptyRing = (n, r')" by fastforce
  have "capacityFrames - pendingFrames emptyRing = capacityFrames" "pendingBytes emptyRing = 0"
    using emptyRing_facts by (simp_all add: pendingBytes_def pendingFrames_eq)
  moreover have "1 \<le> capacityFrames" by (simp add: ring_defs)
  ultimately show ?thesis
    using tryPushBatch_bounded [OF _ _ _ push] emptyRing_facts push by (simp add: isFrame_def kFrameSize_def)
qed

text \<open>C24: a batch pop copies out exactly the oldest frames, as many as are queued and fit the
  buffer, leaves the rest of the buffer and of the queue alone, and works on a closed ring, so
  that frames queued before the close stay available.\<close>

theorem tryPopBatch_oldest:
  assumes "ringInv r" and "length buf = k * kFrameSize" and "tryPopBatch buf r = (n, buf', r')"
  shows "n = min k (pendingFrames r) \<and>
    buf' = concat (take n (ringFrames r)) @ drop (n * kFrameSize) buf \<and> length buf' = length buf \<and>
    ringFrames r' = drop n (ringFrames r) \<and> ringInv r' \<and> producerClosed r' = producerClosed r"
proof -
  note p = tryPopBatch_spec [OF assms]
  have fr: "\<forall>f \<in> set (take n (ringFrames r)). isFrame f"
    using ringFrames_frames in_set_takeD by fastforce
  have "n * kFrameSize \<le> length buf" unfolding assms(2) using p by (intro mult_le_mono1) simp
  moreover have "length (concat (take n (ringFrames r))) = n * kFrameSize"
    using p length_concat_frames [OF fr] by simp
  ultimately show ?thesis using p by (simp add: pendingFrames_eq)
qed

theorem tryPopBatch_oldest_witness:
  "\<exists>buf' r'. tryPopBatch (replicate 64 7) emptyRing = (0, buf', r') \<and> buf' = replicate 64 7"
proof -
  obtain n buf' r' where pop: "tryPopBatch (replicate 64 7) emptyRing = (n, buf', r')" by (metis prod_cases3)
  have "length (replicate 64 (7::byte)) = 2 * kFrameSize" by (simp add: kFrameSize_def)
  with tryPopBatch_oldest [OF _ _ pop, of 2] emptyRing_facts pop show ?thesis
    by (simp add: pendingFrames_eq)
qed

end
