(* ===== verification/EventFd.thy ===== *)
theory EventFd
  imports Prelude
begin

text \<open>
  The notification helpers of \<open>Ipc/src/EventFd.cpp\<close>. Each is a loop around one system call
  that is repeated while it is interrupted. The answers of the successive \<open>eventfd_write\<close> or
  \<open>eventfd_read\<close> calls are the script; \<open>None\<close> means that the call is still blocked.
\<close>

fun notifyEvent :: "unit sysret list \<Rightarrow> (bool \<times> unit sysret list) option" where
  "notifyEvent [] = None"
| "notifyEvent (r # script) =
     (case r of
        Ret _ \<Rightarrow> Some (True, script)
      | Fail e \<Rightarrow> if e = EINTR then notifyEvent script else Some (False, script))"

fun consumeEvent :: "u64 sysret list \<Rightarrow> (bool \<times> u64 sysret list) option" where
  "consumeEvent [] = None"
| "consumeEvent (r # script) =
     (case r of
        Ret _ \<Rightarrow> Some (True, script)
      | Fail e \<Rightarrow> if e = EINTR then consumeEvent script else Some (False, script))"


section \<open>The contract of a retried call\<close>

text \<open>
  Every retry loop of the sources keeps the same contract with its caller, whatever the call is:
  an interruption is never reported, and the first other answer decides.
\<close>

locale eintr_retry =
  fixes call :: "'a sysret list \<Rightarrow> (bool \<times> 'a sysret list) option"
  assumes blocked: "call [] = None"
    and completed: "call (Ret v # s) = Some (True, s)"
    and retried: "call (Fail EINTR # s) = call s"
    and reported: "e \<noteq> EINTR \<Longrightarrow> call (Fail e # s) = Some (False, s)"
begin

lemma call_settle:
  "call s = map_option (\<lambda>(r, rest). (case r of Ret _ \<Rightarrow> True | Fail _ \<Rightarrow> False, rest)) (settle s)"
proof (induction s)
  case (Cons r s)
  then show ?case
    by (cases r; cases "r = Fail EINTR") (auto simp: completed retried reported)
qed (simp add: blocked)

lemma returns_iff: "(\<exists>x. call s = Some x) \<longleftrightarrow> (\<exists>r \<in> set s. \<not> interrupted r)"
  unfolding settle_Some_iff [symmetric] by (auto simp: call_settle)

lemma interruptions_invisible: "\<forall>r \<in> set pre. interrupted r \<Longrightarrow> call (pre @ s) = call s"
  by (induction pre) (auto simp: interrupted_def retried)

lemma consumes: "call s = Some (b, s') \<Longrightarrow> length s' < length s"
proof (induction s)
  case (Cons r s)
  then show ?case
    by (cases r; cases "r = Fail EINTR") (auto simp: completed retried reported)
qed (simp add: blocked)

lemma supplied: "enough n P s \<Longrightarrow> 0 < n \<Longrightarrow> \<exists>rest. call s = Some (True, rest) \<and> enough (n - 1) P rest"
proof (induction s)
  case (Cons r s)
  then show ?case by (cases r) (auto simp: completed retried)
qed simp

end

interpretation notify: eintr_retry notifyEvent
  by unfold_locales simp_all

interpretation consume: eintr_retry consumeEvent
  by unfold_locales simp_all

text \<open>\<open>notifyEvent\<close> and \<open>consumeEvent\<close> return exactly when the kernel eventually gives an
  answer other than an interruption, and what they report is decided by the first such answer
  alone, however often the call was interrupted before.\<close>

theorem eventfd_retry:
  "notifyEvent s = map_option (\<lambda>(r, rest). (case r of Ret _ \<Rightarrow> True | Fail _ \<Rightarrow> False, rest)) (settle s)
   \<and> consumeEvent t = map_option (\<lambda>(r, rest). (case r of Ret _ \<Rightarrow> True | Fail _ \<Rightarrow> False, rest)) (settle t)
   \<and> ((\<exists>x. notifyEvent s = Some x) \<longleftrightarrow> (\<exists>r \<in> set s. \<not> interrupted r))
   \<and> ((\<exists>x. consumeEvent t = Some x) \<longleftrightarrow> (\<exists>r \<in> set t. \<not> interrupted r))"
  using notify.call_settle consume.call_settle notify.returns_iff consume.returns_iff by blast

end
