(* ===== verification/FileStore.thy ===== *)
theory FileStore
  imports Codec EventFd
begin

text \<open>
  The rotating store of \<open>Storage/\<close>. \<open>fileStore\<close> has the members of the C++ class;
  \<open>storage\<close> adds the interaction with the kernel: \<open>answers\<close> holds, for each system call,
  the answers that the coming calls give, and \<open>calls\<close> lists the calls that succeeded, in order
  and with their arguments. An operation returns \<open>None\<close> when a call has no answer, and for an
  append that would read past its argument, which is undefined in C++. A \<open>write\<close> of \<open>n\<close> bytes
  answered \<open>Ret w\<close> accepts \<open>min w n\<close> bytes: the kernel never reports more than was asked.
  Byte counts are natural numbers, with unsigned subtraction written out by \<open>sub64\<close>.
\<close>

section \<open>Data\<close>

record fileStoreConfig =
  cfgMaxSegmentBytes :: nat
  cfgSyncEveryBytes :: nat

definition defaultMaxSegmentBytes :: nat where "defaultMaxSegmentBytes = 64 * 1024 * 1024"
definition defaultSyncEveryBytes :: nat where "defaultSyncEveryBytes = 1 * 1024 * 1024"

record fileStore =
  m_config :: fileStoreConfig
  m_fd :: int
  m_directoryFd :: int
  m_directoryPath :: string
  m_fileName :: string
  m_currentSize :: nat
  m_unsyncedBytes :: nat
  m_rotationSequence :: nat

text \<open>Successful system calls. \<open>Fstat n\<close> reports the size \<open>n\<close> of the active file.\<close>

datatype fsCall =
    OpenDirectory string
  | CreateFile string
  | OpenExisting string
  | Fstat nat
  | Ftruncate nat
  | Wrote bytes
  | Fdatasync
  | FsyncDirectory
  | Rename string string
  | CloseFile

record storageAnswers =
  a_open :: "nat sysret list"
  a_openat :: "nat sysret list"
  a_fstat :: "(bool \<times> int) sysret list"
  a_ftruncate :: "unit sysret list"
  a_write :: "nat sysret list"
  a_fdatasync :: "unit sysret list"
  a_fsync :: "unit sysret list"
  a_renameat :: "unit sysret list"
  a_clock :: "(int \<times> int) sysret list"
  a_close :: "unit sysret list"

record storage = fileStore +
  answers :: storageAnswers
  calls :: "fsCall list"

definition newStore :: "fileStoreConfig \<Rightarrow> storageAnswers \<Rightarrow> storage" where
  "newStore config env =
     \<lparr>m_config = config, m_fd = -1, m_directoryFd = -1, m_directoryPath = [], m_fileName = [],
      m_currentSize = 0, m_unsyncedBytes = 0, m_rotationSequence = 0, answers = env, calls = []\<rparr>"

text \<open>The descriptors that the destructor closes.\<close>

definition destroyStore :: "storage \<Rightarrow> int list" where
  "destroyStore s =
     (if m_fd s \<noteq> -1 then [m_fd s] else []) @ (if m_directoryFd s \<noteq> -1 then [m_directoryFd s] else [])"

definition logCall :: "fsCall \<Rightarrow> storage \<Rightarrow> storage" where
  "logCall c s = s\<lparr>calls := calls s @ [c]\<rparr>"

text \<open>The next answer of a call.\<close>

fun nextAnswer :: "'a list \<Rightarrow> ('a \<times> 'a list) option" where
  "nextAnswer [] = None"
| "nextAnswer (r # rest) = Some (r, rest)"


section \<open>Retry loops\<close>

fun fdatasyncLoop :: "unit sysret list \<Rightarrow> (bool \<times> unit sysret list) option" where
  "fdatasyncLoop [] = None"
| "fdatasyncLoop (Ret _ # script) = Some (True, script)"
| "fdatasyncLoop (Fail e # script) = (if e = EINTR then fdatasyncLoop script else Some (False, script))"

fun fsyncLoop :: "unit sysret list \<Rightarrow> (bool \<times> unit sysret list) option" where
  "fsyncLoop [] = None"
| "fsyncLoop (Ret _ # script) = Some (True, script)"
| "fsyncLoop (Fail e # script) = (if e = EINTR then fsyncLoop script else Some (False, script))"

interpretation fdatasync: eintr_retry fdatasyncLoop
  by unfold_locales simp_all

interpretation fsync: eintr_retry fsyncLoop
  by unfold_locales simp_all

text \<open>
  The inner loop of \<open>appendFrames\<close>: \<open>todo\<close> is the part of the chunk that is not written yet.
  The result has the verdict, the answers left and the pieces that the kernel accepted.
\<close>

fun writeLoop :: "nat sysret list \<Rightarrow> bytes \<Rightarrow> (bool \<times> nat sysret list \<times> bytes list) option" where
  "writeLoop [] todo = (if todo = [] then Some (True, [], []) else None)"
| "writeLoop (r # script) todo =
     (if todo = [] then Some (True, r # script, [])
      else case r of
        Ret w \<Rightarrow>
          (let written = min w (length todo)
           in if 0 < written
              then (case writeLoop script (drop written todo) of
                      None \<Rightarrow> None
                    | Some (ok, script', pieces) \<Rightarrow> Some (ok, script', take written todo # pieces))
              else Some (False, script, []))
      | Fail e \<Rightarrow> if e = EINTR then writeLoop script todo else Some (False, script, []))"


section \<open>Operations\<close>

definition sync :: "storage \<Rightarrow> (bool \<times> storage) option" where
  "sync s =
     (if m_fd s = -1 then Some (False, s)
      else do {
        (ok, script) \<leftarrow> fdatasyncLoop (a_fdatasync (answers s));
        let s1 = s\<lparr>answers := (answers s)\<lparr>a_fdatasync := script\<rparr>\<rparr>;
        Some (if ok then (True, logCall Fdatasync (s1\<lparr>m_unsyncedBytes := 0\<rparr>)) else (False, s1))
      })"

definition syncDirectory :: "storage \<Rightarrow> (bool \<times> storage) option" where
  "syncDirectory s =
     (if m_directoryFd s = -1 then Some (False, s)
      else do {
        (ok, script) \<leftarrow> fsyncLoop (a_fsync (answers s));
        let s1 = s\<lparr>answers := (answers s)\<lparr>a_fsync := script\<rparr>\<rparr>;
        Some (if ok then (True, logCall FsyncDirectory s1) else (False, s1))
      })"

definition validateStoreConfig :: "fileStoreConfig \<Rightarrow> bool" where
  "validateStoreConfig c =
     (if cfgMaxSegmentBytes c < kFrameSize then False
      else if cfgMaxSegmentBytes c mod kFrameSize \<noteq> 0 then False
      else if cfgSyncEveryBytes c \<noteq> 0 \<and> cfgMaxSegmentBytes c < cfgSyncEveryBytes c then False
      else True)"

text \<open>\<open>std::filesystem::path\<close> on POSIX: the last component, and what precedes it.\<close>

definition pathFilename :: "string \<Rightarrow> string" where
  "pathFilename p = rev (takeWhile (\<lambda>c. c \<noteq> CHR ''/'') (rev p))"

definition pathParent :: "string \<Rightarrow> string" where
  "pathParent p =
     (let front = rev (dropWhile (\<lambda>c. c \<noteq> CHR ''/'') (rev p));
          stripped = rev (dropWhile (\<lambda>c. c = CHR ''/'') (rev front))
      in if front \<noteq> [] \<and> stripped = [] then ''/'' else stripped)"

definition openDirectory :: "string \<Rightarrow> storage \<Rightarrow> (bool \<times> storage) option" where
  "openDirectory path s =
     (let fileName = pathFilename path
      in if fileName = [] then Some (False, s)
         else let parent = pathParent path;
                  parent' = (if parent = [] then ''.'' else parent);
                  s1 = s\<lparr>m_directoryPath := parent', m_fileName := fileName\<rparr>
              in do {
                (r, rest) \<leftarrow> nextAnswer (a_open (answers s1));
                let s2 = s1\<lparr>answers := (answers s1)\<lparr>a_open := rest\<rparr>\<rparr>;
                Some (case r of
                        Ret fd \<Rightarrow> (True, logCall (OpenDirectory parent') (s2\<lparr>m_directoryFd := int fd\<rparr>))
                      | Fail _ \<Rightarrow> (False, s2\<lparr>m_directoryFd := -1\<rparr>))
              })"

definition recoverPartialFrame :: "storage \<Rightarrow> (bool \<times> storage) option" where
  "recoverPartialFrame s =
     do {
       (r, rest) \<leftarrow> nextAnswer (a_fstat (answers s));
       let s1 = s\<lparr>answers := (answers s)\<lparr>a_fstat := rest\<rparr>\<rparr>;
       case r of
         Fail _ \<Rightarrow> Some (False, s1)
       | Ret (isReg, st_size) \<Rightarrow>
           if \<not> isReg then Some (False, s1)
           else if st_size < 0 then Some (False, s1)
           else
             let s2 = logCall (Fstat (nat st_size)) s1;
                 remainder = nat st_size mod kFrameSize;
                 validSize = nat st_size - remainder
             in if remainder \<noteq> 0
                then do {
                  (t, trest) \<leftarrow> nextAnswer (a_ftruncate (answers s2));
                  let s3 = s2\<lparr>answers := (answers s2)\<lparr>a_ftruncate := trest\<rparr>\<rparr>;
                  case t of
                    Fail _ \<Rightarrow> Some (False, s3)
                  | Ret _ \<Rightarrow>
                      do {
                        (ok, s4) \<leftarrow> sync (logCall (Ftruncate validSize) s3);
                        Some (if ok then (True, s4\<lparr>m_currentSize := validSize\<rparr>) else (False, s4))
                      }
                }
                else Some (True, s2\<lparr>m_currentSize := validSize\<rparr>)
     }"

definition openActiveFile :: "storage \<Rightarrow> (bool \<times> storage) option" where
  "openActiveFile s =
     do {
       (r, rest) \<leftarrow> nextAnswer (a_openat (answers s));
       let s1 = s\<lparr>answers := (answers s)\<lparr>a_openat := rest\<rparr>\<rparr>;
       case r of
         Ret fd \<Rightarrow>
           do {
             (ok, s2) \<leftarrow> syncDirectory (logCall (CreateFile (m_fileName s1)) (s1\<lparr>m_fd := int fd\<rparr>));
             if \<not> ok then Some (False, s2) else recoverPartialFrame s2
           }
       | Fail e \<Rightarrow>
           if e = EEXIST
           then do {
             (r', rest') \<leftarrow> nextAnswer (a_openat (answers s1));
             let s2 = s1\<lparr>answers := (answers s1)\<lparr>a_openat := rest'\<rparr>\<rparr>;
             case r' of
               Ret fd \<Rightarrow> recoverPartialFrame (logCall (OpenExisting (m_fileName s2)) (s2\<lparr>m_fd := int fd\<rparr>))
             | Fail _ \<Rightarrow> Some (False, s2\<lparr>m_fd := -1\<rparr>)
           }
           else Some (False, s1\<lparr>m_fd := -1\<rparr>)
     }"

definition openFile :: "string \<Rightarrow> storage \<Rightarrow> (bool \<times> storage) option" where
  "openFile path s =
     (if m_fd s \<noteq> -1 \<or> m_directoryFd s \<noteq> -1 then Some (False, s)
      else if \<not> validateStoreConfig (m_config s) then Some (False, s)
      else do {
        (ok, s1) \<leftarrow> openDirectory path s;
        if \<not> ok then Some (False, s1) else openActiveFile s1
      })"

definition closeActiveFile :: "storage \<Rightarrow> (bool \<times> storage) option" where
  "closeActiveFile s =
     (if m_fd s = -1 then Some (True, s)
      else do {
        (r, rest) \<leftarrow> nextAnswer (a_close (answers s));
        let s1 = s\<lparr>m_fd := -1, answers := (answers s)\<lparr>a_close := rest\<rparr>\<rparr>;
        Some (case r of Ret _ \<Rightarrow> (True, logCall CloseFile s1) | Fail _ \<Rightarrow> (False, s1))
      })"

definition int_string :: "int \<Rightarrow> string" where
  "int_string i = (if i < 0 then ''-'' @ dec_string (nat (- i)) else dec_string (nat i))"

definition archiveName :: "string \<Rightarrow> int \<Rightarrow> int \<Rightarrow> nat \<Rightarrow> string" where
  "archiveName fileName sec nsec sequence =
     fileName @ ''.'' @ int_string sec @ ''.'' @ int_string nsec @ ''.'' @ dec_string sequence @ ''.segment''"

definition makeArchiveName :: "storage \<Rightarrow> (string \<times> storage) option" where
  "makeArchiveName s =
     do {
       (r, rest) \<leftarrow> nextAnswer (a_clock (answers s));
       let s1 = s\<lparr>answers := (answers s)\<lparr>a_clock := rest\<rparr>\<rparr>;
       Some (case r of
               Fail _ \<Rightarrow> ([], s1)
             | Ret (sec, nsec) \<Rightarrow>
                 (archiveName (m_fileName s1) sec nsec (m_rotationSequence s1),
                  s1\<lparr>m_rotationSequence := (m_rotationSequence s1 + 1) mod 2 ^ 64\<rparr>))
     }"

definition rotate :: "storage \<Rightarrow> (bool \<times> storage) option" where
  "rotate s =
     (if m_fd s = -1 then Some (False, s)
      else do {
        (ok1, s1) \<leftarrow> sync s;
        if \<not> ok1 then Some (False, s1) else do {
          (ok2, s2) \<leftarrow> closeActiveFile s1;
          if \<not> ok2 then Some (False, s2) else do {
            (name, s3) \<leftarrow> makeArchiveName s2;
            if name = [] then Some (False, s3) else do {
              (r, rest) \<leftarrow> nextAnswer (a_renameat (answers s3));
              let s4 = s3\<lparr>answers := (answers s3)\<lparr>a_renameat := rest\<rparr>\<rparr>;
              case r of
                Fail _ \<Rightarrow> Some (False, s4)
              | Ret _ \<Rightarrow> do {
                  (ok5, s5) \<leftarrow> syncDirectory (logCall (Rename (m_fileName s4) name) s4);
                  if \<not> ok5 then Some (False, s5)
                  else openActiveFile (s5\<lparr>m_currentSize := 0, m_unsyncedBytes := 0\<rparr>)
                }
            }
          }
        }
      })"

text \<open>The length of the next chunk, given the state after the rotation and sync checks.\<close>

definition chunkBytes :: "fileStoreConfig \<Rightarrow> nat \<Rightarrow> nat \<Rightarrow> nat \<Rightarrow> nat" where
  "chunkBytes c available remainingSegmentBytes unsynced =
     (let chunk = min available remainingSegmentBytes
      in if cfgSyncEveryBytes c \<noteq> 0
         then let untilSync = sub64 (cfgSyncEveryBytes c) unsynced
              in if untilSync < chunk
                 then (1 + sub64 untilSync 1 div kFrameSize) * kFrameSize
                 else chunk
         else chunk)"

text \<open>
  The second half of a turn of the outer loop of \<open>appendFrames\<close>: the chunk is written and
  accounted for, and the interval is checked. The result is the verdict, the new offset and the
  state.
\<close>

definition writeChunk :: "bytes \<Rightarrow> nat \<Rightarrow> nat \<Rightarrow> storage \<Rightarrow> (bool \<times> nat \<times> storage) option" where
  "writeChunk frames offset chunk s =
     do {
       (ok, script, pieces) \<leftarrow> writeLoop (a_write (answers s)) (take chunk (drop offset frames));
       let s1 = s\<lparr>answers := (answers s)\<lparr>a_write := script\<rparr>, calls := calls s @ map Wrote pieces\<rparr>;
       if \<not> ok then Some (False, offset, s1) else do {
         let s2 = s1\<lparr>m_currentSize := m_currentSize s1 + chunk,
                     m_unsyncedBytes := m_unsyncedBytes s1 + chunk\<rparr>;
         if cfgSyncEveryBytes (m_config s2) \<noteq> 0 \<and> cfgSyncEveryBytes (m_config s2) \<le> m_unsyncedBytes s2
         then do {
           (synced, s3) \<leftarrow> sync s2;
           Some (synced, offset + chunk, s3)
         }
         else Some (True, offset + chunk, s2)
       }
     }"

text \<open>One turn: the rotation check, the check of the interval, the length of the chunk, the write.\<close>

definition appendStep :: "bytes \<Rightarrow> nat \<Rightarrow> storage \<Rightarrow> (bool \<times> nat \<times> storage) option" where
  "appendStep frames offset s =
     do {
       (ok1, s1) \<leftarrow> (if cfgMaxSegmentBytes (m_config s) \<le> m_currentSize s then rotate s else Some (True, s));
       if \<not> ok1 then Some (False, offset, s1) else do {
         let remainingSegmentBytes = sub64 (cfgMaxSegmentBytes (m_config s1)) (m_currentSize s1);
         (ok2, s2) \<leftarrow> (if cfgSyncEveryBytes (m_config s1) \<noteq> 0 \<and>
                         cfgSyncEveryBytes (m_config s1) \<le> m_unsyncedBytes s1
                      then sync s1 else Some (True, s1));
         if \<not> ok2 then Some (False, offset, s2) else do {
           let chunk = chunkBytes (m_config s2) (length frames - offset) remainingSegmentBytes
                         (m_unsyncedBytes s2);
           if length frames < offset + chunk then None else writeChunk frames offset chunk s2
         }
       }
     }"

partial_function (option) appendLoop :: "bytes \<Rightarrow> nat \<Rightarrow> storage \<Rightarrow> (bool \<times> storage) option" where
  "appendLoop frames offset s =
     (if offset < length frames
      then case appendStep frames offset s of
             None \<Rightarrow> None
           | Some (ok, offset', s') \<Rightarrow>
               if ok then appendLoop frames offset' s' else Some (False, s')
      else Some (True, s))"

definition appendFrames :: "bytes \<Rightarrow> storage \<Rightarrow> (bool \<times> storage) option" where
  "appendFrames frames s =
     (if m_fd s = -1 then Some (False, s)
      else if frames = [] \<or> length frames mod kFrameSize \<noteq> 0 then Some (False, s)
      else appendLoop frames 0 s)"

definition appendFrame :: "bytes \<Rightarrow> storage \<Rightarrow> (bool \<times> storage) option" where
  "appendFrame frame s = appendFrames frame s"


section \<open>Reading the list of calls\<close>

text \<open>
  What the calls mean for the data: the bytes appended so far, the size of the active file and
  the number of bytes appended since the last \<open>fdatasync\<close>.
\<close>

definition writtenBytes :: "fsCall list \<Rightarrow> bytes" where
  "writtenBytes cs = concat (map (\<lambda>c. case c of Wrote bs \<Rightarrow> bs | _ \<Rightarrow> []) cs)"

fun sizeStep :: "nat \<Rightarrow> fsCall \<Rightarrow> nat" where
  "sizeStep n (CreateFile _) = 0"
| "sizeStep n (Fstat k) = k"
| "sizeStep n (Ftruncate k) = k"
| "sizeStep n (Wrote bs) = n + length bs"
| "sizeStep n (Rename _ _) = 0"
| "sizeStep n _ = n"

fun dirtyStep :: "nat \<Rightarrow> fsCall \<Rightarrow> nat" where
  "dirtyStep n (Wrote bs) = n + length bs"
| "dirtyStep n Fdatasync = 0"
| "dirtyStep n _ = n"

definition activeSize :: "fsCall list \<Rightarrow> nat" where
  "activeSize cs = foldl sizeStep 0 cs"

definition dirtyBytes :: "fsCall list \<Rightarrow> nat" where
  "dirtyBytes cs = foldl dirtyStep 0 cs"

text \<open>
  The rules that the sequence of calls keeps, checked call by call with the size of the active
  file and the number of unsynced bytes: a file is renamed away only when it is full, ends on a
  frame boundary and is synced, and a write never takes a file beyond the limit. The flag says
  whether the rule for writes applies.
\<close>

fun callOk :: "bool \<Rightarrow> nat \<Rightarrow> nat \<Rightarrow> nat \<Rightarrow> fsCall \<Rightarrow> bool" where
  "callOk alone limit sz dirty (Rename _ _) \<longleftrightarrow> limit \<le> sz \<and> kFrameSize dvd sz \<and> dirty = 0"
| "callOk alone limit sz dirty (Wrote bs) \<longleftrightarrow> (alone \<longrightarrow> sz + length bs \<le> limit)"
| "callOk alone limit sz dirty _ \<longleftrightarrow> True"

fun protocolFrom :: "bool \<Rightarrow> nat \<Rightarrow> nat \<Rightarrow> nat \<Rightarrow> fsCall list \<Rightarrow> bool" where
  "protocolFrom alone limit sz dirty [] \<longleftrightarrow> True"
| "protocolFrom alone limit sz dirty (c # cs) \<longleftrightarrow>
     callOk alone limit sz dirty c \<and> protocolFrom alone limit (sizeStep sz c) (dirtyStep dirty c) cs"

text \<open>
  The assumption of a single writer, on the calls of an append: the path that was just renamed
  away is free again, and a file that was just created is empty.
\<close>

fun singleWriter :: "fsCall \<Rightarrow> bool" where
  "singleWriter (OpenExisting _) \<longleftrightarrow> False"
| "singleWriter (Fstat n) \<longleftrightarrow> n = 0"
| "singleWriter _ \<longleftrightarrow> True"

text \<open>
  The frame-at-a-time behaviour that the batched loop has to reproduce: what reaches the data is
  the bytes, the syncs and the rotations, in this order. For each frame a full file is synced and
  rotated away first, the frame is appended, and the file is synced as soon as the interval is
  reached.
\<close>

datatype storeEvent = EByte byte | ESync | ERotate

fun callEvents :: "fsCall \<Rightarrow> storeEvent list" where
  "callEvents (Wrote bs) = map EByte bs"
| "callEvents Fdatasync = [ESync]"
| "callEvents (Rename _ _) = [ERotate]"
| "callEvents _ = []"

definition storeEvents :: "fsCall list \<Rightarrow> storeEvent list" where
  "storeEvents cs = concat (map callEvents cs)"

fun frameCadence :: "fileStoreConfig \<Rightarrow> nat \<Rightarrow> nat \<Rightarrow> bytes list \<Rightarrow> storeEvent list" where
  "frameCadence c sz dirty [] = []"
| "frameCadence c sz dirty (f # fs) =
     (let full = (cfgMaxSegmentBytes c \<le> sz);
          sz1 = (if full then 0 else sz) + length f;
          dirty1 = (if full then 0 else dirty) + length f;
          due = (cfgSyncEveryBytes c \<noteq> 0 \<and> cfgSyncEveryBytes c \<le> dirty1)
      in (if full then [ESync, ERotate] else []) @ map EByte f @ (if due then [ESync] else []) @
         frameCadence c sz1 (if due then 0 else dirty1) fs)"

lemma writtenBytes_simps [simp]:
  "writtenBytes [] = []"
  "writtenBytes (cs @ ds) = writtenBytes cs @ writtenBytes ds"
  "writtenBytes (c # cs) = (case c of Wrote bs \<Rightarrow> bs | _ \<Rightarrow> []) @ writtenBytes cs"
  "writtenBytes (map Wrote pieces) = concat pieces"
  by (simp_all add: writtenBytes_def comp_def)

lemma foldl_sizeStep_Wrote [simp]: "foldl sizeStep n (map Wrote pieces) = n + length (concat pieces)"
  by (induction pieces arbitrary: n) auto

lemma foldl_dirtyStep_Wrote [simp]: "foldl dirtyStep n (map Wrote pieces) = n + length (concat pieces)"
  by (induction pieces arbitrary: n) auto

lemma activeSize_simps [simp]:
  "activeSize [] = 0"
  "activeSize (cs @ ds) = foldl sizeStep (activeSize cs) ds"
  by (simp_all add: activeSize_def)

lemma dirtyBytes_simps [simp]:
  "dirtyBytes [] = 0"
  "dirtyBytes (cs @ ds) = foldl dirtyStep (dirtyBytes cs) ds"
  by (simp_all add: dirtyBytes_def)

lemma protocolFrom_append [simp]:
  "protocolFrom w l n d (cs @ ds) \<longleftrightarrow>
     protocolFrom w l n d cs \<and> protocolFrom w l (foldl sizeStep n cs) (foldl dirtyStep d cs) ds"
  by (induction cs arbitrary: n d) auto

lemma callOk_mono: "callOk w l n d c \<Longrightarrow> (v \<longrightarrow> w) \<Longrightarrow> callOk v l n d c"
  by (cases c) auto

lemma protocolFrom_mono: "protocolFrom w l n d cs \<Longrightarrow> (v \<longrightarrow> w) \<Longrightarrow> protocolFrom v l n d cs"
  by (induction cs arbitrary: n d) (auto intro: callOk_mono)

lemma protocolFrom_Wrote:
  "protocolFrom w l n d (map Wrote pieces) \<longleftrightarrow> pieces = [] \<or> (w \<longrightarrow> n + length (concat pieces) \<le> l)"
  by (induction pieces arbitrary: n d) (auto simp: add.assoc)

text \<open>Calls that the rules do not restrict.\<close>

fun plainCall :: "fsCall \<Rightarrow> bool" where
  "plainCall (Wrote _) \<longleftrightarrow> False"
| "plainCall (Rename _ _) \<longleftrightarrow> False"
| "plainCall _ \<longleftrightarrow> True"

lemma protocolFrom_plain: "list_all plainCall cs \<Longrightarrow> protocolFrom w l n d cs"
proof (induction cs arbitrary: n d)
  case (Cons c cs)
  then show ?case by (cases c) auto
qed simp

lemma writtenBytes_plain: "list_all plainCall cs \<Longrightarrow> writtenBytes cs = []"
proof (induction cs)
  case (Cons c cs)
  then show ?case by (cases c) (auto simp: writtenBytes_def)
qed (simp add: writtenBytes_def)

lemma storeEvents_simps [simp]:
  "storeEvents [] = []"
  "storeEvents (cs @ ds) = storeEvents cs @ storeEvents ds"
  "storeEvents (c # cs) = callEvents c @ storeEvents cs"
  "storeEvents (map Wrote pieces) = map EByte (concat pieces)"
  by (simp_all add: storeEvents_def comp_def map_concat)

text \<open>Before the first frame, a full file is rotated away.\<close>

lemma frameCadence_full:
  "cfgMaxSegmentBytes c \<le> sz \<Longrightarrow> 0 < cfgMaxSegmentBytes c \<Longrightarrow> fs \<noteq> [] \<Longrightarrow>
   frameCadence c sz d fs = [ESync, ERotate] @ frameCadence c 0 0 fs"
  by (cases fs) (auto simp: Let_def)

text \<open>Frames that fit the file and of which at most the last reaches the interval are one run.\<close>

lemma frameCadence_run:
  assumes "fs \<noteq> []" and "\<forall>f \<in> set fs. length f = kFrameSize"
    and "sz + kFrameSize * length fs \<le> cfgMaxSegmentBytes c"
    and "cfgSyncEveryBytes c \<noteq> 0 \<longrightarrow> d + kFrameSize * length fs < cfgSyncEveryBytes c + kFrameSize"
  defines "due \<equiv> cfgSyncEveryBytes c \<noteq> 0 \<and> cfgSyncEveryBytes c \<le> d + kFrameSize * length fs"
  shows "frameCadence c sz d (fs @ gs) = map EByte (concat fs) @ (if due then [ESync] else []) @
    frameCadence c (sz + kFrameSize * length fs) (if due then 0 else d + kFrameSize * length fs) gs"
  using assms(1-4) unfolding due_def
proof (induction fs arbitrary: sz d)
  case (Cons f fs)
  have f: "length f = kFrameSize" using Cons.prems(2) by simp
  have "sz + kFrameSize \<le> cfgMaxSegmentBytes c" using Cons.prems(3) by simp
  with f have f: "length f = kFrameSize" "sz < cfgMaxSegmentBytes c" using kFrameSize_pos(1) by linarith+
  show ?case
  proof (cases "fs = []")
    case True
    with f show ?thesis by (simp add: Let_def)
  next
    case False
    have g: "sz + kFrameSize + kFrameSize * length fs \<le> cfgMaxSegmentBytes c"
      "cfgSyncEveryBytes c \<noteq> 0 \<longrightarrow> d + kFrameSize + kFrameSize * length fs < cfgSyncEveryBytes c + kFrameSize"
      using Cons.prems(3,4) by (simp_all add: algebra_simps)
    have "kFrameSize \<le> kFrameSize * length fs" using False by (cases fs) simp_all
    then have notdue: "\<not> (cfgSyncEveryBytes c \<noteq> 0 \<and> cfgSyncEveryBytes c \<le> d + kFrameSize)"
      using g(2) by linarith
    have r: "frameCadence c sz d ((f # fs) @ gs) = map EByte f @ frameCadence c (sz + kFrameSize) (d + kFrameSize) (fs @ gs)"
      using f notdue by (auto simp: Let_def)
    show ?thesis
      unfolding r using Cons.IH [OF False _ g] Cons.prems(2) by (simp add: add.assoc)
  qed
qed simp


section \<open>What each operation does\<close>

lemma nextAnswer_Some [simp]: "nextAnswer xs = Some (r, rest) \<longleftrightarrow> xs = r # rest"
  by (cases xs) auto

lemmas op_simps = Let_def logCall_def
lemmas op_splits = Option.bind_split_asm sysret.split_asm prod.split_asm if_split_asm

lemma answers_refl: "\<exists>a. (s :: storage) = s\<lparr>answers := a\<rparr>"
  by (rule exI [of _ "answers s"]) simp

lemma sync_True:
  "sync s = Some (True, s') \<Longrightarrow>
   m_fd s \<noteq> -1 \<and> (\<exists>a. s' = s\<lparr>answers := a, m_unsyncedBytes := 0, calls := calls s @ [Fdatasync]\<rparr>)"
  by (auto simp: sync_def op_simps split: op_splits)

lemma sync_False: "sync s = Some (False, s') \<Longrightarrow> \<exists>a. s' = s\<lparr>answers := a\<rparr>"
  by (auto simp: sync_def op_simps split: op_splits intro: answers_refl)

lemma syncDirectory_True:
  "syncDirectory s = Some (True, s') \<Longrightarrow>
   m_directoryFd s \<noteq> -1 \<and> (\<exists>a. s' = s\<lparr>answers := a, calls := calls s @ [FsyncDirectory]\<rparr>)"
  by (auto simp: syncDirectory_def op_simps split: op_splits)

lemma syncDirectory_False: "syncDirectory s = Some (False, s') \<Longrightarrow> \<exists>a. s' = s\<lparr>answers := a\<rparr>"
  by (auto simp: syncDirectory_def op_simps split: op_splits intro: answers_refl)

lemma closeActiveFile_True:
  "closeActiveFile s = Some (True, s') \<Longrightarrow> m_fd s \<noteq> -1 \<Longrightarrow>
   \<exists>a. s' = s\<lparr>m_fd := -1, answers := a, calls := calls s @ [CloseFile]\<rparr>"
  by (auto simp: closeActiveFile_def op_simps split: op_splits)

text \<open>The calls of a successful recovery of a file of \<open>n\<close> bytes.\<close>

definition recoveryCalls :: "nat \<Rightarrow> fsCall list" where
  "recoveryCalls n =
     Fstat n # (if n mod kFrameSize \<noteq> 0 then [Ftruncate (n - n mod kFrameSize), Fdatasync] else [])"

text \<open>What a successful recovery and a successful opening leave behind.\<close>

definition sameStore :: "storage \<Rightarrow> storage \<Rightarrow> bool" where
  "sameStore s s' \<longleftrightarrow> m_config s' = m_config s \<and> m_directoryFd s' = m_directoryFd s \<and>
     m_directoryPath s' = m_directoryPath s \<and> m_fileName s' = m_fileName s"

definition recovered :: "nat \<Rightarrow> storage \<Rightarrow> storage \<Rightarrow> bool" where
  "recovered n s s' \<longleftrightarrow> sameStore s s' \<and> m_fd s' = m_fd s \<and>
     m_rotationSequence s' = m_rotationSequence s \<and>
     m_currentSize s' = n - n mod kFrameSize \<and>
     m_unsyncedBytes s' = (if n mod kFrameSize \<noteq> 0 then 0 else m_unsyncedBytes s) \<and>
     calls s' = calls s @ recoveryCalls n"

definition reportedSize :: "storageAnswers \<Rightarrow> nat" where
  "reportedSize a = (case a_fstat a of Ret (_, k) # _ \<Rightarrow> nat k | _ \<Rightarrow> 0)"

lemma recoverPartialFrame_True:
  "recoverPartialFrame s = Some (True, s') \<Longrightarrow> recovered (reportedSize (answers s)) s s'"
  unfolding recoverPartialFrame_def
  by (auto simp: op_simps recoveryCalls_def recovered_def sameStore_def reportedSize_def
      split: op_splits dest!: sync_True)

definition openCalls :: "string \<Rightarrow> bool \<Rightarrow> nat \<Rightarrow> fsCall list" where
  "openCalls name created n =
     (if created then [CreateFile name, FsyncDirectory] else [OpenExisting name]) @ recoveryCalls n"

definition opened :: "bool \<Rightarrow> nat \<Rightarrow> storage \<Rightarrow> storage \<Rightarrow> bool" where
  "opened created n s s' \<longleftrightarrow> sameStore s s' \<and> m_fd s' \<noteq> -1 \<and>
     m_rotationSequence s' = m_rotationSequence s \<and>
     m_currentSize s' = n - n mod kFrameSize \<and>
     m_unsyncedBytes s' = (if n mod kFrameSize \<noteq> 0 then 0 else m_unsyncedBytes s) \<and>
     calls s' = calls s @ openCalls (m_fileName s) created n"

lemma openActiveFile_True:
  assumes "openActiveFile s = Some (True, s')"
  shows "\<exists>created n. opened created n s s'"
proof -
  obtain r rest where q: "a_openat (answers s) = r # rest"
    using assms by (cases "a_openat (answers s)") (auto simp: openActiveFile_def)
  show ?thesis
  proof (cases r)
    case (Ret fd)
    let ?s1 = "s\<lparr>answers := (answers s)\<lparr>a_openat := rest\<rparr>, m_fd := int fd,
      calls := calls s @ [CreateFile (m_fileName s)]\<rparr>"
    from assms q Ret obtain s2 where
      d: "syncDirectory ?s1 = Some (True, s2)" and r: "recoverPartialFrame s2 = Some (True, s')"
      by (auto simp: openActiveFile_def op_simps split: op_splits)
    from syncDirectory_True [OF d] recoverPartialFrame_True [OF r]
    have "opened True (reportedSize (answers s2)) s s'"
      by (auto simp: opened_def recovered_def sameStore_def openCalls_def)
    then show ?thesis by blast
  next
    case (Fail e)
    with assms q obtain fd rest' where q': "rest = Ret fd # rest'" "e = EEXIST"
      by (cases rest) (auto simp: openActiveFile_def op_simps split: op_splits)
    let ?s1 = "s\<lparr>answers := (answers s)\<lparr>a_openat := rest'\<rparr>, m_fd := int fd,
      calls := calls s @ [OpenExisting (m_fileName s)]\<rparr>"
    from assms q Fail q' have "recoverPartialFrame ?s1 = Some (True, s')"
      by (auto simp: openActiveFile_def op_simps split: op_splits)
    then have "opened False (reportedSize (answers ?s1)) s s'"
      using recoverPartialFrame_True by (fastforce simp: opened_def recovered_def sameStore_def openCalls_def)
    then show ?thesis by blast
  qed
qed

text \<open>The calls of a successful rotation.\<close>

definition rotationCalls :: "string \<Rightarrow> string \<Rightarrow> bool \<Rightarrow> nat \<Rightarrow> fsCall list" where
  "rotationCalls name archive created n =
     [Fdatasync, CloseFile, Rename name archive, FsyncDirectory] @ openCalls name created n"

definition rotated :: "bool \<Rightarrow> nat \<Rightarrow> storage \<Rightarrow> storage \<Rightarrow> bool" where
  "rotated created n s s' \<longleftrightarrow> sameStore s s' \<and> m_fd s' \<noteq> -1 \<and>
     m_rotationSequence s' = (m_rotationSequence s + 1) mod 2 ^ 64 \<and>
     m_currentSize s' = n - n mod kFrameSize \<and> m_unsyncedBytes s' = 0 \<and>
     (\<exists>sec nsec. calls s' = calls s @ rotationCalls (m_fileName s)
        (archiveName (m_fileName s) sec nsec (m_rotationSequence s)) created n)"

lemma makeArchiveName_named:
  "makeArchiveName s = Some (name, s') \<Longrightarrow> name \<noteq> [] \<Longrightarrow>
   \<exists>sec nsec. name = archiveName (m_fileName s) sec nsec (m_rotationSequence s) \<and>
     s' = s\<lparr>answers := answers s', m_rotationSequence := (m_rotationSequence s + 1) mod 2 ^ 64\<rparr>"
  by (auto simp: makeArchiveName_def op_simps split: op_splits)

lemma rotate_True:
  assumes "rotate s = Some (True, s')"
  shows "\<exists>created n. rotated created n s s'"
proof -
  from assms obtain s1 s2 name s3 rest s5 where
    s1: "m_fd s \<noteq> -1" "sync s = Some (True, s1)" and s2: "closeActiveFile s1 = Some (True, s2)"
    and s3: "makeArchiveName s2 = Some (name, s3)" "name \<noteq> []"
    and s5: "syncDirectory (logCall (Rename (m_fileName s3) name)
      (s3\<lparr>answers := (answers s3)\<lparr>a_renameat := rest\<rparr>\<rparr>)) = Some (True, s5)"
    and s6: "openActiveFile (s5\<lparr>m_currentSize := 0, m_unsyncedBytes := 0\<rparr>) = Some (True, s')"
    by (auto simp: rotate_def Let_def split: op_splits)
  obtain a1 where e1: "s1 = s\<lparr>answers := a1, m_unsyncedBytes := 0, calls := calls s @ [Fdatasync]\<rparr>"
    using sync_True [OF s1(2)] by blast
  obtain a2 where e2: "s2 = s1\<lparr>m_fd := -1, answers := a2, calls := calls s1 @ [CloseFile]\<rparr>"
    using closeActiveFile_True [OF s2] s1(1) e1 by auto
  obtain sec nsec where e3: "name = archiveName (m_fileName s2) sec nsec (m_rotationSequence s2)"
    "s3 = s2\<lparr>answers := answers s3, m_rotationSequence := (m_rotationSequence s2 + 1) mod 2 ^ 64\<rparr>"
    using makeArchiveName_named [OF s3] by blast
  obtain a5 where e5: "s5 = s3\<lparr>answers := a5, calls := calls s3 @ [Rename (m_fileName s3) name, FsyncDirectory]\<rparr>"
    using syncDirectory_True [OF s5] by (auto simp: logCall_def)
  obtain created n where e6: "opened created n (s5\<lparr>m_currentSize := 0, m_unsyncedBytes := 0\<rparr>) s'"
    using openActiveFile_True [OF s6] by blast
  have f3: "m_config s3 = m_config s" "m_directoryFd s3 = m_directoryFd s" "m_directoryPath s3 = m_directoryPath s"
    "m_fileName s3 = m_fileName s" "m_rotationSequence s3 = (m_rotationSequence s + 1) mod 2 ^ 64"
    "calls s3 = calls s @ [Fdatasync, CloseFile]"
    by (subst e3(2), simp add: e2 e1)+
  have "rotated created n s s'"
    using e6 f3 e3(1) unfolding rotated_def opened_def sameStore_def e5
    by (auto simp: rotationCalls_def e1 e2)
  then show ?thesis by blast
qed


section \<open>Failure paths write nothing\<close>

text \<open>An operation that only extends the list of calls, without a write.\<close>

definition quietStep :: "storage \<Rightarrow> storage \<Rightarrow> bool" where
  "quietStep s s' \<longleftrightarrow> m_config s' = m_config s \<and> (\<exists>cs. calls s' = calls s @ cs \<and> writtenBytes cs = [])"

lemma quietStep_refl: "calls s' = calls s \<Longrightarrow> m_config s' = m_config s \<Longrightarrow> quietStep s s'"
  by (auto simp: quietStep_def intro: exI [of _ "[]"])

lemma quietStep_trans: "quietStep s s' \<Longrightarrow> quietStep s' s'' \<Longrightarrow> quietStep s s''"
  by (fastforce simp: quietStep_def)

text \<open>All of them but the rotation rename nothing either.\<close>

definition plainStep :: "storage \<Rightarrow> storage \<Rightarrow> bool" where
  "plainStep s s' \<longleftrightarrow> m_config s' = m_config s \<and> (\<exists>cs. calls s' = calls s @ cs \<and> list_all plainCall cs)"

lemma plainStep_refl: "calls s' = calls s \<Longrightarrow> m_config s' = m_config s \<Longrightarrow> plainStep s s'"
  by (auto simp: plainStep_def intro: exI [of _ "[]"])

lemma plainStep_trans: "plainStep s s' \<Longrightarrow> plainStep s' s'' \<Longrightarrow> plainStep s s''"
  by (fastforce simp: plainStep_def)

lemma plainStep_log:
  "calls s' = calls s @ cs \<Longrightarrow> m_config s' = m_config s \<Longrightarrow> list_all plainCall cs \<Longrightarrow> plainStep s s'"
  by (auto simp: plainStep_def)

lemma sync_plain: "sync s = Some (ok, s') \<Longrightarrow> plainStep s s'"
  by (cases ok) (auto dest!: sync_True sync_False intro: plainStep_refl plainStep_log)

lemma syncDirectory_plain: "syncDirectory s = Some (ok, s') \<Longrightarrow> plainStep s s'"
  by (cases ok) (auto dest!: syncDirectory_True syncDirectory_False intro: plainStep_refl plainStep_log)

lemma closeActiveFile_plain: "closeActiveFile s = Some (ok, s') \<Longrightarrow> plainStep s s'"
  by (auto simp: closeActiveFile_def op_simps split: op_splits intro: plainStep_refl plainStep_log)

lemma makeArchiveName_plain: "makeArchiveName s = Some (name, s') \<Longrightarrow> plainStep s s'"
  by (auto simp: makeArchiveName_def op_simps split: op_splits intro: plainStep_refl)

lemma recoverPartialFrame_plain:
  assumes "recoverPartialFrame s = Some (ok, s')"
  shows "plainStep s s'"
proof -
  have sync': "plainStep s v" if "sync t = Some (b, u)" "calls t = calls s @ [Fstat n, Ftruncate m]"
    "m_config t = m_config s" "calls v = calls u" "m_config v = m_config u" for t b u n m v
    using sync_plain [OF that(1)] that(2-) by (auto simp: plainStep_def)
  show ?thesis
    using assms unfolding recoverPartialFrame_def
    by (auto simp: op_simps split: op_splits intro: plainStep_refl plainStep_log sync')
qed

lemma openActiveFile_plain:
  assumes "openActiveFile s = Some (ok, s')"
  shows "plainStep s s'"
proof -
  have created: "plainStep s s'" if "syncDirectory t = Some (b, u)" "calls t = calls s @ [CreateFile n]"
    "m_config t = m_config s" "u = s' \<or> recoverPartialFrame u = Some (ok, s')" for t b u n
    using syncDirectory_plain [OF that(1)] recoverPartialFrame_plain [of u ok s'] that(2-)
    by (fastforce simp: plainStep_def)
  have existing: "plainStep s s'" if "recoverPartialFrame u = Some (ok, s')" "calls u = calls s @ [OpenExisting n]"
    "m_config u = m_config s" for u n
    using recoverPartialFrame_plain [OF that(1)] that(2-) by (auto simp: plainStep_def)
  show ?thesis
    using assms unfolding openActiveFile_def
    by (auto simp: op_simps split: op_splits intro: plainStep_refl created existing)
qed

lemma plainStep_quiet: "plainStep s s' \<Longrightarrow> quietStep s s'"
  by (auto simp: plainStep_def quietStep_def writtenBytes_plain)

lemmas sync_quiet = plainStep_quiet [OF sync_plain]
lemmas syncDirectory_quiet = plainStep_quiet [OF syncDirectory_plain]
lemmas closeActiveFile_quiet = plainStep_quiet [OF closeActiveFile_plain]
lemmas makeArchiveName_quiet = plainStep_quiet [OF makeArchiveName_plain]
lemmas openActiveFile_quiet = plainStep_quiet [OF openActiveFile_plain]

lemma rotate_quiet:
  assumes "rotate s = Some (ok, s')"
  shows "quietStep s s'"
proof -
  have last: "quietStep s s'" if "quietStep s t" "syncDirectory (t\<lparr>answers := a, calls := calls t @ [Rename x y]\<rparr>) = Some (b, u)"
    "u = s' \<or> openActiveFile (u\<lparr>m_currentSize := 0, m_unsyncedBytes := 0\<rparr>) = Some (ok, s')" for t b u a x y
    using that(1,3) syncDirectory_quiet [OF that(2)]
      openActiveFile_quiet [of "u\<lparr>m_currentSize := 0, m_unsyncedBytes := 0\<rparr>" ok s']
    by (fastforce simp: quietStep_def)
  have chain: "quietStep s s3" if "sync s = Some (b1, s1)" "closeActiveFile s1 = Some (b2, s2)"
    "makeArchiveName s2 = Some (name, s3)" for b1 s1 b2 s2 name s3
    using that by (blast intro: quietStep_trans sync_quiet closeActiveFile_quiet makeArchiveName_quiet)
  have same: "quietStep s (t\<lparr>answers := a\<rparr>)" if "quietStep s t" for t a
    using that by (simp add: quietStep_def)
  show ?thesis
    using assms unfolding rotate_def
    by (auto simp: op_simps split: op_splits
        intro: quietStep_refl sync_quiet quietStep_trans [OF sync_quiet closeActiveFile_quiet]
          last [OF chain] chain same [OF chain])
qed


section \<open>The write loop and the chunk length\<close>

lemma writeLoop_result:
  "writeLoop script todo = Some (ok, script', pieces) \<Longrightarrow>
   \<exists>rest. todo = concat pieces @ rest \<and> (ok \<longleftrightarrow> rest = [])"
proof (induction script todo arbitrary: pieces rule: writeLoop.induct)
  case (1 todo)
  then show ?case by (auto split: if_splits)
next
  case (2 r script todo)
  show ?case
  proof (cases "todo = []")
    case False
    show ?thesis
    proof (cases r)
      case (Ret w)
      show ?thesis
      proof (cases "0 < min w (length todo)")
        case True
        with 2(3) False Ret obtain ps where
          ps: "writeLoop script (drop (min w (length todo)) todo) = Some (ok, script', ps)"
          "pieces = take (min w (length todo)) todo # ps"
          by (auto simp: Let_def split: option.splits)
        from 2(1) [OF False Ret refl True ps(1)] obtain rest where
          "drop (min w (length todo)) todo = concat ps @ rest" "ok = (rest = [])" by blast
        then show ?thesis
          by (metis append_assoc append_take_drop_id concat.simps(2) ps(2))
      qed (use 2(3) False Ret in auto)
    qed (use 2 False in \<open>auto split: if_splits\<close>)
  qed (use 2 in auto)
qed


lemma ceil_frames:
  assumes "0 < u" and "u < c" and "kFrameSize dvd c"
  shows "u \<le> (1 + (u - 1) div kFrameSize) * kFrameSize" and "(1 + (u - 1) div kFrameSize) * kFrameSize \<le> c"
proof -
  have "u - 1 < kFrameSize + (u - 1) div kFrameSize * kFrameSize"
    by (rule dividend_less_div_times) simp
  then show "u \<le> (1 + (u - 1) div kFrameSize) * kFrameSize" using assms(1) by simp
  obtain k where k: "c = k * kFrameSize" using assms(3) by (auto simp: dvd_def mult.commute)
  then have "(u - 1) div kFrameSize < k"
    using assms(1,2) by (intro less_mult_imp_div_less) simp
  then show "(1 + (u - 1) div kFrameSize) * kFrameSize \<le> c"
    unfolding k by (intro mult_le_mono1) simp
qed

text \<open>
  The chunk is a whole number of frames within both limits; when the sync interval is enabled it
  stops at the first frame that reaches the interval.
\<close>

lemma chunkBytes_bounds:
  assumes "kFrameSize dvd available" and "kFrameSize dvd remaining"
    and "cfgSyncEveryBytes c \<noteq> 0 \<longrightarrow> unsynced < cfgSyncEveryBytes c"
  defines "k \<equiv> chunkBytes c available remaining unsynced"
  shows "k \<le> min available remaining" and "kFrameSize dvd k"
    and "0 < min available remaining \<Longrightarrow> 0 < k"
    and "cfgSyncEveryBytes c \<noteq> 0 \<Longrightarrow> unsynced + k < cfgSyncEveryBytes c + kFrameSize"
proof -
  have m: "kFrameSize dvd min available remaining" using assms(1,2) by (simp add: min_def)
  have "k \<le> min available remaining \<and> kFrameSize dvd k \<and> (0 < min available remaining \<longrightarrow> 0 < k) \<and>
    (cfgSyncEveryBytes c \<noteq> 0 \<longrightarrow> unsynced + k < cfgSyncEveryBytes c + kFrameSize)"
  proof (cases "cfgSyncEveryBytes c \<noteq> 0 \<and> cfgSyncEveryBytes c - unsynced < min available remaining")
    case True
    define u where "u = cfgSyncEveryBytes c - unsynced"
    have u: "0 < u" "u < min available remaining" "sub64 (cfgSyncEveryBytes c) unsynced = u"
      using True assms(3) by (auto simp: u_def)
    then have k: "k = (1 + (u - 1) div kFrameSize) * kFrameSize"
      using True by (simp add: k_def chunkBytes_def Let_def)
    have "(u - 1) div kFrameSize * kFrameSize \<le> u - 1" by (rule div_times_less_eq_dividend)
    then have "unsynced + k < cfgSyncEveryBytes c + kFrameSize"
      using True assms(3) u(1) unfolding k u_def add_mult_distrib by linarith
    then show ?thesis using ceil_frames [OF u(1,2) m] u(1) k by auto
  next
    case False
    then have k: "k = min available remaining"
      using assms(3) by (auto simp: k_def chunkBytes_def Let_def)
    have "unsynced + k < cfgSyncEveryBytes c + kFrameSize" if "cfgSyncEveryBytes c \<noteq> 0"
      using False assms(3) kFrameSize_pos(1) that unfolding k by linarith
    then show ?thesis using m k by simp
  qed
  then show "k \<le> min available remaining" "kFrameSize dvd k" "0 < min available remaining \<Longrightarrow> 0 < k"
    "cfgSyncEveryBytes c \<noteq> 0 \<Longrightarrow> unsynced + k < cfgSyncEveryBytes c + kFrameSize"
    by auto
qed


section \<open>The invariant of an open store\<close>

definition storeInv :: "storage \<Rightarrow> bool" where
  "storeInv s \<longleftrightarrow> m_fd s \<noteq> -1 \<and> m_directoryFd s \<noteq> -1 \<and> validateStoreConfig (m_config s) \<and>
     kFrameSize dvd m_currentSize s \<and> m_currentSize s = activeSize (calls s) \<and>
     m_unsyncedBytes s = dirtyBytes (calls s) \<and>
     (cfgSyncEveryBytes (m_config s) \<noteq> 0 \<longrightarrow> m_unsyncedBytes s < cfgSyncEveryBytes (m_config s))"

lemma validateStoreConfig_iff:
  "validateStoreConfig c \<longleftrightarrow> kFrameSize \<le> cfgMaxSegmentBytes c \<and> kFrameSize dvd cfgMaxSegmentBytes c \<and>
     cfgSyncEveryBytes c \<le> cfgMaxSegmentBytes c"
  by (auto simp: validateStoreConfig_def dvd_eq_mod_eq_0)

lemma dvd_minus_rem: "kFrameSize dvd n - n mod kFrameSize"
  by (simp add: dvd_minus_mod)

lemma recoveryCalls_folds [simp]:
  "foldl sizeStep x (recoveryCalls n) = n - n mod kFrameSize"
  "foldl dirtyStep d (recoveryCalls n) = (if n mod kFrameSize \<noteq> 0 then 0 else d)"
  "writtenBytes (recoveryCalls n) = []" "protocolFrom w l x d (recoveryCalls n)"
  by (simp_all add: recoveryCalls_def)

lemma openCalls_folds [simp]:
  "foldl sizeStep x (openCalls name b n) = n - n mod kFrameSize"
  "foldl dirtyStep d (openCalls name b n) = (if n mod kFrameSize \<noteq> 0 then 0 else d)"
  "writtenBytes (openCalls name b n) = []" "protocolFrom w l x d (openCalls name b n)"
  by (simp_all add: openCalls_def)

lemma rotationCalls_folds [simp]:
  "foldl sizeStep x (rotationCalls name a b n) = n - n mod kFrameSize"
  "foldl dirtyStep d (rotationCalls name a b n) = 0"
  "writtenBytes (rotationCalls name a b n) = []"
  "protocolFrom w l x d (rotationCalls name a b n) \<longleftrightarrow> l \<le> x \<and> kFrameSize dvd x"
  by (simp_all add: rotationCalls_def)

lemma rotated_storeInv: "rotated created n s s' \<Longrightarrow> storeInv s \<Longrightarrow> storeInv s'"
  by (auto simp: rotated_def storeInv_def sameStore_def dvd_minus_rem)

text \<open>
  A rotation of a full file, also one that fails on the way: the file is renamed only after it was
  synced.
\<close>

lemma rotate_rules:
  assumes "rotate s = Some (ok, s')" and "cfgMaxSegmentBytes (m_config s) \<le> m_currentSize s" and "kFrameSize dvd m_currentSize s"
  shows "m_config s' = m_config s \<and> (\<exists>cs. calls s' = calls s @ cs \<and> writtenBytes cs = [] \<and>
    protocolFrom w (cfgMaxSegmentBytes (m_config s)) (m_currentSize s) (m_unsyncedBytes s) cs)"
proof -
  have plain: ?thesis if "plainStep s s'"
    using that unfolding plainStep_def by (auto simp: writtenBytes_plain intro: protocolFrom_plain)
  have renamed: ?thesis if "calls t = calls s @ [Fdatasync, CloseFile, Rename x y]" "m_config t = m_config s" "plainStep t s'" for t x y
  proof -
    note t = that
    obtain cs where cs: "calls s' = calls t @ cs" "list_all plainCall cs" "m_config s' = m_config t"
      using t(3) by (auto simp: plainStep_def)
    show ?thesis
      using cs t(1,2) assms(2,3) protocolFrom_plain [OF cs(2)] writtenBytes_plain [OF cs(2)]
      by (intro conjI exI [of _ "[Fdatasync, CloseFile, Rename x y] @ cs"]) (auto simp: writtenBytes_def)
  qed
  show ?thesis
  proof (cases "m_fd s = -1")
    case True
    with assms(1) have "s' = s" by (simp add: rotate_def)
    then show ?thesis using plain plainStep_refl by simp
  next
    case fd: False
    then obtain ok1 s1 where s1: "sync s = Some (ok1, s1)" using assms(1) by (auto simp: rotate_def split: op_splits)
    note p1 = sync_plain [OF s1]
    show ?thesis
    proof (cases ok1)
      case False
      with assms(1) fd s1 have "s' = s1" by (auto simp: rotate_def)
      with plain p1 show ?thesis by simp
    next
      case True
      obtain a1 where e1: "s1 = s\<lparr>answers := a1, m_unsyncedBytes := 0, calls := calls s @ [Fdatasync]\<rparr>"
        using sync_True [of s s1] s1 True by auto
      obtain ok2 s2 where s2: "closeActiveFile s1 = Some (ok2, s2)"
        using assms(1) fd s1 True by (auto simp: rotate_def split: op_splits)
      note p2 = plainStep_trans [OF p1 closeActiveFile_plain [OF s2]]
      show ?thesis
      proof (cases ok2)
        case False
        with assms(1) fd s1 True s2 have "s' = s2" by (auto simp: rotate_def)
        with plain p2 show ?thesis by simp
      next
        case ok2: True
        obtain a2 where e2: "s2 = s1\<lparr>m_fd := -1, answers := a2, calls := calls s1 @ [CloseFile]\<rparr>"
          using closeActiveFile_True [of s1 s2] s2 ok2 fd e1 by auto
        obtain name s3 where s3: "makeArchiveName s2 = Some (name, s3)"
          using assms(1) fd s1 True s2 ok2 by (auto simp: rotate_def split: op_splits)
        have f3: "calls s3 = calls s @ [Fdatasync, CloseFile]" "m_config s3 = m_config s"
          using s3 e1 e2 by (auto simp: makeArchiveName_def op_simps split: op_splits)
        have p3: "plainStep s (s3\<lparr>answers := a\<rparr>)" for a
          by (rule plainStep_log [of _ _ "[Fdatasync, CloseFile]"]) (simp_all add: f3)
        show ?thesis
        proof (cases "name = []")
          case True
          with assms(1) fd s1 \<open>ok1\<close> s2 ok2 s3 have "s' = s3\<lparr>answers := answers s3\<rparr>" by (auto simp: rotate_def)
          with plain p3 show ?thesis by metis
        next
          case False
          with assms(1) fd s1 \<open>ok1\<close> s2 ok2 s3 obtain r rest where q: "a_renameat (answers s3) = r # rest"
            by (auto simp: rotate_def split: op_splits)
          let ?a = "(answers s3)\<lparr>a_renameat := rest\<rparr>"
          show ?thesis
          proof (cases r)
            case (Fail e)
            with assms(1) fd s1 \<open>ok1\<close> s2 ok2 s3 False q have "s' = s3\<lparr>answers := ?a\<rparr>" by (simp add: rotate_def Let_def)
            with plain p3 show ?thesis by simp
          next
            case (Ret u)
            let ?t = "s3\<lparr>answers := ?a, calls := calls s3 @ [Rename (m_fileName s3) name]\<rparr>"
            obtain ok5 s5 where s5: "syncDirectory ?t = Some (ok5, s5)"
              and rest: "(if \<not> ok5 then Some (False, s5) else openActiveFile (s5\<lparr>m_currentSize := 0, m_unsyncedBytes := 0\<rparr>)) = Some (ok, s')"
              using assms(1) fd s1 \<open>ok1\<close> s2 ok2 s3 False q Ret by (auto simp: rotate_def op_simps split: op_splits)
            have "plainStep ?t s5" by (rule syncDirectory_plain [OF s5])
            moreover have "plainStep (s5\<lparr>m_currentSize := 0, m_unsyncedBytes := 0\<rparr>) s' \<Longrightarrow> plainStep s5 s'"
              by (simp add: plainStep_def)
            ultimately have "plainStep ?t s'"
              using rest openActiveFile_plain plainStep_trans by (cases ok5) auto
            from renamed [OF _ _ this] f3 show ?thesis by simp
          qed
        qed
      qed
    qed
  qed
qed

lemma rotationCalls_singleWriter:
  "list_all singleWriter (rotationCalls name a created n) \<Longrightarrow> created \<and> n = 0"
  by (auto simp: rotationCalls_def openCalls_def recoveryCalls_def split: if_splits)


section \<open>One turn of the append loop\<close>

text \<open>
  A sequence of calls that writes \<open>todo\<close> and takes the counters from \<open>s\<close> to \<open>s'\<close> is the run of the
  frame-at-a-time behaviour on these frames.
\<close>

definition keepsCadence :: "bytes \<Rightarrow> storage \<Rightarrow> fsCall list \<Rightarrow> storage \<Rightarrow> bool" where
  "keepsCadence todo s cs s' \<longleftrightarrow>
     (\<forall>gs. frameCadence (m_config s) (m_currentSize s) (m_unsyncedBytes s) (chunks kFrameSize todo @ gs) =
        storeEvents cs @ frameCadence (m_config s') (m_currentSize s') (m_unsyncedBytes s') gs)"

lemma keepsCadence_refl: "keepsCadence [] s [] s"
  by (simp add: keepsCadence_def)

lemma keepsCadence_trans:
  assumes "keepsCadence xs s cs s1" and "keepsCadence ys s1 ds s'" and "kFrameSize dvd length xs"
    and "m_config s1 = m_config s" and "m_currentSize s1 = foldl sizeStep (m_currentSize s) cs"
    and "m_unsyncedBytes s1 = foldl dirtyStep (m_unsyncedBytes s) cs"
  shows "keepsCadence (xs @ ys) s (cs @ ds) s'"
  using assms by (simp add: keepsCadence_def chunks_append_dvd)

text \<open>Calls that precede the first frame.\<close>

lemma keepsCadence_before:
  assumes "\<And>gs. gs \<noteq> [] \<Longrightarrow> frameCadence (m_config s) (m_currentSize s) (m_unsyncedBytes s) gs =
          storeEvents cs @ frameCadence (m_config s) (m_currentSize s1) (m_unsyncedBytes s1) gs"
    and "keepsCadence ys s1 ds s'" and "kFrameSize \<le> length ys"
    and "m_config s1 = m_config s" and "m_currentSize s1 = foldl sizeStep (m_currentSize s) cs"
    and "m_unsyncedBytes s1 = foldl dirtyStep (m_unsyncedBytes s) cs"
  shows "keepsCadence ys s (cs @ ds) s'"
proof -
  have "chunks kFrameSize ys \<noteq> []" using chunks_step [OF kFrameSize_pos(1) assms(3)] by simp
  then show ?thesis using assms by (simp add: keepsCadence_def)
qed

text \<open>The first half of a turn, up to the choice of the chunk, seen from an open store.\<close>

lemma before_chunk:
  assumes "storeInv s"
    and "(if cfgMaxSegmentBytes (m_config s) \<le> m_currentSize s then rotate s else Some (True, s)) = Some (True, s1)"
  shows "storeInv s1" and "m_config s1 = m_config s"
    and "\<exists>cs. calls s1 = calls s @ cs \<and> writtenBytes cs = [] \<and>
      protocolFrom True (cfgMaxSegmentBytes (m_config s)) (m_currentSize s) (m_unsyncedBytes s) cs \<and>
      (list_all singleWriter cs \<longrightarrow> m_currentSize s1 < cfgMaxSegmentBytes (m_config s) \<and>
        (\<forall>gs. gs \<noteq> [] \<longrightarrow> frameCadence (m_config s) (m_currentSize s) (m_unsyncedBytes s) gs =
          storeEvents cs @ frameCadence (m_config s) (m_currentSize s1) (m_unsyncedBytes s1) gs))"
proof -
  have "storeInv s1 \<and> m_config s1 = m_config s \<and> (\<exists>cs. calls s1 = calls s @ cs \<and> writtenBytes cs = [] \<and>
      protocolFrom True (cfgMaxSegmentBytes (m_config s)) (m_currentSize s) (m_unsyncedBytes s) cs \<and>
      (list_all singleWriter cs \<longrightarrow> m_currentSize s1 < cfgMaxSegmentBytes (m_config s) \<and>
        (\<forall>gs. gs \<noteq> [] \<longrightarrow> frameCadence (m_config s) (m_currentSize s) (m_unsyncedBytes s) gs =
          storeEvents cs @ frameCadence (m_config s) (m_currentSize s1) (m_unsyncedBytes s1) gs)))"
  proof (cases "cfgMaxSegmentBytes (m_config s) \<le> m_currentSize s")
    case True
    with assms(2) obtain created n where rot: "rotated created n s s1" using rotate_True by fastforce
    then obtain sec nsec where cs: "calls s1 = calls s @ rotationCalls (m_fileName s)
        (archiveName (m_fileName s) sec nsec (m_rotationSequence s)) created n"
      by (auto simp: rotated_def)
    have pos: "0 < cfgMaxSegmentBytes (m_config s)"
      using assms(1) kFrameSize_pos(1) unfolding storeInv_def validateStoreConfig_iff by linarith
    have ev: "storeEvents (rotationCalls x y True 0) = [ESync, ERotate]" for x y
      by (simp add: rotationCalls_def openCalls_def recoveryCalls_def)
    have "m_currentSize s1 < cfgMaxSegmentBytes (m_config s)" if "n = 0"
      using rot that assms(1) kFrameSize_pos(1) unfolding storeInv_def validateStoreConfig_iff rotated_def
      by linarith
    then show ?thesis
      using rot cs True assms(1) rotated_storeInv [OF rot assms(1)] rotationCalls_singleWriter
        frameCadence_full [OF True pos] ev
      by (fastforce simp: rotated_def sameStore_def storeInv_def)
  next
    case False
    with assms have "s1 = s" by simp
    with False assms(1) show ?thesis by (intro conjI exI [of _ "[]"]) auto
  qed
  then show "storeInv s1" "m_config s1 = m_config s" "\<exists>cs. calls s1 = calls s @ cs \<and> writtenBytes cs = [] \<and>
      protocolFrom True (cfgMaxSegmentBytes (m_config s)) (m_currentSize s) (m_unsyncedBytes s) cs \<and>
      (list_all singleWriter cs \<longrightarrow> m_currentSize s1 < cfgMaxSegmentBytes (m_config s) \<and>
        (\<forall>gs. gs \<noteq> [] \<longrightarrow> frameCadence (m_config s) (m_currentSize s) (m_unsyncedBytes s) gs =
          storeEvents cs @ frameCadence (m_config s) (m_currentSize s1) (m_unsyncedBytes s1) gs))"
    by blast+
qed

lemma remaining_dvd: "storeInv s \<Longrightarrow> kFrameSize dvd sub64 (cfgMaxSegmentBytes (m_config s)) (m_currentSize s)"
proof -
  assume "storeInv s"
  then have "kFrameSize dvd cfgMaxSegmentBytes (m_config s)" "kFrameSize dvd m_currentSize s"
    by (auto simp: storeInv_def validateStoreConfig_iff)
  moreover have "kFrameSize dvd 2 ^ 64" by (simp add: kFrameSize_def)
  ultimately show ?thesis by (auto simp: sub64_def intro: dvd_diff_nat)
qed

text \<open>The chunk that an open store writes next.\<close>

definition nextChunk :: "bytes \<Rightarrow> nat \<Rightarrow> storage \<Rightarrow> nat" where
  "nextChunk frames offset s = chunkBytes (m_config s) (length frames - offset)
     (sub64 (cfgMaxSegmentBytes (m_config s)) (m_currentSize s)) (m_unsyncedBytes s)"

lemma nextChunk_bounds:
  assumes "storeInv s" and "kFrameSize dvd length frames" and "kFrameSize dvd offset"
  shows "nextChunk frames offset s \<le> length frames - offset" and "kFrameSize dvd nextChunk frames offset s"
    and "nextChunk frames offset s \<le> sub64 (cfgMaxSegmentBytes (m_config s)) (m_currentSize s)"
    and "m_currentSize s < cfgMaxSegmentBytes (m_config s) \<Longrightarrow> offset < length frames \<Longrightarrow> 0 < nextChunk frames offset s"
    and "cfgSyncEveryBytes (m_config s) \<noteq> 0 \<Longrightarrow>
      m_unsyncedBytes s + nextChunk frames offset s < cfgSyncEveryBytes (m_config s) + kFrameSize"
proof -
  have a: "kFrameSize dvd length frames - offset" using assms(2,3) by (rule dvd_diff_nat)
  have u: "cfgSyncEveryBytes (m_config s) \<noteq> 0 \<longrightarrow> m_unsyncedBytes s < cfgSyncEveryBytes (m_config s)"
    using assms(1) by (auto simp: storeInv_def)
  note b = chunkBytes_bounds [OF a remaining_dvd [OF assms(1)] u, folded nextChunk_def]
  show "nextChunk frames offset s \<le> length frames - offset" "kFrameSize dvd nextChunk frames offset s"
    "nextChunk frames offset s \<le> sub64 (cfgMaxSegmentBytes (m_config s)) (m_currentSize s)"
    "cfgSyncEveryBytes (m_config s) \<noteq> 0 \<Longrightarrow>
      m_unsyncedBytes s + nextChunk frames offset s < cfgSyncEveryBytes (m_config s) + kFrameSize"
    using b by auto
  show "0 < nextChunk frames offset s" if "m_currentSize s < cfgMaxSegmentBytes (m_config s)" "offset < length frames"
    using b(3) that by simp
qed

text \<open>A turn on an open store, without the branches that the invariant excludes.\<close>

lemma appendStep_open:
  assumes "storeInv s" and "kFrameSize dvd length frames" and "kFrameSize dvd offset" and "offset \<le> length frames"
  shows "appendStep frames offset s =
    do {
      (ok1, s1) \<leftarrow> (if cfgMaxSegmentBytes (m_config s) \<le> m_currentSize s then rotate s else Some (True, s));
      if \<not> ok1 then Some (False, offset, s1) else writeChunk frames offset (nextChunk frames offset s1) s1
    }"
proof (cases "if cfgMaxSegmentBytes (m_config s) \<le> m_currentSize s then rotate s else Some (True, s)")
  case None
  then show ?thesis by (simp add: appendStep_def)
next
  case (Some r)
  obtain ok1 s1 where r: "r = (ok1, s1)" by fastforce
  show ?thesis
  proof (cases ok1)
    case True
    have inv: "storeInv s1" using before_chunk(1) [OF assms(1)] Some r True by simp
    then have nosync: "\<not> (cfgSyncEveryBytes (m_config s1) \<noteq> 0 \<and> cfgSyncEveryBytes (m_config s1) \<le> m_unsyncedBytes s1)"
      by (auto simp: storeInv_def)
    have "\<not> length frames < offset + nextChunk frames offset s1"
      using nextChunk_bounds(1) [OF inv assms(2,3)] assms(4) by linarith
    then show ?thesis
      unfolding appendStep_def Some r using True nosync
      by (cases "cfgSyncEveryBytes (m_config s1) = 0") (simp_all add: nextChunk_def)
  qed (simp add: appendStep_def Some r)
qed


lemma activeSize_Wrote: "activeSize (cs @ map Wrote pieces) = activeSize cs + length (concat pieces)"
  by (simp add: activeSize_def)

text \<open>The frames of a chunk are one run.\<close>

lemma cadence_chunk:
  assumes "length xs = k" and "kFrameSize dvd k" and "0 < k"
    and "k \<le> cfgMaxSegmentBytes c - sz" and "sz < cfgMaxSegmentBytes c"
    and "cfgSyncEveryBytes c \<noteq> 0 \<Longrightarrow> d + k < cfgSyncEveryBytes c + kFrameSize"
  defines "due \<equiv> cfgSyncEveryBytes c \<noteq> 0 \<and> cfgSyncEveryBytes c \<le> d + k"
  shows "frameCadence c sz d (chunks kFrameSize xs @ gs) = map EByte xs @ (if due then [ESync] else []) @
    frameCadence c (sz + k) (if due then 0 else d + k) gs"
proof -
  have k: "kFrameSize * length (chunks kFrameSize xs) = k" using assms(1,2) by (simp add: length_chunks)
  have x: "concat (chunks kFrameSize xs) = xs" using assms(1,2) by (simp add: concat_chunks_whole)
  have ne: "chunks kFrameSize xs \<noteq> []" using k assms(3) by auto
  have fr: "\<forall>f \<in> set (chunks kFrameSize xs). length f = kFrameSize" using chunks_lengths [OF kFrameSize_pos(1)] by blast
  have fit: "sz + k \<le> cfgMaxSegmentBytes c" using assms(4,5) by linarith
  have iv: "cfgSyncEveryBytes c \<noteq> 0 \<longrightarrow> d + k < cfgSyncEveryBytes c + kFrameSize" using assms(6) by blast
  show ?thesis
    using frameCadence_run [OF ne fr, unfolded k, OF fit iv] unfolding x due_def .
qed

text \<open>The result of writing the next chunk of an open store.\<close>

text \<open>Whether the interval is reached after a chunk.\<close>

definition syncDue :: "storage \<Rightarrow> nat \<Rightarrow> bool" where
  "syncDue s k \<longleftrightarrow> cfgSyncEveryBytes (m_config s) \<noteq> 0 \<and> cfgSyncEveryBytes (m_config s) \<le> m_unsyncedBytes s + k"

lemma nextChunk_cadence:
  assumes "storeInv s" and "kFrameSize dvd length frames" and "kFrameSize dvd offset"
    and "m_currentSize s < cfgMaxSegmentBytes (m_config s)" and "offset < length frames"
  defines "k \<equiv> nextChunk frames offset s"
  shows "frameCadence (m_config s) (m_currentSize s) (m_unsyncedBytes s) (chunks kFrameSize (take k (drop offset frames)) @ gs) =
    map EByte (take k (drop offset frames)) @ (if syncDue s k then [ESync] else []) @
    frameCadence (m_config s) (m_currentSize s + k) (if syncDue s k then 0 else m_unsyncedBytes s + k) gs"
proof -
  note kb = nextChunk_bounds [OF assms(1-3), folded k_def]
  have "length (take k (drop offset frames)) = k" using kb(1) by simp
  then show ?thesis
    using cadence_chunk [of "take k (drop offset frames)" k "m_config s" "m_currentSize s" "m_unsyncedBytes s" gs] kb assms(4,5)
    unfolding syncDue_def by (metis less_imp_le sub64_le)
qed

lemma writeChunk_result:
  assumes "storeInv s" and "kFrameSize dvd length frames" and "kFrameSize dvd offset" and "offset \<le> length frames"
    and "writeChunk frames offset (nextChunk frames offset s) s = Some (ok, offset', s')"
  defines "k \<equiv> nextChunk frames offset s"
  shows "m_config s' = m_config s \<and> (\<exists>cs. calls s' = calls s @ cs \<and>
      (\<exists>rest. take k (drop offset frames) = writtenBytes cs @ rest \<and> (ok \<longrightarrow> rest = [])) \<and>
      protocolFrom (m_currentSize s < cfgMaxSegmentBytes (m_config s)) (cfgMaxSegmentBytes (m_config s))
        (m_currentSize s) (m_unsyncedBytes s) cs \<and>
      (ok \<longrightarrow> offset' = offset + k \<and> storeInv s' \<and>
        (m_currentSize s < cfgMaxSegmentBytes (m_config s) \<longrightarrow> offset < length frames \<longrightarrow>
          keepsCadence (take k (drop offset frames)) s cs s')))"
proof -
  note kb = nextChunk_bounds [OF assms(1-3), folded k_def]
  obtain w script pieces where w: "writeLoop (a_write (answers s)) (take k (drop offset frames)) = Some (w, script, pieces)"
    using assms(5) unfolding writeChunk_def k_def by (auto split: op_splits)
  from writeLoop_result [OF w] obtain rest where
    rest: "take k (drop offset frames) = concat pieces @ rest" "w \<longleftrightarrow> rest = []" by blast
  have "length (concat pieces) \<le> k" using rest(1) kb(1) by (metis add_leD1 length_append length_take min.bounded_iff order_refl)
  then have prot: "protocolFrom (m_currentSize s < cfgMaxSegmentBytes (m_config s)) (cfgMaxSegmentBytes (m_config s))
      (m_currentSize s) (m_unsyncedBytes s) (map Wrote pieces)"
    using kb(3) by (auto simp: protocolFrom_Wrote)
  define s2 where "s2 = s\<lparr>answers := (answers s)\<lparr>a_write := script\<rparr>, calls := calls s @ map Wrote pieces,
    m_currentSize := m_currentSize s + k, m_unsyncedBytes := m_unsyncedBytes s + k\<rparr>"
  show ?thesis
  proof (cases w)
    case False
    with assms(5) w have "\<not> ok" "m_config s' = m_config s" "calls s' = calls s @ map Wrote pieces"
      by (auto simp: writeChunk_def k_def)
    with rest prot show ?thesis by auto
  next
    case True
    with rest have pk: "concat pieces = take k (drop offset frames)" by simp
    then have lp: "length (concat pieces) = k" using kb(1) by simp
    note cadence = nextChunk_cadence [OF assms(1-3), folded k_def]
    have inv2: "m_fd s2 \<noteq> -1 \<and> m_directoryFd s2 \<noteq> -1 \<and> validateStoreConfig (m_config s2) \<and>
        kFrameSize dvd m_currentSize s2 \<and> m_currentSize s2 = activeSize (calls s2) \<and>
        m_unsyncedBytes s2 = dirtyBytes (calls s2)"
      using assms(1) kb(2) lp by (auto simp: s2_def storeInv_def)
    show ?thesis
    proof (cases "cfgSyncEveryBytes (m_config s2) \<noteq> 0 \<and> cfgSyncEveryBytes (m_config s2) \<le> m_unsyncedBytes s2")
      case sync: True
      then have st: "sync s2 = Some (ok, s')" "offset' = offset + k"
        using assms(5) w True by (auto simp: writeChunk_def k_def [symmetric] s2_def split: op_splits)
      show ?thesis
      proof (cases ok)
        case ok: True
        then obtain a where e: "s' = s2\<lparr>answers := a, m_unsyncedBytes := 0, calls := calls s2 @ [Fdatasync]\<rparr>"
          using sync_True [of s2 s'] st(1) ok by auto
        then have "storeInv s'" using inv2 sync by (auto simp: storeInv_def)
        moreover have "syncDue s k" using sync by (simp add: syncDue_def s2_def)
        ultimately show ?thesis using e st(2) pk prot cadence
          by (intro conjI exI [of _ "map Wrote pieces @ [Fdatasync]"]) (auto simp: s2_def keepsCadence_def)
      next
        case ok: False
        then obtain a where "s' = s2\<lparr>answers := a\<rparr>" using sync_False [of s2 s'] st(1) ok by auto
        with pk ok prot show ?thesis by (intro conjI exI [of _ "map Wrote pieces"]) (auto simp: s2_def)
      qed
    next
      case nosync: False
      then have st: "ok" "s' = s2" "offset' = offset + k"
        using assms(5) w True by (auto simp: writeChunk_def k_def [symmetric] s2_def split: op_splits)
      with inv2 nosync have "storeInv s'" by (auto simp: storeInv_def)
      moreover have "\<not> syncDue s k" using nosync by (simp add: syncDue_def s2_def)
      ultimately show ?thesis using st pk prot cadence
        by (intro conjI exI [of _ "map Wrote pieces"]) (auto simp: s2_def keepsCadence_def)
    qed
  qed
qed


section \<open>The append loop\<close>

text \<open>
  What an append leaves behind when it returns. \<open>cs\<close> are the calls it made: their writes are a
  prefix of the argument, and they keep the rules, the one for writes with a single writer; when
  the append succeeds, the writes are all of the argument, and the store is open and consistent.
\<close>

definition appended :: "bytes \<Rightarrow> storage \<Rightarrow> bool \<Rightarrow> storage \<Rightarrow> bool" where
  "appended todo s ok s' \<longleftrightarrow> m_config s' = m_config s \<and>
     (\<exists>cs rest. calls s' = calls s @ cs \<and> todo = writtenBytes cs @ rest \<and>
       protocolFrom (list_all singleWriter cs) (cfgMaxSegmentBytes (m_config s)) (m_currentSize s) (m_unsyncedBytes s) cs \<and>
       (ok \<longrightarrow> rest = [] \<and> storeInv s' \<and>
         (list_all singleWriter cs \<longrightarrow> keepsCadence todo s cs s')))"

lemma storeInv_fold:
  assumes "storeInv s" and "storeInv s'" and "calls s' = calls s @ cs"
  shows "m_currentSize s' = foldl sizeStep (m_currentSize s) cs"
    and "m_unsyncedBytes s' = foldl dirtyStep (m_unsyncedBytes s) cs"
  using assms by (auto simp: storeInv_def)

text \<open>A turn of the loop.\<close>

lemma appendStep_result:
  assumes "storeInv s" and "kFrameSize dvd length frames" and "kFrameSize dvd offset" and "offset < length frames"
    and "appendStep frames offset s = Some (ok, offset', s')"
  shows "\<exists>k \<le> length frames - offset. appended (take k (drop offset frames)) s ok s' \<and>
    (ok \<longrightarrow> offset' = offset + k \<and> kFrameSize dvd k)"
proof -
  let ?max = "cfgMaxSegmentBytes (m_config s)"
  have le: "offset \<le> length frames" using assms(4) by simp
  from assms(5) obtain ok1 s1 where
    r: "(if ?max \<le> m_currentSize s then rotate s else Some (True, s)) = Some (ok1, s1)"
    and w: "(if \<not> ok1 then Some (False, offset, s1)
             else writeChunk frames offset (nextChunk frames offset s1) s1) = Some (ok, offset', s')"
    unfolding appendStep_open [OF assms(1-3) le] by (auto split: Option.bind_split_asm)
  show ?thesis
  proof (cases ok1)
    case False
    with r have "rotate s = Some (False, s1)" "?max \<le> m_currentSize s" by (auto split: if_splits)
    from rotate_rules [OF this, of True] assms(1) obtain cs where cs: "m_config s1 = m_config s" "calls s1 = calls s @ cs"
      "writtenBytes cs = []" "protocolFrom True ?max (m_currentSize s) (m_unsyncedBytes s) cs" by (auto simp: storeInv_def)
    have "protocolFrom (list_all singleWriter cs) ?max (m_currentSize s) (m_unsyncedBytes s) cs"
      by (rule protocolFrom_mono [OF cs(4)]) simp
    with cs w False show ?thesis by (intro exI [of _ 0]) (auto simp: appended_def)
  next
    case True
    note b = before_chunk [OF assms(1) r [unfolded True[THEN eqTrueI]]]
    define k where "k = nextChunk frames offset s1"
    from w True have wc: "writeChunk frames offset (nextChunk frames offset s1) s1 = Some (ok, offset', s')" by simp
    note kb = nextChunk_bounds [OF b(1) assms(2,3), folded k_def]
    obtain cs1 where c1: "calls s1 = calls s @ cs1" "writtenBytes cs1 = []"
      "list_all singleWriter cs1 \<Longrightarrow> m_currentSize s1 < ?max"
      "protocolFrom True ?max (m_currentSize s) (m_unsyncedBytes s) cs1"
      "\<And>gs. list_all singleWriter cs1 \<Longrightarrow> gs \<noteq> [] \<Longrightarrow> frameCadence (m_config s) (m_currentSize s) (m_unsyncedBytes s) gs =
          storeEvents cs1 @ frameCadence (m_config s) (m_currentSize s1) (m_unsyncedBytes s1) gs"
      using b(3) by blast
    obtain cs2 rest where c2: "m_config s' = m_config s1" "calls s' = calls s1 @ cs2"
      "take k (drop offset frames) = writtenBytes cs2 @ rest" "ok \<longrightarrow> rest = []"
      "protocolFrom (m_currentSize s1 < ?max) ?max (m_currentSize s1) (m_unsyncedBytes s1) cs2"
      "ok \<longrightarrow> offset' = offset + k \<and> storeInv s' \<and> (m_currentSize s1 < ?max \<longrightarrow>
          keepsCadence (take k (drop offset frames)) s1 cs2 s')"
      using writeChunk_result [OF b(1) assms(2,3) le wc, folded k_def] assms(4) b(2) by auto
    note f = storeInv_fold [OF assms(1) b(1) c1(1)]
    have "keepsCadence (take k (drop offset frames)) s (cs1 @ cs2) s'" if sw: "list_all singleWriter cs1" and "ok"
    proof (rule keepsCadence_before [OF c1(5) [OF sw] _ _ b(2) f])
      have "0 < k" using kb(4) c1(3) [OF sw] assms(4) b(2) by simp
      then show "kFrameSize \<le> length (take k (drop offset frames))" using kb(1,2) dvd_imp_le by fastforce
    qed (use c2(6) c1(3) sw \<open>ok\<close> in auto)
    moreover have "protocolFrom (list_all singleWriter (cs1 @ cs2)) ?max (m_currentSize s) (m_unsyncedBytes s) (cs1 @ cs2)"
      using protocolFrom_mono [OF c1(4)] protocolFrom_mono [OF c2(5)] c1(3) unfolding f by simp
    ultimately have "appended (take k (drop offset frames)) s ok s'"
      unfolding appended_def using c1(1,2) c2 b(2)
      by (intro conjI exI [of _ "cs1 @ cs2"] exI [of _ rest]) auto
    with kb(1,2) c2(6) show ?thesis by blast
  qed
qed

lemma appended_trans:
  assumes "appended xs s True s1" and "appended ys s1 ok s'" and "storeInv s" and "kFrameSize dvd length xs"
  shows "appended (xs @ ys) s ok s'"
proof -
  from assms(1) obtain cs1 where 1: "m_config s1 = m_config s" "calls s1 = calls s @ cs1" "xs = writtenBytes cs1"
    "storeInv s1" "protocolFrom (list_all singleWriter cs1) (cfgMaxSegmentBytes (m_config s)) (m_currentSize s) (m_unsyncedBytes s) cs1"
    "list_all singleWriter cs1 \<longrightarrow> keepsCadence xs s cs1 s1"
    unfolding appended_def by auto
  note f = storeInv_fold [OF assms(3) 1(4) 1(2)]
  from assms(2) obtain cs2 rest where 2: "m_config s' = m_config s1" "calls s' = calls s1 @ cs2"
    "ys = writtenBytes cs2 @ rest"
    "protocolFrom (list_all singleWriter cs2) (cfgMaxSegmentBytes (m_config s)) (m_currentSize s1) (m_unsyncedBytes s1) cs2"
    "ok \<longrightarrow> rest = [] \<and> storeInv s' \<and> (list_all singleWriter cs2 \<longrightarrow> keepsCadence ys s1 cs2 s')"
    unfolding appended_def 1(1) by auto
  have "keepsCadence (xs @ ys) s (cs1 @ cs2) s'" if "list_all singleWriter (cs1 @ cs2)" "ok"
    using keepsCadence_trans [OF _ _ assms(4) 1(1) f] 1(6) 2(5) that by auto
  moreover have "protocolFrom (list_all singleWriter (cs1 @ cs2)) (cfgMaxSegmentBytes (m_config s))
      (m_currentSize s) (m_unsyncedBytes s) (cs1 @ cs2)"
    using protocolFrom_mono [OF 1(5)] protocolFrom_mono [OF 2(4)] unfolding f by simp
  ultimately show ?thesis
    unfolding appended_def using 1(1-3) 2
    by (intro conjI exI [of _ "cs1 @ cs2"] exI [of _ rest]) auto
qed

lemma appended_weaken: "appended xs s False s' \<Longrightarrow> appended (xs @ ys) s False s'"
  by (auto simp: appended_def)

lemma appendLoop_result:
  assumes "appendLoop frames offset s = Some r"
    and "storeInv s" and "kFrameSize dvd length frames" and "kFrameSize dvd offset" and "offset \<le> length frames"
  shows "appended (drop offset frames) s (fst r) (snd r)"
proof -
  define P where "P frames offset s r \<longleftrightarrow> (storeInv s \<longrightarrow> kFrameSize dvd length frames \<longrightarrow> kFrameSize dvd offset \<longrightarrow>
      offset \<le> length frames \<longrightarrow> appended (drop offset frames) s (fst r) (snd r))" for frames offset s and r :: "bool \<times> storage"
  have "P frames offset s r"
  proof (rule appendLoop.raw_induct [OF _ assms(1)])
    fix loop frames offset s and r :: "bool \<times> storage"
    assume IH: "\<And>frames offset s r. loop frames offset s = Some r \<Longrightarrow> P frames offset s r"
      and body: "(if offset < length frames
        then case appendStep frames offset s of None \<Rightarrow> None
             | Some (ok, offset', s') \<Rightarrow> if ok then loop frames offset' s' else Some (False, s')
        else Some (True, s)) = Some r"
    show "P frames offset s r"
      unfolding P_def
    proof (intro impI)
      assume inv: "storeInv s" and dv: "kFrameSize dvd length frames" "kFrameSize dvd offset"
        and le: "offset \<le> length frames"
      show "appended (drop offset frames) s (fst r) (snd r)"
      proof (cases "offset < length frames")
        case False
        then show ?thesis using body inv keepsCadence_refl by (auto simp: appended_def)
      next
        case True
        then obtain ok offset' s1 where st: "appendStep frames offset s = Some (ok, offset', s1)"
          and rest: "(if ok then loop frames offset' s1 else Some (False, s1)) = Some r"
          using body by (auto split: option.splits)
        obtain k where k: "k \<le> length frames - offset" "appended (take k (drop offset frames)) s ok s1"
          "ok \<longrightarrow> offset' = offset + k \<and> kFrameSize dvd k"
          using appendStep_result [OF inv dv True st] by blast
        have split: "drop offset frames = take k (drop offset frames) @ drop (offset + k) frames"
          by (simp add: add.commute flip: drop_drop)
        show ?thesis
        proof (cases ok)
          case True
          have "storeInv s1" using k(2) True by (auto simp: appended_def)
          moreover have "P frames offset' s1 r" using IH rest True by simp
          ultimately have "appended (drop offset' frames) s1 (fst r) (snd r)"
            using True k dv le by (auto simp: P_def)
          with k True inv show ?thesis by (subst split) (auto intro: appended_trans)
        next
          case False
          with rest k(2) show ?thesis by (subst split) (auto intro: appended_weaken)
        qed
      qed
    qed
  qed
  with assms show ?thesis by (simp add: P_def)
qed


lemma appendFrames_result:
  assumes "storeInv s" and "appendFrames frames s = Some (ok, s')"
  shows "appended frames s ok s'" and "ok \<Longrightarrow> frames \<noteq> [] \<and> kFrameSize dvd length frames"
proof -
  have "appended frames s ok s' \<and> (ok \<longrightarrow> frames \<noteq> [] \<and> kFrameSize dvd length frames)"
  proof (cases "frames = [] \<or> length frames mod kFrameSize \<noteq> 0")
    case True
    with assms have "\<not> ok" "s' = s" by (auto simp: appendFrames_def storeInv_def)
    then show ?thesis by (auto simp: appended_def intro: exI [of _ "[]"])
  next
    case False
    with assms have "appendLoop frames 0 s = Some (ok, s')" by (auto simp: appendFrames_def storeInv_def)
    from appendLoop_result [OF this assms(1)] False show ?thesis by (auto simp: dvd_eq_mod_eq_0)
  qed
  then show "appended frames s ok s'" "ok \<Longrightarrow> frames \<noteq> [] \<and> kFrameSize dvd length frames" by auto
qed


section \<open>The store interface\<close>

text \<open>
  What a user of the store relies on: an append adds a prefix of its argument, all of it when it
  succeeds; a sync adds nothing and leaves nothing unsynced.
\<close>

locale frame_store =
  fixes invar :: "'s \<Rightarrow> bool" and written :: "'s \<Rightarrow> 'b list" and clean :: "'s \<Rightarrow> bool"
    and append :: "'b list \<Rightarrow> 's \<Rightarrow> (bool \<times> 's) option" and flush :: "'s \<Rightarrow> (bool \<times> 's) option"
  assumes append_result: "invar s \<Longrightarrow> append xs s = Some (ok, s') \<Longrightarrow>
      \<exists>rest. written s @ xs = written s' @ rest \<and> (ok \<longrightarrow> rest = [] \<and> invar s') \<and> (\<exists>ys. written s' = written s @ ys)"
    and flush_result: "invar s \<Longrightarrow> flush s = Some (ok, s') \<Longrightarrow>
      written s' = written s \<and> (ok \<longrightarrow> clean s' \<and> invar s')"
begin

lemma append_ok: "invar s \<Longrightarrow> append xs s = Some (True, s') \<Longrightarrow> invar s' \<and> written s' = written s @ xs"
  using append_result by fastforce

lemma append_prefix: "invar s \<Longrightarrow> append xs s = Some (ok, s') \<Longrightarrow> \<exists>rest. written s @ xs = written s' @ rest"
  using append_result by blast

lemma append_extends: "invar s \<Longrightarrow> append xs s = Some (ok, s') \<Longrightarrow> \<exists>ys. written s' = written s @ ys"
  using append_result by blast

end

text \<open>The bytes appended since the store was made, and whether they are all synced.\<close>

definition storedBytes :: "storage \<Rightarrow> bytes" where
  "storedBytes s = writtenBytes (calls s)"

definition storeClean :: "storage \<Rightarrow> bool" where
  "storeClean s \<longleftrightarrow> dirtyBytes (calls s) = 0 \<and> calls s \<noteq> [] \<and> last (calls s) = Fdatasync"

lemma sync_storeInv: "storeInv s \<Longrightarrow> sync s = Some (True, s') \<Longrightarrow> storeInv s' \<and> storeClean s'"
  by (auto simp: storeInv_def storeClean_def dest!: sync_True)

interpretation store: frame_store storeInv storedBytes storeClean appendFrames sync
proof unfold_locales
  fix s xs ok s'
  assume "storeInv s" "appendFrames xs s = Some (ok, s')"
  from appendFrames_result(1) [OF this] obtain cs rest where
    "calls s' = calls s @ cs" "xs = writtenBytes cs @ rest" "ok \<longrightarrow> rest = [] \<and> storeInv s'"
    unfolding appended_def by blast
  then show "\<exists>rest. storedBytes s @ xs = storedBytes s' @ rest \<and> (ok \<longrightarrow> rest = [] \<and> storeInv s') \<and>
      (\<exists>ys. storedBytes s' = storedBytes s @ ys)"
    by (auto simp: storedBytes_def)
next
  fix s ok s'
  assume inv: "storeInv s" and sy: "sync s = Some (ok, s')"
  have "storedBytes s' = storedBytes s"
    using sync_quiet [OF sy] by (auto simp: quietStep_def storedBytes_def)
  with sync_storeInv [OF inv] sy show "storedBytes s' = storedBytes s \<and> (ok \<longrightarrow> storeClean s' \<and> storeInv s')"
    by (cases ok) auto
qed


section \<open>An append returns when the kernel does\<close>

text \<open>
  A kernel that does its work for \<open>n\<close> more turns: a retried call may be interrupted any number
  of times but has enough other answers, and none of them is an error; a rotation finds the path
  free and creates an empty file. Writes may be partial.
\<close>

definition kernelWorks :: "nat \<Rightarrow> storageAnswers \<Rightarrow> bool" where
  "kernelWorks n a \<longleftrightarrow>
     enough n (\<lambda>w. 0 < w) (a_write a) \<and> enough (2 * n) (\<lambda>_. True) (a_fdatasync a) \<and>
     enough (2 * n) (\<lambda>_. True) (a_fsync a) \<and> steady n (\<lambda>_. True) (a_close a) \<and>
     steady n (\<lambda>_. True) (a_clock a) \<and> steady n (\<lambda>_. True) (a_renameat a) \<and>
     steady n (\<lambda>_. True) (a_openat a) \<and> steady n (\<lambda>(reg, sz). reg \<and> sz = 0) (a_fstat a)"

lemma sync_works:
  assumes "enough n P (a_fdatasync (answers s))" and "0 < n" and "m_fd s \<noteq> -1"
  obtains rest where "sync s = Some (True, s\<lparr>answers := (answers s)\<lparr>a_fdatasync := rest\<rparr>,
      m_unsyncedBytes := 0, calls := calls s @ [Fdatasync]\<rparr>)" and "enough (n - 1) P rest"
  using fdatasync.supplied [OF assms(1,2)] assms(3) that by (auto simp: sync_def op_simps)

lemma syncDirectory_works:
  assumes "enough n P (a_fsync (answers s))" and "0 < n" and "m_directoryFd s \<noteq> -1"
  obtains rest where "syncDirectory s = Some (True, s\<lparr>answers := (answers s)\<lparr>a_fsync := rest\<rparr>,
      calls := calls s @ [FsyncDirectory]\<rparr>)" and "enough (n - 1) P rest"
  using fsync.supplied [OF assms(1,2)] assms(3) that by (auto simp: syncDirectory_def op_simps)

lemma writeLoop_works:
  assumes "enough n (\<lambda>w. 0 < w) script" and "length todo \<le> n"
  shows "\<exists>script' pieces. writeLoop script todo = Some (True, script', pieces) \<and>
    enough (n - length todo) (\<lambda>w. 0 < w) script'"
  using assms
proof (induction script todo arbitrary: n rule: writeLoop.induct)
  case (2 r script todo)
  show ?case
  proof (cases "todo = []")
    case True
    with 2 show ?thesis by simp
  next
    case False
    show ?thesis
    proof (cases r)
      case (Ret w)
      then have w: "0 < w" "enough (n - 1) (\<lambda>w. 0 < w) script" using 2(3) by auto
      let ?k = "min w (length todo)"
      have k: "0 < ?k" using w False by simp
      have sub: "length (drop ?k todo) \<le> n - ?k" "n - ?k \<le> n - 1" using 2(4) k by (simp, linarith)
      from 2(1) [OF False Ret refl k enough_mono [OF w(2) sub(2)] sub(1)] obtain script' pieces where
        "writeLoop script (drop ?k todo) = Some (True, script', pieces)"
        "enough (n - ?k - length (drop ?k todo)) (\<lambda>w. 0 < w) script'" by blast
      moreover have "n - ?k - length (drop ?k todo) = n - length todo" by simp
      ultimately show ?thesis using Ret False k by (simp add: Let_def)
    next
      case (Fail e)
      with 2 False show ?thesis by simp
    qed
  qed
qed auto

text \<open>What a successful rotation leaves of the answers.\<close>

lemma rotate_works:
  assumes "kernelWorks n (answers s)" and "0 < n" and "m_fd s \<noteq> -1" and "m_directoryFd s \<noteq> -1"
  shows "\<exists>s'. rotate s = Some (True, s') \<and> m_currentSize s' = 0 \<and>
    enough n (\<lambda>w. 0 < w) (a_write (answers s')) \<and>
    enough (2 * n - 1) (\<lambda>_. True) (a_fdatasync (answers s')) \<and>
    enough (2 * n - 2) (\<lambda>_. True) (a_fsync (answers s')) \<and>
    steady (n - 1) (\<lambda>_. True) (a_close (answers s')) \<and> steady (n - 1) (\<lambda>_. True) (a_clock (answers s')) \<and>
    steady (n - 1) (\<lambda>_. True) (a_renameat (answers s')) \<and> steady (n - 1) (\<lambda>_. True) (a_openat (answers s')) \<and>
    steady (n - 1) (\<lambda>(reg, sz). reg \<and> sz = 0) (a_fstat (answers s'))"
proof -
  note k = assms(1) [unfolded kernelWorks_def]
  obtain d where d: "fdatasyncLoop (a_fdatasync (answers s)) = Some (True, d)" "enough (2 * n - 1) (\<lambda>_. True) d"
    using fdatasync.supplied [of "2 * n"] k assms(2) by fastforce
  obtain f where f: "fsyncLoop (a_fsync (answers s)) = Some (True, f)" "enough (2 * n - 1) (\<lambda>_. True) f"
    using fsync.supplied [of "2 * n"] k assms(2) by fastforce
  have pos: "0 < 2 * n - 1" using assms(2) by simp
  obtain f' where f': "fsyncLoop f = Some (True, f')" "enough (2 * n - 2) (\<lambda>_. True) f'"
    using fsync.supplied [OF f(2) pos] by (auto simp: numeral_2_eq_2)
  obtain c cr where c: "a_close (answers s) = Ret c # cr" "steady (n - 1) (\<lambda>_. True) cr"
    using k assms(2) by (auto elim: steady_next)
  obtain t tr where t: "a_clock (answers s) = Ret t # tr" "steady (n - 1) (\<lambda>_. True) tr"
    using k assms(2) by (auto elim: steady_next)
  obtain r rr where r: "a_renameat (answers s) = Ret r # rr" "steady (n - 1) (\<lambda>_. True) rr"
    using k assms(2) by (auto elim: steady_next)
  obtain p pr where p: "a_openat (answers s) = Ret p # pr" "steady (n - 1) (\<lambda>_. True) pr"
    using k assms(2) by (auto elim: steady_next)
  have st: "steady n (\<lambda>(reg, sz). reg \<and> sz = 0) (a_fstat (answers s))" using k by blast
  obtain z zr where z: "a_fstat (answers s) = Ret z # zr" "z = (True, 0)" "steady (n - 1) (\<lambda>(reg, sz). reg \<and> sz = 0) zr"
    by (rule steady_next [OF st assms(2)]) auto
  show ?thesis
    using k d f f' c t r p z assms(3,4)
    by (cases t) (simp add: rotate_def sync_def closeActiveFile_def makeArchiveName_def archiveName_def
        syncDirectory_def openActiveFile_def recoverPartialFrame_def op_simps)
qed

text \<open>Half a turn and a whole turn with a kernel that works.\<close>

lemma before_chunk_works:
  assumes "storeInv s" and "kernelWorks n (answers s)" and "0 < n"
  shows "\<exists>s1. (if cfgMaxSegmentBytes (m_config s) \<le> m_currentSize s then rotate s else Some (True, s)) = Some (True, s1) \<and>
    m_currentSize s1 < cfgMaxSegmentBytes (m_config s) \<and>
    enough n (\<lambda>w. 0 < w) (a_write (answers s1)) \<and>
    enough (2 * n - 1) (\<lambda>_. True) (a_fdatasync (answers s1)) \<and>
    enough (2 * n - 2) (\<lambda>_. True) (a_fsync (answers s1)) \<and>
    steady (n - 1) (\<lambda>_. True) (a_close (answers s1)) \<and> steady (n - 1) (\<lambda>_. True) (a_clock (answers s1)) \<and>
    steady (n - 1) (\<lambda>_. True) (a_renameat (answers s1)) \<and> steady (n - 1) (\<lambda>_. True) (a_openat (answers s1)) \<and>
    steady (n - 1) (\<lambda>(reg, sz). reg \<and> sz = 0) (a_fstat (answers s1))"
proof (cases "cfgMaxSegmentBytes (m_config s) \<le> m_currentSize s")
  case True
  have "0 < cfgMaxSegmentBytes (m_config s)"
    using assms(1) kFrameSize_pos(1) unfolding storeInv_def validateStoreConfig_iff by linarith
  moreover have "m_fd s \<noteq> -1" "m_directoryFd s \<noteq> -1" using assms(1) by (auto simp: storeInv_def)
  ultimately show ?thesis using rotate_works [OF assms(2,3)] True by (auto simp: exI)
next
  case False
  then show ?thesis
    using assms(2) unfolding kernelWorks_def
    by (simp add: not_le) (blast intro: enough_mono steady_mono diff_le_self)
qed

lemma appendStep_works:
  assumes "storeInv s" and "kFrameSize dvd length frames" and "kFrameSize dvd offset" and "offset < length frames"
    and "length frames - offset \<le> n" and "kernelWorks n (answers s)"
  shows "\<exists>k s'. appendStep frames offset s = Some (True, offset + k, s') \<and> 0 < k \<and> k \<le> length frames - offset \<and>
    kernelWorks (n - k) (answers s')"
proof -
  have n: "0 < n" using assms(4,5) by simp
  have le: "offset \<le> length frames" using assms(4) by simp
  obtain s1 where
    r: "(if cfgMaxSegmentBytes (m_config s) \<le> m_currentSize s then rotate s else Some (True, s)) = Some (True, s1)"
    and sz: "m_currentSize s1 < cfgMaxSegmentBytes (m_config s)"
    and w: "enough n (\<lambda>w. 0 < w) (a_write (answers s1))"
    and d: "enough (2 * n - 1) (\<lambda>_. True) (a_fdatasync (answers s1))"
    and o: "enough (2 * n - 2) (\<lambda>_. True) (a_fsync (answers s1))"
      "steady (n - 1) (\<lambda>_. True) (a_close (answers s1))" "steady (n - 1) (\<lambda>_. True) (a_clock (answers s1))"
      "steady (n - 1) (\<lambda>_. True) (a_renameat (answers s1))" "steady (n - 1) (\<lambda>_. True) (a_openat (answers s1))"
      "steady (n - 1) (\<lambda>(reg, sz). reg \<and> sz = 0) (a_fstat (answers s1))"
    using before_chunk_works [OF assms(1,6) n] by blast
  note b = before_chunk [OF assms(1) r]
  define k where "k = nextChunk frames offset s1"
  note kb = nextChunk_bounds [OF b(1) assms(2,3), folded k_def]
  have k: "0 < k" using kb(4) sz assms(4) b(2) by simp
  obtain script pieces where wl: "writeLoop (a_write (answers s1)) (take k (drop offset frames)) = Some (True, script, pieces)"
    "enough (n - k) (\<lambda>w. 0 < w) script"
    using writeLoop_works [OF w, of "take k (drop offset frames)"] kb(1) assms(5) by auto
  define s2 where "s2 = s1\<lparr>answers := (answers s1)\<lparr>a_write := script\<rparr>, calls := calls s1 @ map Wrote pieces,
    m_currentSize := m_currentSize s1 + k, m_unsyncedBytes := m_unsyncedBytes s1 + k\<rparr>"
  have d2: "enough (2 * n - 1) (\<lambda>_. True) (a_fdatasync (answers s2))" "m_fd s2 \<noteq> -1" "0 < 2 * n - 1"
    using d b(1) n by (auto simp: s2_def storeInv_def)
  have le': "2 * (n - k) \<le> 2 * n - 1 - 1" "2 * (n - k) \<le> 2 * n - 2" "n - k \<le> n - 1" using k by auto
  have "\<exists>s'. writeChunk frames offset k s1 = Some (True, offset + k, s') \<and> kernelWorks (n - k) (answers s')"
  proof (cases "cfgSyncEveryBytes (m_config s2) \<noteq> 0 \<and> cfgSyncEveryBytes (m_config s2) \<le> m_unsyncedBytes s2")
    case True
    obtain rest where y: "sync s2 = Some (True, s2\<lparr>answers := (answers s2)\<lparr>a_fdatasync := rest\<rparr>,
        m_unsyncedBytes := 0, calls := calls s2 @ [Fdatasync]\<rparr>)" "enough (2 * n - 1 - 1) (\<lambda>_. True) rest"
      by (rule sync_works [OF d2(1,3,2)])
    then show ?thesis
      using True wl o le' enough_mono [OF y(2) le'(1)] enough_mono [OF o(1) le'(2)]
      by (auto simp: writeChunk_def s2_def kernelWorks_def intro: steady_mono)
  next
    case False
    then show ?thesis
      using wl o le' enough_mono [OF d] enough_mono [OF o(1) le'(2)]
      by (auto simp: writeChunk_def s2_def kernelWorks_def intro: steady_mono)
  qed
  then show ?thesis
    using r k kb(1) unfolding appendStep_open [OF assms(1-3) le] by (auto simp: k_def)
qed

lemma appendLoop_works:
  assumes "storeInv s" and "kFrameSize dvd length frames" and "kFrameSize dvd offset" and "offset \<le> length frames"
    and "length frames - offset \<le> n" and "kernelWorks n (answers s)"
  shows "\<exists>s'. appendLoop frames offset s = Some (True, s') \<and> kernelWorks (n - (length frames - offset)) (answers s')"
  using assms
proof (induction "length frames - offset" arbitrary: offset s n rule: less_induct)
  case less
  show ?case
  proof (cases "offset < length frames")
    case True
    obtain k s1 where st: "appendStep frames offset s = Some (True, offset + k, s1)" "0 < k"
      "k \<le> length frames - offset" "kernelWorks (n - k) (answers s1)"
      using appendStep_works [OF less.prems(1-3) True less.prems(5,6)] by blast
    have inv: "storeInv s1" "kFrameSize dvd offset + k"
      using appendStep_result [OF less.prems(1-3) True st(1)] less.prems(3) by (auto simp: appended_def)
    have lt: "length frames - (offset + k) < length frames - offset" "offset + k \<le> length frames"
      "length frames - (offset + k) \<le> n - k" "n - k - (length frames - (offset + k)) = n - (length frames - offset)"
      using st(2,3) True less.prems(5) by auto
    from less.hyps [OF lt(1) inv(1) less.prems(2) inv(2) lt(2,3) st(4)] show ?thesis
      using True st(1) lt(4) by (simp add: appendLoop.simps [of frames offset s])
  next
    case False
    then show ?thesis using less.prems(6) by (simp add: appendLoop.simps)
  qed
qed

lemma appendFrames_works:
  assumes "storeInv s" and "frames \<noteq> []" and "kFrameSize dvd length frames"
    and "length frames \<le> n" and "kernelWorks n (answers s)"
  shows "\<exists>s'. appendFrames frames s = Some (True, s') \<and> kernelWorks (n - length frames) (answers s')"
  using appendLoop_works [OF assms(1,3), of 0 n] assms by (auto simp: appendFrames_def storeInv_def dvd_eq_mod_eq_0)


section \<open>Opening\<close>

lemma openDirectory_True:
  "openDirectory path s = Some (True, s') \<Longrightarrow>
   pathFilename path \<noteq> [] \<and> m_directoryFd s' \<noteq> -1 \<and> m_config s' = m_config s \<and> m_fd s' = m_fd s \<and>
   m_fileName s' = pathFilename path \<and> m_unsyncedBytes s' = m_unsyncedBytes s \<and>
   calls s' = calls s @ [OpenDirectory (if pathParent path = [] then ''.'' else pathParent path)]"
  by (auto simp: openDirectory_def op_simps split: op_splits)

lemma openFile_True:
  assumes "openFile path (newStore c a) = Some (True, s')"
  shows "\<exists>created n. storeInv s' \<and> m_config s' = c \<and> m_currentSize s' = n - n mod kFrameSize \<and>
    calls s' = OpenDirectory (if pathParent path = [] then ''.'' else pathParent path) #
      openCalls (pathFilename path) created n"
proof -
  from assms obtain s1 where d: "openDirectory path (newStore c a) = Some (True, s1)"
    and o: "openActiveFile s1 = Some (True, s')" and v: "validateStoreConfig c"
    by (auto simp: openFile_def newStore_def split: op_splits)
  note d' = openDirectory_True [OF d]
  obtain created n where op: "opened created n s1 s'" using openActiveFile_True [OF o] by blast
  have "storeInv s'"
    using d' op v by (auto simp: storeInv_def opened_def sameStore_def newStore_def activeSize_def
        dirtyBytes_def dvd_minus_rem)
  with d' op show ?thesis
    by (intro exI [of _ created] exI [of _ n]) (auto simp: opened_def sameStore_def newStore_def)
qed


section \<open>Archive names\<close>

lemma dot_split:
  assumes "xs @ ''.'' @ ys = xs' @ ''.'' @ ys'" and "CHR ''.'' \<notin> set ys" and "CHR ''.'' \<notin> set ys'"
  shows "xs = xs' \<and> ys = ys'"
proof -
  have t: "takeWhile (\<lambda>c. c \<noteq> CHR ''.'') (rev (as @ ''.'' @ bs)) = rev bs" if "CHR ''.'' \<notin> set bs" for as bs
    using that by (auto simp: takeWhile_append)
  have "rev ys = rev ys'" using assms t [of ys xs] t [of ys' xs'] by metis
  with assms(1) show ?thesis by simp
qed

lemma is_digit_not_dot: "\<not> is_digit (CHR ''.'')" "\<not> is_digit (CHR ''-'')"
  by (simp_all add: is_digit_def)

lemma dec_string_no_dot: "CHR ''.'' \<notin> set (dec_string n)"
  using dec_string_digits is_digit_not_dot(1) by blast

lemma int_string_no_dot: "CHR ''.'' \<notin> set (int_string i)"
  using dec_string_no_dot by (auto simp: int_string_def)

lemma int_string_inject: "int_string i = int_string j \<longleftrightarrow> i = j"
proof -
  have m: "dec_string n \<noteq> CHR ''-'' # t" for n t
    using dec_string_digits [of n] is_digit_not_dot(2) by auto
  show ?thesis using m m [symmetric] by (auto simp: int_string_def nat_eq_iff)
qed

lemma archiveName_inject:
  "archiveName f sec nsec q = archiveName f sec' nsec' q' \<longleftrightarrow> sec = sec' \<and> nsec = nsec' \<and> q = q'"
proof
  assume "archiveName f sec nsec q = archiveName f sec' nsec' q'"
  then have "(((int_string sec @ ''.'' @ int_string nsec) @ ''.'' @ dec_string q) @ ''.segment'') =
     (((int_string sec' @ ''.'' @ int_string nsec') @ ''.'' @ dec_string q') @ ''.segment'')"
    by (simp add: archiveName_def)
  then have "(int_string sec @ ''.'' @ int_string nsec) @ ''.'' @ dec_string q =
     (int_string sec' @ ''.'' @ int_string nsec') @ ''.'' @ dec_string q'"
    by (rule append_same_eq [THEN iffD1])
  from dot_split [OF this dec_string_no_dot dec_string_no_dot]
  have 1: "int_string sec @ ''.'' @ int_string nsec = int_string sec' @ ''.'' @ int_string nsec'" "q = q'"
    by simp_all
  from dot_split [OF 1(1) int_string_no_dot int_string_no_dot] 1(2)
  show "sec = sec' \<and> nsec = nsec' \<and> q = q'" by (simp add: int_string_inject)
qed simp

lemma archiveName_nonempty [simp]: "archiveName f sec nsec q \<noteq> []"
  by (simp add: archiveName_def)


section \<open>Properties\<close>

text \<open>A store on a full file of two frames, and a kernel that answers for one frame.\<close>

definition sampleAnswers :: storageAnswers where
  "sampleAnswers = \<lparr>a_open = [], a_openat = [Ret 5], a_fstat = [Ret (True, 0)], a_ftruncate = [],
     a_write = [Ret 20, Fail EINTR, Ret 32], a_fdatasync = [Ret (), Fail EINTR, Ret ()], a_fsync = [Ret (), Ret ()],
     a_renameat = [Ret ()], a_clock = [Ret (7, 8)], a_close = [Ret ()]\<rparr>"

definition sampleStore :: storage where
  "sampleStore = \<lparr>m_config = \<lparr>cfgMaxSegmentBytes = 64, cfgSyncEveryBytes = 20\<rparr>, m_fd = 3, m_directoryFd = 4,
     m_directoryPath = ''.'', m_fileName = ''a'', m_currentSize = 64, m_unsyncedBytes = 0, m_rotationSequence = 0,
     answers = sampleAnswers, calls = [OpenDirectory ''.'', OpenExisting ''a'', Fstat 64]\<rparr>"

lemma sampleStore_inv: "storeInv sampleStore"
  by (simp add: storeInv_def sampleStore_def validateStoreConfig_def kFrameSize_def activeSize_def dirtyBytes_def)

lemma sampleStore_append:
  defines "f \<equiv> replicate 32 (1 :: byte)"
  shows "\<exists>s'. appendFrames f sampleStore = Some (True, s') \<and>
    calls s' = calls sampleStore @ rotationCalls ''a'' (archiveName ''a'' 7 8 0) True 0 @
      [Wrote (take 20 f), Wrote (drop 20 f), Fdatasync]"
  by (simp add: f_def appendFrames_def appendLoop.simps appendStep_def rotate_def sync_def closeActiveFile_def
      makeArchiveName_def syncDirectory_def openActiveFile_def recoverPartialFrame_def op_simps
      writeChunk_def chunkBytes_def kFrameSize_def sampleStore_def sampleAnswers_def rotationCalls_def
      openCalls_def recoveryCalls_def numeral_2_eq_2)

text \<open>C6: \<open>appendFrames\<close> appends, in order and without gaps or repetitions, a prefix of the bytes it
  was given, whatever partial writes, interruptions, rotations and errors occur on the way. When it
  reports success the prefix is all of them and the store is open and consistent with its files.
  A batch that is empty or not a whole number of frames is refused without any effect.\<close>

theorem appendFrames_content:
  assumes "storeInv s" and "appendFrames frames s = Some (ok, s')"
  shows "\<exists>cs rest. calls s' = calls s @ cs \<and> frames = writtenBytes cs @ rest \<and>
    (ok \<longrightarrow> rest = [] \<and> storeInv s') \<and>
    (frames = [] \<or> length frames mod kFrameSize \<noteq> 0 \<longrightarrow> \<not> ok \<and> s' = s)"
proof -
  have "\<not> ok \<and> s' = s" if "frames = [] \<or> length frames mod kFrameSize \<noteq> 0"
    using that assms by (auto simp: appendFrames_def storeInv_def)
  with appendFrames_result(1) [OF assms] show ?thesis unfolding appended_def by blast
qed

theorem appendFrames_content_witness:
  "\<exists>cs s'. appendFrames (replicate 32 1) sampleStore = Some (True, s') \<and> calls s' = calls sampleStore @ cs \<and>
     writtenBytes cs = replicate 32 1 \<and> storeInv s'"
proof -
  obtain s' where a: "appendFrames (replicate 32 1) sampleStore = Some (True, s')"
    using sampleStore_append by blast
  from appendFrames_content [OF sampleStore_inv a] a show ?thesis by auto
qed

text \<open>C7: the batched append behaves like appending one frame at a time. As long as nobody else
  creates the file at the active path, a successful append produces exactly the bytes, syncs and
  rotations that the frame-at-a-time behaviour prescribes, and in the same order: a full file is
  synced and rotated before the next frame, and a file is synced at the first frame that reaches
  the interval.\<close>

theorem appendFrames_cadence:
  assumes "storeInv s" and "appendFrames frames s = Some (True, s')"
    and "calls s' = calls s @ cs" and "list_all singleWriter cs"
  shows "storeEvents cs =
    frameCadence (m_config s) (m_currentSize s) (m_unsyncedBytes s) (chunks kFrameSize frames)"
proof -
  have "keepsCadence frames s cs s'"
    using appendFrames_result(1) [OF assms(1,2)] assms(3,4) by (auto simp: appended_def)
  then have "frameCadence (m_config s) (m_currentSize s) (m_unsyncedBytes s) (chunks kFrameSize frames @ []) =
      storeEvents cs @ frameCadence (m_config s') (m_currentSize s') (m_unsyncedBytes s') []"
    unfolding keepsCadence_def by blast
  then show ?thesis by simp
qed

theorem appendFrames_cadence_witness:
  "\<exists>cs s'. appendFrames (replicate 32 1) sampleStore = Some (True, s') \<and> calls s' = calls sampleStore @ cs \<and>
     storeEvents cs = frameCadence (m_config sampleStore) 64 0 (chunks kFrameSize (replicate 32 1))"
proof -
  let ?f = "replicate 32 (1 :: byte)"
  let ?cs = "rotationCalls ''a'' (archiveName ''a'' 7 8 0) True 0 @ [Wrote (take 20 ?f), Wrote (drop 20 ?f), Fdatasync]"
  obtain s' where a: "appendFrames ?f sampleStore = Some (True, s')" "calls s' = calls sampleStore @ ?cs"
    using sampleStore_append by blast
  have "list_all singleWriter ?cs"
    by (simp add: rotationCalls_def openCalls_def recoveryCalls_def)
  from appendFrames_cadence [OF sampleStore_inv a this] a show ?thesis
    by (intro exI [of _ ?cs] exI [of _ s']) (simp add: sampleStore_def)
qed

text \<open>C8: on every path of an append to an open store, failing ones included, a file is archived only
  when it is full, ends on a frame boundary and everything in it is synced: this is checked call by
  call on all the calls that the append made until it returned, with success or with a failed
  rotation, sync or write. As long as nobody else creates the file at the active path, every write
  moreover keeps the active file within \<open>maxSegmentBytes\<close>.\<close>

theorem appendFrames_segments:
  assumes "storeInv s" and "appendFrames frames s = Some (ok, s')" and "calls s' = calls s @ cs"
  shows "protocolFrom (list_all singleWriter cs) (cfgMaxSegmentBytes (m_config s)) (m_currentSize s) (m_unsyncedBytes s) cs"
  using appendFrames_result(1) [OF assms(1,2)] assms(3) by (auto simp: appended_def)

text \<open>The rotation fails after the rename, when the new file cannot be created.\<close>

theorem appendFrames_segments_witness:
  "\<exists>cs s'. appendFrames (replicate 32 1) (sampleStore\<lparr>answers := sampleAnswers\<lparr>a_openat := [Fail (EOTHER 13)]\<rparr>\<rparr>) = Some (False, s') \<and>
     calls s' = calls sampleStore @ cs \<and> protocolFrom True 64 64 0 cs \<and> Rename ''a'' (archiveName ''a'' 7 8 0) \<in> set cs"
proof -
  let ?s = "sampleStore\<lparr>answers := sampleAnswers\<lparr>a_openat := [Fail (EOTHER 13)]\<rparr>\<rparr>"
  let ?cs = "[Fdatasync, CloseFile, Rename ''a'' (archiveName ''a'' 7 8 0), FsyncDirectory]"
  obtain s' where a: "appendFrames (replicate 32 1) ?s = Some (False, s')" "calls s' = calls ?s @ ?cs"
    by (simp add: appendFrames_def appendLoop.simps appendStep_def rotate_def sync_def closeActiveFile_def
      makeArchiveName_def syncDirectory_def openActiveFile_def op_simps kFrameSize_def sampleStore_def sampleAnswers_def numeral_2_eq_2)
  have "storeInv ?s"
    by (simp add: storeInv_def sampleStore_def validateStoreConfig_def kFrameSize_def activeSize_def dirtyBytes_def)
  from appendFrames_segments [OF this a] a show ?thesis
    by (intro exI [of _ ?cs] exI [of _ s']) (simp add: sampleStore_def)
qed

text \<open>C29: \<open>appendFrames\<close> returns with success when the kernel does its work: writes may be partial
  and calls may be interrupted, but each eventually completes.\<close>

theorem appendFrames_returns:
  assumes "storeInv s" and "frames \<noteq> []" and "kFrameSize dvd length frames"
    and "kernelWorks (length frames) (answers s)"
  shows "\<exists>s'. appendFrames frames s = Some (True, s')"
  using appendFrames_works [OF assms(1-3) order_refl assms(4)] by blast

theorem appendFrames_returns_witness:
  defines "a \<equiv> \<lparr>a_open = [], a_openat = replicate 32 (Ret 5), a_fstat = replicate 32 (Ret (True, 0)), a_ftruncate = [],
     a_write = Fail EINTR # replicate 32 (Ret 1), a_fdatasync = replicate 64 (Ret ()), a_fsync = replicate 64 (Ret ()),
     a_renameat = replicate 32 (Ret ()), a_clock = replicate 32 (Ret (7, 8)), a_close = replicate 32 (Ret ())\<rparr>"
  shows "\<exists>s'. appendFrames (replicate 32 1) (sampleStore\<lparr>answers := a\<rparr>) = Some (True, s')"
proof (rule appendFrames_returns)
  show "storeInv (sampleStore\<lparr>answers := a\<rparr>)" using sampleStore_inv by (auto simp: storeInv_def)
  show "kernelWorks (length (replicate 32 (1 :: byte))) (answers (sampleStore\<lparr>answers := a\<rparr>))"
    by (simp add: kernelWorks_def a_def steady_def numeral_eq_Suc)
qed (simp_all add: kFrameSize_def)

text \<open>C30: opening a fresh store recovers the file: after success the active file is a whole number
  of frames, the partial frame that a crash left was cut off and the cut made durable before
  anything is appended, a file that had to be created is made durable in its directory first, and
  the store's counters agree with the file.\<close>

theorem openFile_recovers:
  assumes "openFile path (newStore c a) = Some (True, s')"
  shows "\<exists>created n. storeInv s' \<and> m_currentSize s' = n - n mod kFrameSize \<and>
    calls s' =
      [OpenDirectory (if pathParent path = [] then ''.'' else pathParent path)] @
      (if created then [CreateFile (pathFilename path), FsyncDirectory] else [OpenExisting (pathFilename path)]) @
      [Fstat n] @ (if n mod kFrameSize \<noteq> 0 then [Ftruncate (n - n mod kFrameSize), Fdatasync] else [])"
  using openFile_True [OF assms] by (auto simp: openCalls_def recoveryCalls_def)

theorem openFile_recovers_witness:
  defines "a \<equiv> \<lparr>a_open = [Ret 4], a_openat = [Fail EEXIST, Ret 5], a_fstat = [Ret (True, 70)], a_ftruncate = [Ret ()],
     a_write = [], a_fdatasync = [Fail EINTR, Ret ()], a_fsync = [], a_renameat = [], a_clock = [], a_close = []\<rparr>"
  shows "\<exists>s' created. openFile ''d/a'' (newStore \<lparr>cfgMaxSegmentBytes = 64, cfgSyncEveryBytes = 0\<rparr> a) = Some (True, s') \<and>
    storeInv s' \<and> calls s' = [OpenDirectory ''d'', OpenExisting ''a'', Fstat 70, Ftruncate 64, Fdatasync]"
proof -
  have "\<exists>s'. openFile ''d/a'' (newStore \<lparr>cfgMaxSegmentBytes = 64, cfgSyncEveryBytes = 0\<rparr> a) = Some (True, s') \<and>
      calls s' = [OpenDirectory ''d'', OpenExisting ''a'', Fstat 70, Ftruncate 64, Fdatasync]"
    by (simp add: openFile_def newStore_def validateStoreConfig_def kFrameSize_def openDirectory_def pathFilename_def
        pathParent_def op_simps a_def openActiveFile_def recoverPartialFrame_def sync_def)
  then show ?thesis using openFile_recovers by blast
qed

text \<open>C31: a successful rotation syncs the data before the file gets its archive name, syncs the
  directory after the rename, and only then opens the new active file; the archive carries the
  next sequence number.\<close>

theorem rotate_order:
  assumes "rotate s = Some (True, s')"
  shows "\<exists>sec nsec opening. calls s' = calls s @
      [Fdatasync, CloseFile, Rename (m_fileName s) (archiveName (m_fileName s) sec nsec (m_rotationSequence s)),
       FsyncDirectory] @ opening \<and> writtenBytes opening = [] \<and>
    m_rotationSequence s' = (m_rotationSequence s + 1) mod 2 ^ 64 \<and> m_fileName s' = m_fileName s \<and>
    kFrameSize dvd m_currentSize s' \<and> m_unsyncedBytes s' = 0 \<and> m_fd s' \<noteq> -1"
proof -
  obtain created n where "rotated created n s s'" using rotate_True [OF assms] by blast
  then obtain sec nsec where "calls s' = calls s @ rotationCalls (m_fileName s)
      (archiveName (m_fileName s) sec nsec (m_rotationSequence s)) created n" "sameStore s s'" "m_fd s' \<noteq> -1"
    "m_rotationSequence s' = (m_rotationSequence s + 1) mod 2 ^ 64" "m_currentSize s' = n - n mod kFrameSize"
    "m_unsyncedBytes s' = 0"
    unfolding rotated_def by blast
  then show ?thesis
    by (intro exI [of _ sec] exI [of _ nsec] exI [of _ "openCalls (m_fileName s) created n"])
      (simp add: rotationCalls_def sameStore_def dvd_minus_rem)
qed

theorem rotate_order_witness:
  "\<exists>s' opening. rotate sampleStore = Some (True, s') \<and> calls s' = calls sampleStore @
     [Fdatasync, CloseFile, Rename ''a'' (archiveName ''a'' 7 8 0), FsyncDirectory] @ opening \<and>
     m_rotationSequence s' = 1"
proof -
  have "\<exists>s'. rotate sampleStore = Some (True, s') \<and> calls s' = calls sampleStore @
      rotationCalls ''a'' (archiveName ''a'' 7 8 0) True 0"
    by (simp add: rotate_def sync_def closeActiveFile_def makeArchiveName_def syncDirectory_def openActiveFile_def
        recoverPartialFrame_def op_simps sampleStore_def sampleAnswers_def rotationCalls_def openCalls_def recoveryCalls_def)
  then show ?thesis using rotate_order by (fastforce simp: rotationCalls_def sampleStore_def)
qed

text \<open>Two archives of the same data file have different names unless they were rotated at the
  same instant with the same sequence number; the sequence number of a store advances with every
  rotation, so a rotation does not replace an archive that this store made before.\<close>

theorem archive_names_distinct:
  "archiveName f sec nsec q = archiveName f sec' nsec' q' \<longleftrightarrow> sec = sec' \<and> nsec = nsec' \<and> q = q'"
  by (rule archiveName_inject)

end
