(* ===== verification/Reader.thy ===== *)
theory Reader
  imports Ring FileStore
begin

text \<open>
  The reader process of \<open>Reader/src/Reader.cpp\<close>. The producer runs concurrently: \<open>rd_producer\<close>
  holds, for each access of the reader to the ring, what the producer does right before it, and
  \<open>rd_accepted\<close> records the frames that the ring took from it, and \<open>rd_log\<close> the calls that both
  made on the ring so far, as the reader sees them. \<open>rd_notify\<close> and \<open>rd_consume\<close> are
  the answers of the two event descriptors. An operation returns \<open>None\<close> when a call has no
  answer, which is the reader blocked in it, and where C++ would write outside an array.
\<close>

section \<open>Data\<close>

record readerConfig =
  rc_dataFilePath :: string
  rc_maxSegmentBytes :: nat
  rc_syncEveryBytes :: nat
  rc_quiet :: bool

definition writeBatchBytes :: nat where "writeBatchBytes = 64 * 1024"
definition ipcBatchBytes :: nat where "ipcBatchBytes = 4096"

record readerState =
  rd_store :: storage
  rd_batch :: bytes
  rd_batchBytes :: nat
  rd_ipcBatch :: bytes
  rd_ring :: sharedRing
  rd_producer :: "bytes qop list list"
  rd_accepted :: "bytes list"
  rd_log :: "bytes qop list"
  rd_notify :: "unit sysret list"
  rd_consume :: "u64 sysret list"
  rd_notified :: nat

text \<open>The producer's turn before an access to the ring.\<close>

definition producerActs :: "readerState \<Rightarrow> readerState" where
  "producerActs s =
     (case rd_producer s of
        [] \<Rightarrow> s
      | ops # later \<Rightarrow>
          (case qRun pushFrames popFrames closeProducer ops (rd_ring s) of
             (acc, _, ring) \<Rightarrow>
               s\<lparr>rd_producer := later, rd_ring := ring, rd_accepted := rd_accepted s @ acc,
                 rd_log := rd_log s @ ops\<rparr>))"


section \<open>Operations\<close>

definition flushBatch :: "readerState \<Rightarrow> (bool \<times> readerState) option" where
  "flushBatch s =
     (if rd_batchBytes s = 0 then Some (True, s)
      else do {
        (ok, st) \<leftarrow> appendFrames (take (rd_batchBytes s) (rd_batch s)) (rd_store s);
        Some (if ok then (True, s\<lparr>rd_store := st, rd_batchBytes := 0\<rparr>) else (False, s\<lparr>rd_store := st\<rparr>))
      })"

definition processFrame :: "bytes \<Rightarrow> readerState \<Rightarrow> (bool \<times> readerState) option" where
  "processFrame frame s =
     (if \<not> dr_ok (decode frame)
      then do {
        (_, s1) \<leftarrow> flushBatch s;
        Some (False, s1)
      }
      else if length (rd_batch s) < rd_batchBytes s + length frame then None
      else let s1 = s\<lparr>rd_batch := overwrite (rd_batch s) (rd_batchBytes s) frame,
                      rd_batchBytes := rd_batchBytes s + kFrameSize\<rparr>
           in if rd_batchBytes s1 = length (rd_batch s1) then flushBatch s1 else Some (True, s1))"

text \<open>The loop over the popped frames.\<close>

fun processFrames :: "bytes list \<Rightarrow> readerState \<Rightarrow> (bool \<times> readerState) option" where
  "processFrames [] s = Some (True, s)"
| "processFrames (f # fs) s =
     do {
       (ok, s1) \<leftarrow> processFrame f s;
       if ok then processFrames fs s1 else Some (False, s1)
     }"

definition poppedFrames :: "nat \<Rightarrow> bytes \<Rightarrow> bytes list" where
  "poppedFrames popped buf = map (\<lambda>index. take kFrameSize (drop (index * kFrameSize) buf)) [0..<popped]"

definition popBatch :: "readerState \<Rightarrow> nat \<times> readerState" where
  "popBatch s =
     (case tryPopBatch (rd_ipcBatch s) (rd_ring s) of
        (popped, buf, ring) \<Rightarrow> (popped, s\<lparr>rd_ipcBatch := buf, rd_ring := ring, rd_log := rd_log s @ [Deq popped]\<rparr>))"

text \<open>The inner loop; the result is the verdict, \<open>consumedAny\<close> and the state.\<close>

partial_function (option) drainRing :: "bool \<Rightarrow> readerState \<Rightarrow> (bool \<times> bool \<times> readerState) option" where
  "drainRing consumedAny s =
     (case popBatch (producerActs s) of
        (popped, s1) \<Rightarrow>
          if popped = 0 then Some (True, consumedAny, s1)
          else case processFrames (poppedFrames popped (rd_ipcBatch s1)) s1 of
                 None \<Rightarrow> None
               | Some (ok, s2) \<Rightarrow> if ok then drainRing True s2 else Some (False, True, s2))"

definition notifySpace :: "readerState \<Rightarrow> (bool \<times> readerState) option" where
  "notifySpace s =
     do {
       (ok, rest) \<leftarrow> notifyEvent (rd_notify s);
       Some (ok, s\<lparr>rd_notify := rest, rd_notified := rd_notified s + (if ok then 1 else 0)\<rparr>)
     }"

definition waitForData :: "readerState \<Rightarrow> (bool \<times> readerState) option" where
  "waitForData s =
     do {
       (ok, rest) \<leftarrow> consumeEvent (rd_consume s);
       Some (ok, s\<lparr>rd_consume := rest\<rparr>)
     }"

text \<open>\<open>ring.producerClosed() \<and> ring.empty()\<close>: two accesses, the second only after the first holds.\<close>

definition drainedAndClosed :: "readerState \<Rightarrow> bool \<times> readerState" where
  "drainedAndClosed s =
     (let s1 = producerActs s
      in if producerClosed (rd_ring s1)
         then let s2 = producerActs s1 in (ringEmpty (rd_ring s2), s2)
         else (False, s1))"

definition syncStore :: "readerState \<Rightarrow> (bool \<times> readerState) option" where
  "syncStore s =
     do {
       (ok, st) \<leftarrow> sync (rd_store s);
       Some (ok, s\<lparr>rd_store := st\<rparr>)
     }"

text \<open>
  One turn of the outer loop: \<open>Inl\<close> the exit code, or \<open>Inr\<close> to go around again. \<open>exitOrWait\<close> is
  its end, from the check for the exit on.
\<close>

definition exitOrWait :: "readerState \<Rightarrow> ((exitCode \<times> readerState) + readerState) option" where
  "exitOrWait s =
     (case drainedAndClosed s of
        (True, s1) \<Rightarrow> do {
          (synced, s2) \<leftarrow> syncStore s1;
          Some (Inl (if synced then EXIT_SUCCESS else EXIT_FAILURE, s2))
        }
      | (False, s1) \<Rightarrow> do {
          (woken, s2) \<leftarrow> waitForData s1;
          Some (if woken then Inr s2 else Inl (EXIT_FAILURE, s2))
        })"

definition readerTurn :: "readerState \<Rightarrow> ((exitCode \<times> readerState) + readerState) option" where
  "readerTurn s =
     do {
       (drained, consumedAny, s1) \<leftarrow> drainRing False s;
       if \<not> drained then Some (Inl (EXIT_FAILURE, s1)) else do {
         (flushed, s2) \<leftarrow> flushBatch s1;
         if \<not> flushed then Some (Inl (EXIT_FAILURE, s2)) else do {
           (notified, s3) \<leftarrow> (if consumedAny then notifySpace s2 else Some (True, s2));
           if \<not> notified then Some (Inl (EXIT_FAILURE, s3)) else exitOrWait s3
         }
       }
     }"

partial_function (option) readerLoop :: "readerState \<Rightarrow> (exitCode \<times> readerState) option" where
  "readerLoop s =
     (case readerTurn s of
        None \<Rightarrow> None
      | Some (Inl r) \<Rightarrow> Some r
      | Some (Inr s') \<Rightarrow> readerLoop s')"

definition newReader ::
    "sharedRing \<Rightarrow> storage \<Rightarrow> bytes qop list list \<Rightarrow> unit sysret list \<Rightarrow> u64 sysret list \<Rightarrow> readerState" where
  "newReader ring st producer notify consume =
     \<lparr>rd_store = st, rd_batch = replicate writeBatchBytes 0, rd_batchBytes = 0,
      rd_ipcBatch = replicate ipcBatchBytes 0, rd_ring = ring, rd_producer = producer,
      rd_accepted = ringFrames ring, rd_log = ringHistory ring, rd_notify = notify, rd_consume = consume, rd_notified = 0\<rparr>"

definition storeConfigOf :: "readerConfig \<Rightarrow> fileStoreConfig" where
  "storeConfigOf config =
     \<lparr>cfgMaxSegmentBytes = rc_maxSegmentBytes config, cfgSyncEveryBytes = rc_syncEveryBytes config\<rparr>"

definition runReader ::
    "readerConfig \<Rightarrow> storageAnswers \<Rightarrow> sharedRing \<Rightarrow> bytes qop list list \<Rightarrow> unit sysret list \<Rightarrow>
     u64 sysret list \<Rightarrow> (exitCode \<times> readerState) option" where
  "runReader config env ring producer notify consume =
     do {
       (ok, st) \<leftarrow> openFile (rc_dataFilePath config) (newStore (storeConfigOf config) env);
       if \<not> ok then Some (EXIT_FAILURE, newReader ring st producer notify consume)
       else readerLoop (newReader ring st producer notify consume)
     }"


section \<open>The producer's side\<close>

text \<open>What the producer may do: push whole frames and close.\<close>

fun producerOp :: "bytes qop \<Rightarrow> bool" where
  "producerOp (Enq fs) \<longleftrightarrow> list_all isFrame fs"
| "producerOp (Deq k) \<longleftrightarrow> False"
| "producerOp Close \<longleftrightarrow> True"

lemma producerOp_qopOk: "producerOp op \<Longrightarrow> qopOk isFrame op"
  by (cases op) auto

lemma producer_pops_nothing:
  "list_all producerOp ops \<Longrightarrow> qRun pushFrames popFrames closeProducer ops r = (acc, del, r') \<Longrightarrow> del = []"
proof (induction ops arbitrary: r acc del)
  case (Cons op ops)
  then show ?case by (cases op) (auto split: prod.splits)
qed simp

text \<open>The log accounts for what the ring accepted and holds.\<close>

definition logInv :: "readerState \<Rightarrow> bool" where
  "logInv s \<longleftrightarrow> length (ringFrames (rd_ring s)) \<le> length (rd_accepted s) \<and>
     history capacityFrames (rd_log s) =
       (rd_accepted s, length (rd_accepted s) - length (ringFrames (rd_ring s)), producerClosed (rd_ring s))"

lemma logInv_simps [simp]:
  "logInv (s\<lparr>rd_store := a\<rparr>) = logInv s" "logInv (s\<lparr>rd_batch := b\<rparr>) = logInv s" "logInv (s\<lparr>rd_batchBytes := c\<rparr>) = logInv s"
  "logInv (s\<lparr>rd_notify := d\<rparr>) = logInv s" "logInv (s\<lparr>rd_consume := e\<rparr>) = logInv s" "logInv (s\<lparr>rd_notified := f\<rparr>) = logInv s"
  by (simp_all add: logInv_def)

lemma producerActs_result:
  assumes "ringInv (rd_ring s)" and "list_all (list_all producerOp) (rd_producer s)"
  obtains acc ring where
    "producerActs s = s\<lparr>rd_producer := tl (rd_producer s), rd_ring := ring, rd_accepted := rd_accepted s @ acc,
       rd_log := rd_log (producerActs s)\<rparr>"
    and "ringInv ring" and "ringFrames ring = ringFrames (rd_ring s) @ acc"
    and "producerClosed (rd_ring s) \<Longrightarrow> acc = [] \<and> producerClosed ring"
    and "logInv s \<Longrightarrow> logInv (producerActs s)"
proof (cases "rd_producer s")
  case Nil
  then show ?thesis using that [of "[]" "rd_ring s"] assms(1) by (simp add: producerActs_def)
next
  case (Cons ops later)
  obtain acc del ring where q: "qRun pushFrames popFrames closeProducer ops (rd_ring s) = (acc, del, ring)"
    by (metis prod_cases3)
  have ok: "list_all producerOp ops" "list_all (qopOk isFrame) ops"
    using assms(2) Cons by (auto simp: list_all_iff producerOp_qopOk)
  have "del = []" using producer_pops_nothing [OF ok(1) q] .
  with ring.fifo [OF assms(1) ok(2) q] ring.closed_accepts_nothing [OF assms(1) _ ok(2) q]
  have "ringInv ring" "ringFrames ring = ringFrames (rd_ring s) @ acc"
    "producerClosed (rd_ring s) \<Longrightarrow> acc = [] \<and> producerClosed ring" by simp_all
  moreover have "logInv s \<Longrightarrow> logInv (producerActs s)"
    using ring.fifo_history [OF assms(1) ok(2) q, of "rd_accepted s"] Cons q
    by (simp add: logInv_def producerActs_def history_snoc)
  ultimately show ?thesis using that [of acc ring] Cons q by (simp add: producerActs_def)
qed


section \<open>Popped frames\<close>

lemma poppedFrames_concat:
  "\<forall>f \<in> set fs. isFrame f \<Longrightarrow> poppedFrames (length fs) (concat fs @ rest) = fs"
proof (induction fs)
  case (Cons f fs)
  have f: "length f = kFrameSize" using Cons.prems by (simp add: isFrame_def)
  have "poppedFrames (Suc (length fs)) (f @ concat fs @ rest) = f # poppedFrames (length fs) (concat fs @ rest)"
    unfolding poppedFrames_def using f
    by (simp add: upt_conv_Cons comp_def del: upt_Suc flip: map_Suc_upt)
  with Cons show ?case by simp
qed (simp add: poppedFrames_def)

lemma popBatch_result:
  assumes "ringInv (rd_ring s)" and "length (rd_ipcBatch s) = ipcBatchBytes" and "popBatch s = (popped, s1)"
  obtains buf ring where "s1 = s\<lparr>rd_ipcBatch := buf, rd_ring := ring, rd_log := rd_log s @ [Deq popped]\<rparr>" and "length buf = ipcBatchBytes"
    and "ringInv ring" and "producerClosed ring = producerClosed (rd_ring s)"
    and "popped = min (ipcBatchBytes div kFrameSize) (length (ringFrames (rd_ring s)))"
    and "poppedFrames popped buf = take popped (ringFrames (rd_ring s))"
    and "ringFrames ring = drop popped (ringFrames (rd_ring s))" and "logInv s \<Longrightarrow> logInv s1"
proof -
  have len: "length (rd_ipcBatch s) = (ipcBatchBytes div kFrameSize) * kFrameSize"
    using assms(2) by (simp add: ipcBatchBytes_def kFrameSize_def)
  obtain buf ring where t: "tryPopBatch (rd_ipcBatch s) (rd_ring s) = (popped, buf, ring)"
    and s1: "s1 = s\<lparr>rd_ipcBatch := buf, rd_ring := ring, rd_log := rd_log s @ [Deq popped]\<rparr>"
    using assms(3) by (auto simp: popBatch_def split: prod.splits)
  note p = tryPopBatch_spec [OF assms(1) len t]
  let ?fs = "take popped (ringFrames (rd_ring s))"
  have fs: "\<forall>f \<in> set ?fs. isFrame f" "length ?fs = popped"
    using ringFrames_frames in_set_takeD [of _ popped "ringFrames (rd_ring s)"] p by (blast, simp)
  have "popped \<le> ipcBatchBytes div kFrameSize" using p by simp
  then have "popped * kFrameSize \<le> length (rd_ipcBatch s)" unfolding len by (rule mult_le_mono1)
  then have buf: "length buf = ipcBatchBytes"
    using p length_concat_frames [OF fs(1)] fs(2) assms(2) by simp
  moreover have "poppedFrames popped buf = ?fs"
    using p poppedFrames_concat [OF fs(1)] fs(2) by metis
  moreover have "logInv s \<Longrightarrow> logInv s1"
    using p s1 by (auto simp: logInv_def history_snoc min_def)
  ultimately show ?thesis using that s1 p by blast
qed


section \<open>The invariant of the loop\<close>

text \<open>
  \<open>seen\<close> are the frames processed so far: they are valid, and they are the stored bytes followed
  by the batch in hand.
\<close>

definition readerInv :: "bytes list \<Rightarrow> readerState \<Rightarrow> bool" where
  "readerInv seen s \<longleftrightarrow> ringInv (rd_ring s) \<and> storeInv (rd_store s) \<and>
     length (rd_batch s) = writeBatchBytes \<and> length (rd_ipcBatch s) = ipcBatchBytes \<and>
     kFrameSize dvd rd_batchBytes s \<and> rd_batchBytes s \<le> writeBatchBytes \<and>
     list_all (list_all producerOp) (rd_producer s) \<and> list_all validFrame seen \<and> logInv s \<and>
     storedBytes (rd_store s) @ take (rd_batchBytes s) (rd_batch s) = concat seen"

definition sameEnv :: "readerState \<Rightarrow> readerState \<Rightarrow> bool" where
  "sameEnv s s' \<longleftrightarrow> rd_ring s' = rd_ring s \<and> rd_producer s' = rd_producer s \<and> rd_accepted s' = rd_accepted s \<and>
     rd_log s' = rd_log s \<and>
     rd_notify s' = rd_notify s \<and> rd_consume s' = rd_consume s"

text \<open>What the file holds is a prefix of \<open>fs\<close>.\<close>

definition storedPrefix :: "bytes list \<Rightarrow> readerState \<Rightarrow> bool" where
  "storedPrefix fs s \<longleftrightarrow> (\<exists>rest. concat fs = storedBytes (rd_store s) @ rest)"

lemma storedPrefix_append: "storedPrefix fs s \<Longrightarrow> storedPrefix (fs @ gs) s"
  by (auto simp: storedPrefix_def)

lemma readerInv_prefix: "readerInv seen s \<Longrightarrow> storedPrefix seen s"
  unfolding readerInv_def storedPrefix_def by metis

lemma flushBatch_True:
  assumes "readerInv seen s" and "flushBatch s = Some (True, s')"
  shows "readerInv seen s' \<and> sameEnv s s' \<and> rd_batchBytes s' = 0"
proof (cases "rd_batchBytes s = 0")
  case True
  with assms show ?thesis by (auto simp: flushBatch_def sameEnv_def)
next
  case False
  with assms(2) obtain st where "appendFrames (take (rd_batchBytes s) (rd_batch s)) (rd_store s) = Some (True, st)"
    and s': "s' = s\<lparr>rd_store := st, rd_batchBytes := 0\<rparr>"
    by (auto simp: flushBatch_def split: op_splits)
  then show ?thesis
    using assms(1) store.append_ok [of "rd_store s"] by (auto simp: readerInv_def sameEnv_def)
qed

lemma flushBatch_prefix:
  assumes "readerInv seen s" and "flushBatch s = Some (ok, s')"
  shows "storedPrefix seen s' \<and> sameEnv s s'"
proof (cases "rd_batchBytes s = 0")
  case True
  with assms show ?thesis by (auto simp: flushBatch_def sameEnv_def readerInv_prefix)
next
  case False
  with assms(2) obtain st where "appendFrames (take (rd_batchBytes s) (rd_batch s)) (rd_store s) = Some (ok, st)"
    and s': "rd_store s' = st" "sameEnv s s'"
    by (auto simp: flushBatch_def sameEnv_def split: op_splits)
  from store.append_prefix [OF _ this(1)] assms(1) s' show ?thesis
    by (auto simp: readerInv_def storedPrefix_def)
qed

lemma writeBatchBytes_frames: "kFrameSize dvd writeBatchBytes" "0 < writeBatchBytes"
  by (simp_all add: writeBatchBytes_def kFrameSize_def)

lemma room_for_frame:
  assumes "readerInv seen s" and "rd_batchBytes s < writeBatchBytes"
  shows "rd_batchBytes s + kFrameSize \<le> writeBatchBytes"
proof -
  have "kFrameSize dvd writeBatchBytes - rd_batchBytes s"
    using assms(1) writeBatchBytes_frames(1) by (auto simp: readerInv_def intro: dvd_diff_nat)
  then have "kFrameSize \<le> writeBatchBytes - rd_batchBytes s" using assms(2) by (simp add: dvd_imp_le)
  with assms(2) show ?thesis by linarith
qed

text \<open>A valid frame is copied behind the batch, which never leaves the array.\<close>

definition batched :: "bytes \<Rightarrow> readerState \<Rightarrow> readerState" where
  "batched f s = s\<lparr>rd_batch := overwrite (rd_batch s) (rd_batchBytes s) f,
     rd_batchBytes := rd_batchBytes s + kFrameSize\<rparr>"

lemma batched_inv:
  assumes "readerInv seen s" and "rd_batchBytes s < writeBatchBytes" and "validFrame f"
  shows "readerInv (seen @ [f]) (batched f s)" and "sameEnv s (batched f s)"
    and "length (rd_batch (batched f s)) = writeBatchBytes"
proof -
  have r: "rd_batchBytes s + kFrameSize \<le> writeBatchBytes" using room_for_frame [OF assms(1,2)] .
  have f: "length f = kFrameSize" using assms(3) by (simp add: validFrame_def isFrame_def)
  have t: "take (rd_batchBytes s + kFrameSize) (overwrite (rd_batch s) (rd_batchBytes s) f) =
      take (rd_batchBytes s) (rd_batch s) @ f"
    using r f assms(1) by (simp add: overwrite_def readerInv_def)
  show "length (rd_batch (batched f s)) = writeBatchBytes"
    using r f assms(1) by (simp add: batched_def readerInv_def)
  then show "readerInv (seen @ [f]) (batched f s)"
    using assms(1,3) r t by (auto simp: readerInv_def batched_def)
  show "sameEnv s (batched f s)" by (simp add: sameEnv_def batched_def)
qed

lemma processFrame_eq:
  assumes "readerInv seen s" and "rd_batchBytes s < writeBatchBytes" and "isFrame f"
  shows "processFrame f s =
    (if \<not> validFrame f then map_option (\<lambda>(_, s1). (False, s1)) (flushBatch s)
     else if rd_batchBytes (batched f s) = writeBatchBytes then flushBatch (batched f s)
     else Some (True, batched f s))"
proof -
  have r: "rd_batchBytes s + kFrameSize \<le> writeBatchBytes" using room_for_frame [OF assms(1,2)] .
  have l: "length (rd_batch s) = writeBatchBytes" "length f = kFrameSize"
    using assms by (auto simp: readerInv_def isFrame_def)
  show ?thesis
    using r l assms(3) batched_inv(3) [OF assms(1,2), of f]
    by (cases "flushBatch s") (auto simp: processFrame_def validFrame_def batched_def Let_def)
qed

lemma sameEnv_trans: "sameEnv s s1 \<Longrightarrow> sameEnv s1 s' \<Longrightarrow> sameEnv s s'"
  by (simp add: sameEnv_def)

lemma processFrame_result:
  assumes "readerInv seen s" and "rd_batchBytes s < writeBatchBytes" and "isFrame f"
    and "processFrame f s = Some (ok, s')"
  shows "sameEnv s s' \<and> storedPrefix (seen @ [f]) s' \<and>
    (ok \<longrightarrow> readerInv (seen @ [f]) s' \<and> rd_batchBytes s' < writeBatchBytes)"
proof (cases "validFrame f")
  case False
  with assms(4) obtain b where "flushBatch s = Some (b, s')" "\<not> ok"
    unfolding processFrame_eq [OF assms(1-3)] by auto
  with flushBatch_prefix [OF assms(1)] storedPrefix_append show ?thesis by blast
next
  case True
  note b = batched_inv [OF assms(1,2) True]
  show ?thesis
  proof (cases "rd_batchBytes (batched f s) = writeBatchBytes")
    case full: True
    with assms(4) True have fl: "flushBatch (batched f s) = Some (ok, s')"
      unfolding processFrame_eq [OF assms(1-3)] by simp
    from flushBatch_prefix [OF b(1) fl] sameEnv_trans [OF b(2)]
    have p: "storedPrefix (seen @ [f]) s'" "sameEnv s s'" by auto
    show ?thesis
    proof (cases ok)
      case True
      with flushBatch_True [OF b(1)] fl p writeBatchBytes_frames(2) show ?thesis by auto
    qed (use p in simp)
  next
    case False
    with assms(4) True have "ok" "s' = batched f s"
      unfolding processFrame_eq [OF assms(1-3)] by auto
    moreover have "rd_batchBytes (batched f s) \<le> writeBatchBytes" using b(1) by (simp add: readerInv_def)
    ultimately show ?thesis using b False readerInv_prefix by auto
  qed
qed

lemma processFrames_result:
  "readerInv seen s \<Longrightarrow> rd_batchBytes s < writeBatchBytes \<Longrightarrow> \<forall>f \<in> set fs. isFrame f \<Longrightarrow>
   processFrames fs s = Some (ok, s') \<Longrightarrow>
   sameEnv s s' \<and> storedPrefix (seen @ fs) s' \<and>
     (ok \<longrightarrow> readerInv (seen @ fs) s' \<and> rd_batchBytes s' < writeBatchBytes)"
proof (induction fs arbitrary: seen s)
  case Nil
  then show ?case by (auto simp: sameEnv_def readerInv_prefix)
next
  case (Cons f fs)
  from Cons.prems(4) obtain b s1 where p: "processFrame f s = Some (b, s1)"
    and rest: "(if b then processFrames fs s1 else Some (False, s1)) = Some (ok, s')"
    by (auto split: Option.bind_split_asm)
  have "isFrame f" using Cons.prems(3) by simp
  note r = processFrame_result [OF Cons.prems(1,2) this p]
  show ?case
  proof (cases b)
    case True
    with r rest Cons.IH [of "seen @ [f]" s1] Cons.prems(3) show ?thesis
      using sameEnv_trans by fastforce
  next
    case False
    with r rest storedPrefix_append [of "seen @ [f]" s1 fs] show ?thesis by auto
  qed
qed


section \<open>The loops\<close>

text \<open>
  The state between accesses to the ring: every accepted frame is either processed or queued, in
  order.
\<close>

definition readerOk :: "readerState \<Rightarrow> bool" where
  "readerOk s \<longleftrightarrow> (\<exists>seen. readerInv seen s \<and> rd_batchBytes s < writeBatchBytes \<and>
     rd_accepted s = seen @ ringFrames (rd_ring s))"

lemma producerActs_readerInv:
  assumes "readerInv seen s"
  shows "readerInv seen (producerActs s)" and "rd_batchBytes (producerActs s) = rd_batchBytes s"
    and "rd_accepted s = xs @ ringFrames (rd_ring s) \<Longrightarrow>
      rd_accepted (producerActs s) = xs @ ringFrames (rd_ring (producerActs s))"
    and "\<exists>acc. rd_accepted (producerActs s) = rd_accepted s @ acc"
    and "producerClosed (rd_ring s) \<Longrightarrow>
      producerClosed (rd_ring (producerActs s)) \<and> ringFrames (rd_ring (producerActs s)) = ringFrames (rd_ring s)"
    and "rd_store (producerActs s) = rd_store s"
proof -
  obtain acc ring where
    p: "producerActs s = s\<lparr>rd_producer := tl (rd_producer s), rd_ring := ring, rd_accepted := rd_accepted s @ acc,
         rd_log := rd_log (producerActs s)\<rparr>"
    "ringInv ring" "ringFrames ring = ringFrames (rd_ring s) @ acc"
    "producerClosed (rd_ring s) \<Longrightarrow> acc = [] \<and> producerClosed ring" and l: "logInv (producerActs s)"
    using assms by (auto simp: readerInv_def intro: producerActs_result [of s])
  show "readerInv seen (producerActs s)"
  proof -
    have f: "rd_ring (producerActs s) = ring" "rd_producer (producerActs s) = tl (rd_producer s)" "rd_store (producerActs s) = rd_store s"
      "rd_batch (producerActs s) = rd_batch s" "rd_batchBytes (producerActs s) = rd_batchBytes s" "rd_ipcBatch (producerActs s) = rd_ipcBatch s"
      by (subst p(1), simp)+
    show ?thesis using assms p(2) l unfolding readerInv_def f by (cases "rd_producer s") auto
  qed
  show "rd_batchBytes (producerActs s) = rd_batchBytes s" "\<exists>acc. rd_accepted (producerActs s) = rd_accepted s @ acc"
    "rd_store (producerActs s) = rd_store s"
    by (subst p(1), simp)+
  show "rd_accepted (producerActs s) = xs @ ringFrames (rd_ring (producerActs s))"
    if "rd_accepted s = xs @ ringFrames (rd_ring s)"
    using that p(3) by (subst p(1), subst p(1)) simp
  show "producerClosed (rd_ring (producerActs s)) \<and> ringFrames (rd_ring (producerActs s)) = ringFrames (rd_ring s)"
    if "producerClosed (rd_ring s)"
    using p(3,4) that by (subst (1 2) p(1)) simp
qed

lemma producerActs_readerOk: "readerOk s \<Longrightarrow> readerOk (producerActs s)"
  unfolding readerOk_def using producerActs_readerInv(1-3) by metis

text \<open>One pass of the inner loop.\<close>

lemma drainStep:
  assumes "readerOk s" and "popBatch (producerActs s) = (popped, s1)"
  shows "popped = 0 \<Longrightarrow> readerOk s1 \<and> ringFrames (rd_ring s1) = []"
    and "processFrames (poppedFrames popped (rd_ipcBatch s1)) s1 = Some (ok, s2) \<Longrightarrow>
      storedPrefix (rd_accepted s2) s2 \<and> (ok \<longrightarrow> readerOk s2)"
proof -
  obtain seen where i: "readerInv seen (producerActs s)" "rd_batchBytes (producerActs s) < writeBatchBytes"
    "rd_accepted (producerActs s) = seen @ ringFrames (rd_ring (producerActs s))"
    using producerActs_readerOk [OF assms(1)] by (auto simp: readerOk_def)
  have ri: "ringInv (rd_ring (producerActs s))" "length (rd_ipcBatch (producerActs s)) = ipcBatchBytes"
    using i(1) by (auto simp: readerInv_def)
  obtain buf ring where b: "s1 = (producerActs s)\<lparr>rd_ipcBatch := buf, rd_ring := ring,
      rd_log := rd_log (producerActs s) @ [Deq popped]\<rparr>" "length buf = ipcBatchBytes"
    "ringInv ring" "popped = min (ipcBatchBytes div kFrameSize) (length (ringFrames (rd_ring (producerActs s))))"
    "poppedFrames popped buf = take popped (ringFrames (rd_ring (producerActs s)))"
    "ringFrames ring = drop popped (ringFrames (rd_ring (producerActs s)))" and l: "logInv s1"
    using i(1) unfolding readerInv_def by (auto intro: popBatch_result [OF ri assms(2)])
  have inv: "readerInv seen s1" using i(1) b(2,3) l unfolding b(1) by (simp add: readerInv_def)
  have nz: "0 < ipcBatchBytes div kFrameSize" by (simp add: ipcBatchBytes_def kFrameSize_def)
  show "readerOk s1 \<and> ringFrames (rd_ring s1) = []" if z: "popped = 0"
  proof -
    have "ringFrames (rd_ring (producerActs s)) = []" using b(4) nz z by (simp add: min_def split: if_splits)
    then show ?thesis using z b(1,6) i inv by (auto simp: readerOk_def)
  qed
  assume p: "processFrames (poppedFrames popped (rd_ipcBatch s1)) s1 = Some (ok, s2)"
  let ?fs = "poppedFrames popped (rd_ipcBatch s1)"
  have fs: "?fs = take popped (ringFrames (rd_ring (producerActs s)))" using b(1,5) by simp
  have frames: "\<forall>f \<in> set ?fs. isFrame f" unfolding fs by (meson in_set_takeD ringFrames_frames)
  have lt: "rd_batchBytes s1 < writeBatchBytes" using b(1) i(2) by simp
  note r = processFrames_result [OF inv lt frames p]
  have "rd_accepted s2 = (seen @ ?fs) @ ringFrames (rd_ring s2)"
    using r i(3) b(1,6) unfolding fs by (simp add: sameEnv_def)
  then show "storedPrefix (rd_accepted s2) s2 \<and> (ok \<longrightarrow> readerOk s2)"
    using r storedPrefix_append unfolding readerOk_def by metis
qed

lemma drainRing_result:
  assumes "drainRing c s = Some r" and "readerOk s"
  shows "storedPrefix (rd_accepted (snd (snd r))) (snd (snd r)) \<and>
    (fst r \<longrightarrow> readerOk (snd (snd r)) \<and> ringFrames (rd_ring (snd (snd r))) = [])"
proof -
  define P where "P (c :: bool) s r \<longleftrightarrow> (readerOk s \<longrightarrow> storedPrefix (rd_accepted (snd (snd r))) (snd (snd r)) \<and>
    (fst r \<longrightarrow> readerOk (snd (snd r)) \<and> ringFrames (rd_ring (snd (snd r))) = []))"
    for c s and r :: "bool \<times> bool \<times> readerState"
  have "P c s r"
  proof (rule drainRing.raw_induct [OF _ assms(1)])
    fix loop c s and r :: "bool \<times> bool \<times> readerState"
    assume IH: "\<And>c s r. loop c s = Some r \<Longrightarrow> P c s r"
      and body: "(case popBatch (producerActs s) of (popped, s1) \<Rightarrow>
          if popped = 0 then Some (True, c, s1)
          else case processFrames (poppedFrames popped (rd_ipcBatch s1)) s1 of
                 None \<Rightarrow> None
               | Some (ok, s2) \<Rightarrow> if ok then loop True s2 else Some (False, True, s2)) = Some r"
    obtain popped s1 where pb: "popBatch (producerActs s) = (popped, s1)" by fastforce
    show "P c s r"
      unfolding P_def
    proof (intro impI)
      assume ok: "readerOk s"
      note d = drainStep [OF ok pb]
      show "storedPrefix (rd_accepted (snd (snd r))) (snd (snd r)) \<and>
          (fst r \<longrightarrow> readerOk (snd (snd r)) \<and> ringFrames (rd_ring (snd (snd r))) = [])"
      proof (cases "popped = 0")
        case True
        with body pb have "r = (True, c, s1)" by simp
        with d(1) [OF True] show ?thesis
          by (auto simp: readerOk_def intro: storedPrefix_append readerInv_prefix)
      next
        case False
        with body pb obtain b s2 where
          p: "processFrames (poppedFrames popped (rd_ipcBatch s1)) s1 = Some (b, s2)"
          and r: "(if b then loop True s2 else Some (False, True, s2)) = Some r"
          by (auto split: option.splits)
        show ?thesis
        proof (cases b)
          case True
          with IH r have "P True s2 r" by simp
          with d(2) [OF p] True show ?thesis by (simp add: P_def)
        next
          case False
          with d(2) [OF p] r show ?thesis by auto
        qed
      qed
    qed
  qed
  with assms(2) show ?thesis by (simp add: P_def)
qed

text \<open>What a turn of the outer loop, and the whole loop, guarantee.\<close>

definition readerDone :: "exitCode \<Rightarrow> readerState \<Rightarrow> bool" where
  "readerDone code s \<longleftrightarrow> storedPrefix (rd_accepted s) s \<and>
     (code = EXIT_SUCCESS \<longrightarrow> storedBytes (rd_store s) = concat (rd_accepted s) \<and>
        list_all validFrame (rd_accepted s) \<and> ringFrames (rd_ring s) = [] \<and> producerClosed (rd_ring s) \<and>
        logInv s \<and> storeInv (rd_store s) \<and> storeClean (rd_store s))"

lemma drainedAndClosed_result:
  assumes "readerInv seen s" and "rd_accepted s = seen @ ringFrames (rd_ring s)"
    and "drainedAndClosed s = (b, s')"
  shows "readerInv seen s' \<and> rd_accepted s' = seen @ ringFrames (rd_ring s') \<and> rd_batchBytes s' = rd_batchBytes s \<and>
    (b \<longrightarrow> ringFrames (rd_ring s') = [] \<and> producerClosed (rd_ring s'))"
proof -
  note a = producerActs_readerInv [OF assms(1)]
  note a' = producerActs_readerInv [OF a(1)]
  show ?thesis
    using assms(2,3) a(1,2) a(3) [OF assms(2)] a'(1,2) a'(3) [OF a(3) [OF assms(2)]] a'(5)
    by (auto simp: drainedAndClosed_def ringEmpty_def pendingFrames_eq Let_def split: if_splits)
qed

definition turnOk :: "(exitCode \<times> readerState) + readerState \<Rightarrow> bool" where
  "turnOk r \<longleftrightarrow> (case r of Inl (code, s) \<Rightarrow> readerDone code s | Inr s \<Rightarrow> readerOk s)"

lemma exitOrWait_result:
  assumes "readerInv seen s" and "rd_batchBytes s = 0" and "rd_accepted s = seen @ ringFrames (rd_ring s)"
    and "exitOrWait s = Some r"
  shows "turnOk r"
proof -
  obtain b s1 where dc: "drainedAndClosed s = (b, s1)" by fastforce
  note s1 = drainedAndClosed_result [OF assms(1,3) dc]
  have pre: "storedPrefix (rd_accepted s1) s1" using s1 readerInv_prefix storedPrefix_append by metis
  show ?thesis
  proof (cases b)
    case True
    with dc assms(4) obtain st y where y: "sync (rd_store s1) = Some (y, st)"
      and r: "r = Inl (if y then EXIT_SUCCESS else EXIT_FAILURE, s1\<lparr>rd_store := st\<rparr>)"
      by (auto simp: exitOrWait_def syncStore_def split: Option.bind_split_asm)
    have inv: "storeInv (rd_store s1)" using s1 by (simp add: readerInv_def)
    have full: "storedBytes (rd_store s1) = concat (rd_accepted s1)" "list_all validFrame (rd_accepted s1)"
      using s1 True assms(2) by (auto simp: readerInv_def)
    have log: "logInv (s1\<lparr>rd_store := st\<rparr>)" using s1 by (simp add: readerInv_def logInv_def)
    from store.flush_result [OF inv y] s1 True full log show ?thesis
      unfolding r turnOk_def by (cases y) (auto simp: readerDone_def storedPrefix_def)
  next
    case False
    with dc assms(4) obtain w rest where
      r: "r = (if w then Inr (s1\<lparr>rd_consume := rest\<rparr>) else Inl (EXIT_FAILURE, s1\<lparr>rd_consume := rest\<rparr>))"
      by (auto simp: exitOrWait_def waitForData_def split: Option.bind_split_asm)
    have "readerInv seen (s1\<lparr>rd_consume := rest\<rparr>)" using s1 by (auto simp: readerInv_def)
    moreover have "storedPrefix (rd_accepted s1) (s1\<lparr>rd_consume := rest\<rparr>)" using pre by (simp add: storedPrefix_def)
    ultimately show ?thesis
      unfolding r turnOk_def using s1 assms(2) writeBatchBytes_frames(2)
      by (auto simp: readerOk_def readerDone_def)
  qed
qed

lemma readerTurn_result:
  assumes "readerOk s" and "readerTurn s = Some r"
  shows "turnOk r"
proof -
  obtain ok c s1 where d: "drainRing False s = Some (ok, c, s1)"
    using assms(2) by (auto simp: readerTurn_def split: Option.bind_split_asm)
  note dr = drainRing_result [OF d assms(1), simplified]
  show ?thesis
  proof (cases ok)
    case False
    with assms(2) d dr show ?thesis by (auto simp: readerTurn_def readerDone_def turnOk_def)
  next
    case True
    with dr obtain seen where s1: "readerInv seen s1" "rd_accepted s1 = seen" "ringFrames (rd_ring s1) = []"
      by (auto simp: readerOk_def)
    obtain fl s2 where f: "flushBatch s1 = Some (fl, s2)"
      using assms(2) d True by (auto simp: readerTurn_def split: Option.bind_split_asm)
    note fp = flushBatch_prefix [OF s1(1) f]
    show ?thesis
    proof (cases fl)
      case False
      with assms(2) d True f fp s1(2) show ?thesis by (auto simp: readerTurn_def readerDone_def turnOk_def sameEnv_def)
    next
      case fl: True
      have s2: "readerInv seen s2" "rd_batchBytes s2 = 0" "rd_accepted s2 = seen" "ringFrames (rd_ring s2) = []"
        using flushBatch_True [OF s1(1)] f fl s1(2,3) by (auto simp: sameEnv_def)
      obtain n s3 where n: "(if c then notifySpace s2 else Some (True, s2)) = Some (n, s3)"
        using assms(2) d True f fl by (auto simp: readerTurn_def split: Option.bind_split_asm)
      have s3: "readerInv seen s3" "rd_batchBytes s3 = 0" "rd_accepted s3 = seen @ ringFrames (rd_ring s3)"
        using n s2 by (auto simp: notifySpace_def readerInv_def split: if_splits op_splits)
      have "(if n then exitOrWait s3 else Some (Inl (EXIT_FAILURE, s3))) = Some r"
        using assms(2) d True f fl n by (simp add: readerTurn_def split: if_splits)
      then show ?thesis
        using exitOrWait_result [OF s3] readerInv_prefix [OF s3(1)] s3(3)
        by (cases n) (auto simp: turnOk_def readerDone_def intro: storedPrefix_append)
    qed
  qed
qed

lemma readerLoop_result:
  assumes "readerLoop s = Some r" and "readerOk s"
  shows "readerDone (fst r) (snd r)"
proof -
  define P where "P s r \<longleftrightarrow> (readerOk s \<longrightarrow> readerDone (fst r) (snd r))" for s and r :: "exitCode \<times> readerState"
  have "P s r"
  proof (rule readerLoop.raw_induct [OF _ assms(1)])
    fix loop s and r :: "exitCode \<times> readerState"
    assume IH: "\<And>s r. loop s = Some r \<Longrightarrow> P s r"
      and body: "(case readerTurn s of None \<Rightarrow> None | Some (Inl r) \<Rightarrow> Some r | Some (Inr s') \<Rightarrow> loop s') = Some r"
    then obtain t where t: "readerTurn s = Some t" by (cases "readerTurn s") auto
    show "P s r"
      using readerTurn_result [OF _ t] body t IH by (cases t) (auto simp: P_def turnOk_def)
  qed
  with assms(2) show ?thesis by (simp add: P_def)
qed

lemma newReader_ok:
  assumes "openFile path (newStore c a) = Some (True, st)" and "ringInv ring"
    and "list_all (list_all producerOp) producer"
  shows "readerOk (newReader ring st producer notify consume)"
proof -
  have "storeInv st" "storedBytes st = []" using openFile_True [OF assms(1)] by (auto simp: storedBytes_def)
  then show ?thesis
    using assms(2,3) writeBatchBytes_frames(2) ringHistory_history [OF assms(2)]
    by (auto simp: readerOk_def readerInv_def newReader_def logInv_def intro: exI [of _ "[]"])
qed


section \<open>The reader finishes\<close>

text \<open>The frames that the producer still plans to push.\<close>

fun opFrames :: "bytes qop \<Rightarrow> bytes list" where
  "opFrames (Enq fs) = fs"
| "opFrames _ = []"

definition planned :: "bytes qop list list \<Rightarrow> bytes list" where
  "planned script = concat (map (\<lambda>ops. concat (map opFrames ops)) script)"

definition closes :: "readerState \<Rightarrow> bool" where
  "closes s \<longleftrightarrow> producerClosed (rd_ring s) \<or> (\<exists>ops \<in> set (rd_producer s). Close \<in> set ops)"

lemma qRun_accepts_subset:
  "qRun pushFrames popFrames closeProducer ops r = (acc, del, r') \<Longrightarrow>
   length acc \<le> length (concat (map opFrames ops)) \<and> set acc \<subseteq> set (concat (map opFrames ops))"
proof (induction ops arbitrary: r acc del)
  case (Cons op ops)
  show ?case
  proof (cases op)
    case (Enq xs)
    with Cons.prems obtain n q1 acc1 where
      "pushFrames xs r = (n, q1)" "qRun pushFrames popFrames closeProducer ops q1 = (acc1, del, r')" "acc = take n xs @ acc1"
      by (auto split: prod.splits)
    with Cons.IH Enq show ?thesis by (fastforce dest: in_set_takeD)
  qed (use Cons in \<open>auto split: prod.splits\<close>)
qed simp

lemma qRun_closes:
  "ringInv r \<Longrightarrow> list_all producerOp ops \<Longrightarrow> qRun pushFrames popFrames closeProducer ops r = (acc, del, r') \<Longrightarrow>
   Close \<in> set ops \<Longrightarrow> producerClosed r'"
proof (induction ops arbitrary: r acc del)
  case (Cons op ops)
  have ok: "list_all (qopOk isFrame) ops" using Cons.prems(2) by (auto simp: list_all_iff producerOp_qopOk)
  show ?case
  proof (cases op)
    case (Enq xs)
    then obtain n q1 acc1 where e: "pushFrames xs r = (n, q1)" "qRun pushFrames popFrames closeProducer ops q1 = (acc1, del, r')"
      using Cons.prems(3) by (auto split: prod.splits)
    have "ringInv q1" using ring.enq_step(2) [OF Cons.prems(1) _ e(1)] Cons.prems(2) Enq by simp
    with Cons.IH [OF _ _ e(2)] Cons.prems(2,4) Enq show ?thesis by simp
  next
    case Close
    with Cons.prems(3) have "qRun pushFrames popFrames closeProducer ops (closeProducer r) = (acc, del, r')" by simp
    then show ?thesis using ring.closed_accepts_nothing [OF _ _ ok] closeProducer_spec [OF Cons.prems(1)] by blast
  qed (use Cons.prems(2) in simp)
qed simp

text \<open>
  What is left to be stored, in bytes, and a reader that will be able to store it; \<open>v\<close> says
  whether the frames that are still to come are known to be valid.
\<close>

definition framesLeft :: "readerState \<Rightarrow> nat" where
  "framesLeft s = length (ringFrames (rd_ring s)) + length (planned (rd_producer s))"

definition readerLive :: "bool \<Rightarrow> nat \<Rightarrow> readerState \<Rightarrow> bool" where
  "readerLive v n s \<longleftrightarrow> readerOk s \<and> kernelWorks n (answers (rd_store s)) \<and>
     rd_batchBytes s + kFrameSize * framesLeft s < n \<and>
     (v \<longrightarrow> list_all validFrame (ringFrames (rd_ring s) @ planned (rd_producer s))) \<and> closes s"

text \<open>
  How the reader leaves a malformed frame: \<open>taken\<close> are the frames that it took out of the ring.
  Exactly the valid ones before the malformed one are stored, and it took no further batch.
\<close>

definition malformedStop :: "readerState \<Rightarrow> bool" where
  "malformedStop s \<longleftrightarrow> (\<exists>taken. rd_accepted s = taken @ ringFrames (rd_ring s) \<and> \<not> list_all validFrame taken \<and>
     storedBytes (rd_store s) = concat (takeWhile validFrame taken) \<and>
     length taken \<le> length (takeWhile validFrame taken) + ipcBatchBytes div kFrameSize)"

lemma producerActs_live:
  assumes "readerLive v n s"
  shows "readerLive v n (producerActs s)" and "framesLeft (producerActs s) \<le> framesLeft s"
    and "rd_producer (producerActs s) = tl (rd_producer s)"
    and "rd_producer s = [] \<Longrightarrow> producerActs s = s"
proof -
  have ok: "readerOk s" using assms by (simp add: readerLive_def)
  then obtain seen where inv: "readerInv seen s" by (auto simp: readerOk_def)
  show p: "rd_producer (producerActs s) = tl (rd_producer s)"
    by (cases "rd_producer s") (auto simp: producerActs_def split: prod.splits)
  show nil: "rd_producer s = [] \<Longrightarrow> producerActs s = s" by (simp add: producerActs_def)
  have "framesLeft (producerActs s) \<le> framesLeft s \<and>
      (v \<longrightarrow> list_all validFrame (ringFrames (rd_ring (producerActs s)) @ planned (rd_producer (producerActs s)))) \<and>
      closes (producerActs s)"
  proof (cases "rd_producer s")
    case Nil
    with assms nil show ?thesis by (simp add: readerLive_def)
  next
    case (Cons ops later)
    obtain acc del ring where q: "qRun pushFrames popFrames closeProducer ops (rd_ring s) = (acc, del, ring)"
      by (metis prod_cases3)
    have ri: "ringInv (rd_ring s)" "list_all producerOp ops" using inv Cons by (auto simp: readerInv_def)
    then have qo: "list_all (qopOk isFrame) ops" by (auto simp: list_all_iff producerOp_qopOk)
    have r: "ringFrames ring = ringFrames (rd_ring s) @ acc"
      using ring.fifo [OF ri(1) qo q] producer_pops_nothing [OF ri(2) q] by simp
    have pl: "planned (rd_producer s) = concat (map opFrames ops) @ planned later" by (simp add: planned_def Cons)
    have "closes (producerActs s)"
      using assms qRun_closes [OF ri q] ring.closed_accepts_nothing [OF ri(1) _ qo q] Cons q
      by (auto simp: readerLive_def closes_def producerActs_def)
    then show ?thesis
      using qRun_accepts_subset [OF q] assms r pl Cons q
      by (auto simp: producerActs_def framesLeft_def readerLive_def list_all_iff)
  qed
  then have le: "framesLeft (producerActs s) \<le> framesLeft s" and w: "v \<longrightarrow> list_all validFrame (ringFrames (rd_ring (producerActs s)) @ planned (rd_producer (producerActs s)))"
      "closes (producerActs s)" by auto
  show "framesLeft (producerActs s) \<le> framesLeft s" by (rule le)
  have "rd_batchBytes s + kFrameSize * framesLeft (producerActs s) < n"
    using assms le unfolding readerLive_def by (meson add_left_mono le_less_trans mult_le_mono2)
  then show "readerLive v n (producerActs s)"
    using assms w producerActs_readerOk [OF ok] producerActs_readerInv(2,6) [OF inv] by (simp add: readerLive_def)
qed

lemma flushBatch_works:
  assumes "readerInv seen s" and "kernelWorks n (answers (rd_store s))" and "rd_batchBytes s \<le> n"
  shows "\<exists>s'. flushBatch s = Some (True, s') \<and> kernelWorks (n - rd_batchBytes s) (answers (rd_store s'))"
proof (cases "rd_batchBytes s = 0")
  case True
  with assms(2) show ?thesis by (simp add: flushBatch_def)
next
  case False
  let ?b = "take (rd_batchBytes s) (rd_batch s)"
  have "length ?b = rd_batchBytes s" "storeInv (rd_store s)" "kFrameSize dvd rd_batchBytes s"
    using assms(1) by (auto simp: readerInv_def)
  moreover have "?b \<noteq> []" using False calculation(1) by (metis list.size(3))
  ultimately have "\<exists>st. appendFrames ?b (rd_store s) = Some (True, st) \<and> kernelWorks (n - rd_batchBytes s) (answers st)"
    using appendFrames_works [of "rd_store s" ?b n] assms(2,3) by simp
  with False show ?thesis by (auto simp: flushBatch_def)
qed

text \<open>The budget \<open>n\<close> shrinks by what is flushed.\<close>

lemma processFrame_works:
  assumes "readerInv seen s" and "rd_batchBytes s < writeBatchBytes" and "validFrame f"
    and "kernelWorks n (answers (rd_store s))" and "rd_batchBytes s + kFrameSize \<le> n"
  shows "\<exists>s' n'. processFrame f s = Some (True, s') \<and> kernelWorks n' (answers (rd_store s')) \<and>
    n + rd_batchBytes s' = n' + rd_batchBytes s + kFrameSize"
proof -
  have "isFrame f" using assms(3) by (simp add: validFrame_def)
  note eq = processFrame_eq [OF assms(1,2) this]
  have b: "rd_store (batched f s) = rd_store s" "rd_batchBytes (batched f s) = rd_batchBytes s + kFrameSize"
    by (simp_all add: batched_def)
  show ?thesis
  proof (cases "rd_batchBytes (batched f s) = writeBatchBytes")
    case True
    obtain s' where s': "flushBatch (batched f s) = Some (True, s')"
      "kernelWorks (n - rd_batchBytes (batched f s)) (answers (rd_store s'))"
      using flushBatch_works [OF batched_inv(1) [OF assms(1-3)], of n] assms(4,5) b by auto
    have "rd_batchBytes s' = 0" using flushBatch_True [OF batched_inv(1) [OF assms(1-3)] s'(1)] by simp
    with s' b assms(3,5) True show ?thesis unfolding eq
      by (intro exI [of _ s'] exI [of _ "n - rd_batchBytes (batched f s)"]) auto
  next
    case False
    then show ?thesis unfolding eq using assms(3,4) b by auto
  qed
qed

lemma processFrames_works:
  "readerInv seen s \<Longrightarrow> rd_batchBytes s < writeBatchBytes \<Longrightarrow> list_all validFrame fs \<Longrightarrow>
   kernelWorks n (answers (rd_store s)) \<Longrightarrow> rd_batchBytes s + kFrameSize * length fs \<le> n \<Longrightarrow>
   \<exists>s' n'. processFrames fs s = Some (True, s') \<and> kernelWorks n' (answers (rd_store s')) \<and>
     n + rd_batchBytes s' = n' + rd_batchBytes s + kFrameSize * length fs"
proof (induction fs arbitrary: seen s n)
  case Nil
  then show ?case by auto
next
  case (Cons f fs)
  have v: "validFrame f" "isFrame f" and le: "rd_batchBytes s + kFrameSize \<le> n" using Cons.prems(3,5) by (auto simp: validFrame_def)
  obtain s1 n1 where p: "processFrame f s = Some (True, s1)" "kernelWorks n1 (answers (rd_store s1))"
    "n + rd_batchBytes s1 = n1 + rd_batchBytes s + kFrameSize"
    using processFrame_works [OF Cons.prems(1,2) v(1) Cons.prems(4) le] by blast
  have inv: "readerInv (seen @ [f]) s1" "rd_batchBytes s1 < writeBatchBytes"
    using processFrame_result [OF Cons.prems(1,2) v(2) p(1)] by auto
  have "rd_batchBytes s1 + kFrameSize * length fs \<le> n1" using p(3) Cons.prems(5) by simp
  from Cons.IH [OF inv _ p(2) this] Cons.prems(3) obtain s' n' where
    "processFrames fs s1 = Some (True, s')" "kernelWorks n' (answers (rd_store s'))"
    "n1 + rd_batchBytes s' = n' + rd_batchBytes s1 + kFrameSize * length fs" by auto
  with p show ?case by (intro exI [of _ s'] exI [of _ n']) auto
qed

lemma processFrames_append:
  "processFrames (xs @ ys) s =
     do {
       (ok, s1) \<leftarrow> processFrames xs s;
       if ok then processFrames ys s1 else Some (False, s1)
     }"
proof (induction xs arbitrary: s)
  case (Cons x xs)
  show ?case by (cases "processFrame x s") (simp, auto simp: Cons)
qed simp

lemma processFrames_malformed:
  assumes "readerInv seen s" and "rd_batchBytes s < writeBatchBytes" and "\<forall>f \<in> set fs. isFrame f"
    and "\<not> list_all validFrame fs" and "kernelWorks n (answers (rd_store s))"
    and "rd_batchBytes s + kFrameSize * length fs \<le> n"
  shows "\<exists>s'. processFrames fs s = Some (False, s') \<and> sameEnv s s' \<and>
    storedBytes (rd_store s') = concat (seen @ takeWhile validFrame fs)"
proof -
  let ?good = "takeWhile validFrame fs"
  obtain f rest where d: "dropWhile validFrame fs = f # rest" "\<not> validFrame f"
    using assms(4) by (metis dropWhile_eq_Nil_conv hd_dropWhile list.sel(1) list_all_iff neq_Nil_conv)
  have fs: "fs = ?good @ f # rest" using takeWhile_dropWhile_id [of validFrame fs] d(1) by simp
  have v: "list_all validFrame ?good" by (auto simp: list_all_iff dest: set_takeWhileD)
  have g: "\<forall>g \<in> set ?good. isFrame g" and f: "isFrame f"
    using assms(3) d(1) set_takeWhileD set_dropWhileD [of f validFrame fs] by (fastforce, simp)
  have "length ?good \<le> length fs" by (rule length_takeWhile_le)
  then have "rd_batchBytes s + kFrameSize * length ?good \<le> n"
    using assms(6) by (meson add_left_mono le_trans mult_le_mono2)
  from processFrames_works [OF assms(1,2) v assms(5) this] obtain s1 n1 where
    p: "processFrames ?good s = Some (True, s1)" "kernelWorks n1 (answers (rd_store s1))"
      "n + rd_batchBytes s1 = n1 + rd_batchBytes s + kFrameSize * length ?good" by blast
  from processFrames_result [OF assms(1,2) g p(1)] have i: "sameEnv s s1" "readerInv (seen @ ?good) s1"
    "rd_batchBytes s1 < writeBatchBytes" by simp_all
  have "rd_batchBytes s1 \<le> n1" using p(3) \<open>rd_batchBytes s + kFrameSize * length ?good \<le> n\<close> by linarith
  from flushBatch_works [OF i(2) p(2) this] obtain s' where fl: "flushBatch s1 = Some (True, s')" by blast
  have "processFrame f s1 = Some (False, s')" unfolding processFrame_eq [OF i(2,3) f] using d(2) fl by simp
  then have "processFrames fs s = Some (False, s')"
    by (subst fs) (simp add: processFrames_append p(1))
  with flushBatch_True [OF i(2) fl] sameEnv_trans [OF i(1)] show ?thesis by (auto simp: readerInv_def)
qed

lemma drainPass_works:
  assumes "readerLive v n s" and "popBatch (producerActs s) = (popped, s1)"
  defines "env \<equiv> \<lambda>t. rd_producer t = tl (rd_producer s) \<and> rd_notify t = rd_notify s \<and> rd_consume t = rd_consume s"
  shows "popped = 0 \<Longrightarrow> readerLive v n s1 \<and> env s1"
    and "popped \<noteq> 0 \<Longrightarrow> \<exists>ok s2. processFrames (poppedFrames popped (rd_ipcBatch s1)) s1 = Some (ok, s2) \<and>
      (if ok then \<exists>n2. readerLive v n2 s2 \<and> framesLeft s2 < framesLeft s \<and> env s2 else \<not> v \<and> malformedStop s2)"
proof -
  let ?p = "producerActs s"
  note live = producerActs_live(1) [OF assms(1)] and left = producerActs_live(2) [OF assms(1)]
  have ok: "readerOk s" using assms(1) by (simp add: readerLive_def)
  obtain seen where i: "readerInv seen ?p" "rd_batchBytes ?p < writeBatchBytes" "rd_accepted ?p = seen @ ringFrames (rd_ring ?p)"
    using live by (auto simp: readerLive_def readerOk_def)
  have ri: "ringInv (rd_ring ?p)" "length (rd_ipcBatch ?p) = ipcBatchBytes" using i(1) by (auto simp: readerInv_def)
  obtain buf ring where b: "s1 = ?p\<lparr>rd_ipcBatch := buf, rd_ring := ring, rd_log := rd_log ?p @ [Deq popped]\<rparr>" "length buf = ipcBatchBytes"
    "ringInv ring" "producerClosed ring = producerClosed (rd_ring ?p)"
    "popped = min (ipcBatchBytes div kFrameSize) (length (ringFrames (rd_ring ?p)))"
    "poppedFrames popped buf = take popped (ringFrames (rd_ring ?p))"
    "ringFrames ring = drop popped (ringFrames (rd_ring ?p))" and l: "logInv s1"
    using i(1) unfolding readerInv_def by (auto intro: popBatch_result [OF ri assms(2)])
  have e: "env ?p" unfolding env_def using producerActs_live(3) [OF assms(1)]
    by (auto simp: producerActs_def split: list.split prod.split)
  then have e1: "env s1" by (simp add: env_def b(1))
  have closes1: "closes s1" using live b(1,4) by (simp add: readerLive_def closes_def)
  show "readerLive v n s1 \<and> env s1" if "popped = 0"
    using drainStep(1) [OF ok assms(2) that] live b(1,7) that e1 closes1 by (simp add: readerLive_def framesLeft_def)
  let ?fs = "poppedFrames popped (rd_ipcBatch s1)"
  have fs: "?fs = take popped (ringFrames (rd_ring ?p))" using b(1,6) by simp
  have len: "length ?fs = popped" "popped \<le> length (ringFrames (rd_ring ?p))" unfolding fs using b(5) by auto
  have v: "v \<longrightarrow> list_all validFrame ?fs" "v \<longrightarrow> list_all validFrame (ringFrames ring)"
    using live b(7) unfolding fs by (auto simp: readerLive_def list_all_iff dest: in_set_takeD in_set_dropD)
  have frames: "\<forall>f \<in> set ?fs. isFrame f" unfolding fs by (meson in_set_takeD ringFrames_frames)
  have inv: "readerInv seen s1" "rd_batchBytes s1 < writeBatchBytes"
    using i(1,2) b(2,3) l unfolding b(1) by (auto simp: readerInv_def)
  have left1: "framesLeft ?p = popped + framesLeft s1"
    using b(1,7) len(2) by (simp add: framesLeft_def)
  have bud: "rd_batchBytes s1 + kFrameSize * popped + kFrameSize * framesLeft s1 < n"
    using live b(1) by (simp add: readerLive_def left1 add_mult_distrib2 add.assoc)
  have kw: "kernelWorks n (answers (rd_store s1))" using live b(1) by (simp add: readerLive_def)
  have fit: "rd_batchBytes s1 + kFrameSize * length ?fs \<le> n" using bud len(1) by simp
  assume nz: "popped \<noteq> 0"
  show "\<exists>ok s2. processFrames ?fs s1 = Some (ok, s2) \<and>
      (if ok then \<exists>n2. readerLive v n2 s2 \<and> framesLeft s2 < framesLeft s \<and> env s2 else \<not> v \<and> malformedStop s2)"
  proof (cases "list_all validFrame ?fs")
    case True
    obtain s2 n2 where p: "processFrames ?fs s1 = Some (True, s2)" "kernelWorks n2 (answers (rd_store s2))"
      "n + rd_batchBytes s2 = n2 + rd_batchBytes s1 + kFrameSize * popped"
      using processFrames_works [OF inv True kw fit] len(1) by auto
    have same: "sameEnv s1 s2" using processFrames_result [OF inv frames p(1)] by simp
    have "readerOk s2" using drainStep(2) [OF ok assms(2) p(1)] by simp
    moreover have "framesLeft s2 = framesLeft s1" using same by (simp add: framesLeft_def sameEnv_def)
    moreover have "rd_batchBytes s2 + kFrameSize * framesLeft s1 < n2" using bud p(3) by linarith
    ultimately have "readerLive v n2 s2 \<and> framesLeft s2 < framesLeft s \<and> env s2"
      using same v(2) live b(1) p(2) closes1 left left1 nz e1
      by (auto simp: readerLive_def sameEnv_def closes_def env_def)
    with p(1) show ?thesis by (intro exI [of _ True]) auto
  next
    case False
    from processFrames_malformed [OF inv frames this kw fit] obtain s2 where
      p: "processFrames ?fs s1 = Some (False, s2)" "sameEnv s1 s2"
        "storedBytes (rd_store s2) = concat (seen @ takeWhile validFrame ?fs)" by blast
    have sv: "takeWhile validFrame (seen @ ?fs) = seen @ takeWhile validFrame ?fs"
      using i(1) by (auto simp: readerInv_def list_all_iff takeWhile_append2)
    have "rd_accepted s2 = (seen @ ?fs) @ ringFrames (rd_ring s2)"
      using p(2) i(3) b(1,7) unfolding fs by (simp add: sameEnv_def)
    moreover have "length (seen @ ?fs) \<le> length (takeWhile validFrame (seen @ ?fs)) + ipcBatchBytes div kFrameSize"
      unfolding sv using len(1) b(5) by simp
    ultimately have "malformedStop s2"
      using p(3) False unfolding malformedStop_def sv [symmetric] by (intro exI [of _ "seen @ ?fs"]) simp
    with p(1) v(1) False show ?thesis by (intro exI [of _ False]) auto
  qed
qed

lemma drainRing_works:
  "readerLive v n s \<Longrightarrow> \<exists>ok c' s'. drainRing c s = Some (ok, c', s') \<and>
     (if ok then (\<exists>n'. readerLive v n' s') \<and> length (rd_producer s') \<le> length (tl (rd_producer s)) \<and>
        rd_notify s' = rd_notify s \<and> rd_consume s' = rd_consume s
      else \<not> v \<and> malformedStop s')"
proof (induction "framesLeft s" arbitrary: c n s rule: less_induct)
  case less
  obtain popped s1 where pb: "popBatch (producerActs s) = (popped, s1)" by fastforce
  note d = drainPass_works [OF less.prems pb]
  show ?case
  proof (cases "popped = 0")
    case True
    with d(1) pb show ?thesis
      by (intro exI [of _ True] exI [of _ c] exI [of _ s1]) (auto simp: drainRing.simps [of c s])
  next
    case False
    with d(2) obtain ok s2 where p: "processFrames (poppedFrames popped (rd_ipcBatch s1)) s1 = Some (ok, s2)"
      and q: "if ok then \<exists>n2. readerLive v n2 s2 \<and> framesLeft s2 < framesLeft s \<and> rd_producer s2 = tl (rd_producer s) \<and>
        rd_notify s2 = rd_notify s \<and> rd_consume s2 = rd_consume s else \<not> v \<and> malformedStop s2" by blast
    have eq: "drainRing c s = (if ok then drainRing True s2 else Some (False, True, s2))"
      using pb False p by (simp add: drainRing.simps [of c s])
    show ?thesis
    proof (cases ok)
      case True
      with q obtain n2 where s2: "readerLive v n2 s2" "framesLeft s2 < framesLeft s" "rd_producer s2 = tl (rd_producer s)"
        "rd_notify s2 = rd_notify s" "rd_consume s2 = rd_consume s" by auto
      from less.hyps [OF s2(2,1), of True] obtain ok' c' s' where "drainRing True s2 = Some (ok', c', s')"
        "if ok' then (\<exists>n'. readerLive v n' s') \<and> length (rd_producer s') \<le> length (tl (rd_producer s2)) \<and>
           rd_notify s' = rd_notify s2 \<and> rd_consume s' = rd_consume s2 else \<not> v \<and> malformedStop s'" by blast
      then show ?thesis using eq True s2(3-5) by (intro exI [of _ ok'] exI [of _ c'] exI [of _ s']) auto
    next
      case False
      with q eq show ?thesis by (intro exI [of _ False] exI [of _ True] exI [of _ s2]) simp
    qed
  qed
qed

lemma readerLive_env:
  "readerLive v n (s\<lparr>rd_notify := x\<rparr>) = readerLive v n s" "readerLive v n (s\<lparr>rd_consume := y\<rparr>) = readerLive v n s"
  "readerLive v n (s\<lparr>rd_notified := z\<rparr>) = readerLive v n s"
  by (simp_all add: readerLive_def readerOk_def readerInv_def framesLeft_def closes_def)

lemma flushBatch_live:
  assumes "readerLive v n s"
  obtains s' n' where "flushBatch s = Some (True, s')" and "readerLive v n' s'" and "sameEnv s s'"
proof -
  obtain seen where i: "readerInv seen s" "rd_accepted s = seen @ ringFrames (rd_ring s)"
    using assms by (auto simp: readerLive_def readerOk_def)
  obtain s' where f: "flushBatch s = Some (True, s')" "kernelWorks (n - rd_batchBytes s) (answers (rd_store s'))"
    using flushBatch_works [OF i(1), of n] assms by (auto simp: readerLive_def)
  note r = flushBatch_True [OF i(1) f(1)]
  then have same: "rd_ring s' = rd_ring s" "rd_producer s' = rd_producer s" "rd_accepted s' = rd_accepted s"
    by (auto simp: sameEnv_def)
  have "readerOk s'" using r i(2) same writeBatchBytes_frames(2) by (auto simp: readerOk_def)
  then have "readerLive v (n - rd_batchBytes s) s'"
    using assms f(2) r same by (auto simp: readerLive_def framesLeft_def closes_def)
  with that f(1) r show ?thesis by blast
qed

lemma drainedAndClosed_live:
  assumes "readerLive v n s" and "drainedAndClosed s = (b, s')"
  shows "readerLive v n s'" and "length (rd_producer s') \<le> length (rd_producer s)"
    and "rd_notify s' = rd_notify s" and "rd_consume s' = rd_consume s"
    and "rd_producer s = [] \<Longrightarrow> ringFrames (rd_ring s) = [] \<Longrightarrow> b"
proof -
  note a = producerActs_live [OF assms(1)] and a' = producerActs_live [OF producerActs_live(1) [OF assms(1)]]
  have env: "rd_notify (producerActs t) = rd_notify t" "rd_consume (producerActs t) = rd_consume t" for t
    by (auto simp: producerActs_def split: list.split prod.split)
  show "readerLive v n s'" "length (rd_producer s') \<le> length (rd_producer s)" "rd_notify s' = rd_notify s"
    "rd_consume s' = rd_consume s"
    using assms(2) a(1,3) a'(1,3) env by (auto simp: drainedAndClosed_def Let_def split: if_splits)
  show "b" if "rd_producer s = []" "ringFrames (rd_ring s) = []"
    using assms that a(4) by (auto simp: drainedAndClosed_def readerLive_def closes_def ringEmpty_def pendingFrames_eq
        split: if_splits)
qed

lemma exitOrWait_works:
  assumes "readerLive v n s" and "enough m (\<lambda>_. True) (rd_consume s)" and "0 < m"
  shows "(\<exists>s'. exitOrWait s = Some (Inl (EXIT_SUCCESS, s'))) \<or>
    (\<exists>s'. exitOrWait s = Some (Inr s') \<and> readerLive v n s' \<and> length (rd_producer s') \<le> length (rd_producer s) \<and>
      (rd_producer s \<noteq> [] \<or> ringFrames (rd_ring s) \<noteq> []) \<and>
      rd_notify s' = rd_notify s \<and> enough (m - 1) (\<lambda>_. True) (rd_consume s'))"
proof -
  obtain b s1 where dc: "drainedAndClosed s = (b, s1)" by fastforce
  note l = drainedAndClosed_live [OF assms(1) dc]
  show ?thesis
  proof (cases b)
    case True
    have "enough (2 * n) (\<lambda>_. True) (a_fdatasync (answers (rd_store s1)))" "0 < 2 * n" "m_fd (rd_store s1) \<noteq> -1"
      using l(1) by (auto simp: readerLive_def kernelWorks_def readerOk_def readerInv_def storeInv_def)
    from sync_works [OF this] obtain st where "sync (rd_store s1) = Some (True, st)" by blast
    with True dc show ?thesis by (auto simp: exitOrWait_def syncStore_def)
  next
    case False
    obtain rest where "consumeEvent (rd_consume s) = Some (True, rest)" "enough (m - 1) (\<lambda>_. True) rest"
      using consume.supplied [OF assms(2,3)] by blast
    with False dc l show ?thesis
      by (auto simp: exitOrWait_def waitForData_def readerLive_env)
  qed
qed

lemma readerTurn_works:
  assumes "readerLive v n s" and "enough m (\<lambda>_. True) (rd_notify s)" and "enough m (\<lambda>_. True) (rd_consume s)" and "0 < m"
  shows "(\<exists>s'. readerTurn s = Some (Inl (EXIT_SUCCESS, s'))) \<or>
    (\<exists>s'. readerTurn s = Some (Inl (EXIT_FAILURE, s')) \<and> \<not> v \<and> malformedStop s') \<or>
    (\<exists>s' n'. readerTurn s = Some (Inr s') \<and> readerLive v n' s' \<and> length (rd_producer s') < length (rd_producer s) \<and>
      enough (m - 1) (\<lambda>_. True) (rd_notify s') \<and> enough (m - 1) (\<lambda>_. True) (rd_consume s'))"
proof -
  obtain ok c s1 where dr: "drainRing False s = Some (ok, c, s1)"
    and q: "if ok then (\<exists>n'. readerLive v n' s1) \<and> length (rd_producer s1) \<le> length (tl (rd_producer s)) \<and>
        rd_notify s1 = rd_notify s \<and> rd_consume s1 = rd_consume s else \<not> v \<and> malformedStop s1"
    using drainRing_works [OF assms(1), of False] by blast
  show ?thesis
  proof (cases ok)
    case False
    with dr q show ?thesis by (simp add: readerTurn_def)
  next
    case True
    with dr q obtain n1 where d: "drainRing False s = Some (True, c, s1)" "readerLive v n1 s1"
      "length (rd_producer s1) \<le> length (tl (rd_producer s))" "rd_notify s1 = rd_notify s" "rd_consume s1 = rd_consume s"
      by auto
    have empty: "ringFrames (rd_ring s1) = []"
      using drainRing_result [OF d(1)] assms(1) by (simp add: readerLive_def)
    obtain s2 n2 where f: "flushBatch s1 = Some (True, s2)" "readerLive v n2 s2" "sameEnv s1 s2"
      by (rule flushBatch_live [OF d(2)])
    obtain rest where r: "notifyEvent (rd_notify s2) = Some (True, rest)" "enough (m - 1) (\<lambda>_. True) rest"
      using notify.supplied [OF assms(2,4)] f(3) d(4) by (auto simp: sameEnv_def)
    have low: "enough (m - 1) (\<lambda>_. True) (rd_notify s2)"
      using enough_mono [OF assms(2)] f(3) d(4) by (simp add: sameEnv_def)
    obtain s3 where s3: "(if c then notifySpace s2 else Some (True, s2)) = Some (True, s3)" "readerLive v n2 s3"
      "rd_producer s3 = rd_producer s1" "rd_ring s3 = rd_ring s1" "enough (m - 1) (\<lambda>_. True) (rd_notify s3)" "rd_consume s3 = rd_consume s"
      using r low f(2,3) d(5) by (cases c) (auto simp: notifySpace_def sameEnv_def readerLive_env)
    have turn: "readerTurn s = exitOrWait s3"
      using d(1) f(1) s3(1) by (simp add: readerTurn_def)
    have "enough m (\<lambda>_. True) (rd_consume s3)" using assms(3) s3(6) by simp
    from exitOrWait_works [OF s3(2) this assms(4)] show ?thesis
    proof
      assume "\<exists>s'. exitOrWait s3 = Some (Inr s') \<and> readerLive v n2 s' \<and> length (rd_producer s') \<le> length (rd_producer s3) \<and>
        (rd_producer s3 \<noteq> [] \<or> ringFrames (rd_ring s3) \<noteq> []) \<and>
        rd_notify s' = rd_notify s3 \<and> enough (m - 1) (\<lambda>_. True) (rd_consume s')"
      then obtain s' where s': "exitOrWait s3 = Some (Inr s')" "readerLive v n2 s'" "length (rd_producer s') \<le> length (rd_producer s1)"
        "rd_producer s1 \<noteq> []" "rd_notify s' = rd_notify s3" "enough (m - 1) (\<lambda>_. True) (rd_consume s')"
        using s3(3,4) empty by auto
      moreover have "length (rd_producer s') < length (rd_producer s)"
        using s'(3,4) d(3) by (cases "rd_producer s") auto
      ultimately show ?thesis using turn s3(5) by metis
    qed (simp add: turn)
  qed
qed

lemma readerLoop_works:
  "readerLive v n s \<Longrightarrow> length (rd_producer s) < m \<Longrightarrow> enough m (\<lambda>_. True) (rd_notify s) \<Longrightarrow>
   enough m (\<lambda>_. True) (rd_consume s) \<Longrightarrow> \<exists>code s'. readerLoop s = Some (code, s') \<and>
     (code = EXIT_SUCCESS \<or> \<not> v \<and> code = EXIT_FAILURE \<and> malformedStop s')"
proof (induction "length (rd_producer s)" arbitrary: n m s rule: less_induct)
  case less
  have m: "0 < m" using less.prems(2) by simp
  from readerTurn_works [OF less.prems(1,3,4) m] show ?case
  proof (elim disjE)
    assume "\<exists>s' n'. readerTurn s = Some (Inr s') \<and> readerLive v n' s' \<and> length (rd_producer s') < length (rd_producer s) \<and>
      enough (m - 1) (\<lambda>_. True) (rd_notify s') \<and> enough (m - 1) (\<lambda>_. True) (rd_consume s')"
    then obtain s' n' where s': "readerTurn s = Some (Inr s')" "readerLive v n' s'" "length (rd_producer s') < length (rd_producer s)"
      "enough (m - 1) (\<lambda>_. True) (rd_notify s')" "enough (m - 1) (\<lambda>_. True) (rd_consume s')" by blast
    have "length (rd_producer s') < m - 1" using s'(3) less.prems(2) by linarith
    from less.hyps [OF s'(3,2) this s'(4,5)] s'(1) show ?thesis by (simp add: readerLoop.simps [of s])
  qed (auto simp: readerLoop.simps [of s])
qed


section \<open>Properties\<close>

lemma openFile_quiet: "openFile path s = Some (ok, s') \<Longrightarrow> storedBytes s' = storedBytes s"
proof -
  have d: "storedBytes s1 = storedBytes s" if "openDirectory path s = Some (b, s1)" for b s1
    using that by (auto simp: openDirectory_def op_simps storedBytes_def split: op_splits)
  have o: "storedBytes s' = storedBytes s1" if "openActiveFile s1 = Some (ok, s')" for s1
    using openActiveFile_quiet [OF that] by (auto simp: quietStep_def storedBytes_def)
  assume "openFile path s = Some (ok, s')"
  then show ?thesis
    by (auto simp: openFile_def split: op_splits dest!: d o)
qed

text \<open>A kernel that works for \<open>n\<close> bytes, and a producer that pushes a frame and closes.\<close>

definition steadyAnswers :: "nat \<Rightarrow> storageAnswers" where
  "steadyAnswers n =
     \<lparr>a_open = [Ret 4], a_openat = Ret 5 # replicate n (Ret 5), a_fstat = Ret (True, 0) # replicate n (Ret (True, 0)),
      a_ftruncate = [], a_write = replicate n (Ret 7), a_fdatasync = replicate (2 * n) (Ret ()),
      a_fsync = Ret () # replicate (2 * n) (Ret ()), a_renameat = replicate n (Ret ()),
      a_clock = replicate n (Ret (7, 8)), a_close = replicate n (Ret ())\<rparr>"

definition readerSampleAnswers :: storageAnswers where
  "readerSampleAnswers = steadyAnswers 33"

definition readerSampleConfig :: readerConfig where
  "readerSampleConfig = \<lparr>rc_dataFilePath = ''d/a'', rc_maxSegmentBytes = 64, rc_syncEveryBytes = 0, rc_quiet = True\<rparr>"

definition readerSampleProducer :: "bytes qop list list" where
  "readerSampleProducer = [[], [Enq [encode emptyRecord]], [Close]]"

lemma sample_opens:
  "\<exists>st. openFile (rc_dataFilePath readerSampleConfig) (newStore (storeConfigOf readerSampleConfig) (steadyAnswers n)) =
      Some (True, st) \<and> kernelWorks n (answers st)"
  by (simp add: readerSampleConfig_def steadyAnswers_def openFile_def newStore_def storeConfigOf_def
      validateStoreConfig_def kFrameSize_def openDirectory_def pathFilename_def pathParent_def op_simps
      openActiveFile_def syncDirectory_def recoverPartialFrame_def kernelWorks_def)

lemmas sample_open = sample_opens [of 33, folded readerSampleAnswers_def]

lemma sample_producer:
  "list_all (list_all producerOp) readerSampleProducer" "planned readerSampleProducer = [encode emptyRecord]"
  "\<exists>ops \<in> set readerSampleProducer. Close \<in> set ops"
  using validFrame_encode [of emptyRecord]
  by (auto simp: readerSampleProducer_def planned_def validFrame_def)

lemma runReader_result:
  assumes "runReader config env ring producer notify consume = Some (code, s)"
    and "ringInv ring" and "list_all (list_all producerOp) producer"
  shows "(\<exists>rest. concat (rd_accepted s) = storedBytes (rd_store s) @ rest) \<and>
    (code = EXIT_SUCCESS \<longrightarrow>
       storedBytes (rd_store s) = concat (rd_accepted s) \<and>
       (\<forall>f \<in> set (rd_accepted s). dr_ok (decode f)) \<and>
       ringFrames (rd_ring s) = [] \<and> producerClosed (rd_ring s) \<and>
       dirtyBytes (calls (rd_store s)) = 0)"
proof -
  obtain ok st where o: "openFile (rc_dataFilePath config) (newStore (storeConfigOf config) env) = Some (ok, st)"
    and r: "(if ok then readerLoop (newReader ring st producer notify consume)
             else Some (EXIT_FAILURE, newReader ring st producer notify consume)) = Some (code, s)"
    using assms(1) by (auto simp: runReader_def split: Option.bind_split_asm if_splits)
  show ?thesis
  proof (cases ok)
    case True
    with r readerLoop_result [OF _ newReader_ok [OF _ assms(2,3)]] o have "readerDone code s" by fastforce
    then show ?thesis
      by (auto simp: readerDone_def storedPrefix_def storeClean_def list_all_iff validFrame_def)
  next
    case False
    with r openFile_quiet [OF o] show ?thesis by (auto simp: newReader_def newStore_def storedBytes_def)
  qed
qed

text \<open>After a success the log tells that every accepted frame was taken, and that the ring is closed.\<close>

lemma runReader_history:
  assumes "runReader config env ring producer notify consume = Some (EXIT_SUCCESS, s)"
    and "ringInv ring" and "list_all (list_all producerOp) producer"
  shows "history capacityFrames (rd_log s) = (rd_accepted s, length (rd_accepted s), True)"
proof -
  obtain st where o: "openFile (rc_dataFilePath config) (newStore (storeConfigOf config) env) = Some (True, st)"
    and r: "readerLoop (newReader ring st producer notify consume) = Some (EXIT_SUCCESS, s)"
    using assms(1) by (auto simp: runReader_def split: Option.bind_split_asm if_splits)
  from readerLoop_result [OF r newReader_ok [OF o assms(2,3)]] have "readerDone EXIT_SUCCESS s" by simp
  then show ?thesis by (simp add: readerDone_def logInv_def)
qed

text \<open>C5: the reader neither loses, repeats, reorders nor invents data, whatever the producer, the
  kernel and the event descriptors do. At every exit the stored bytes are a prefix of the frames
  that the ring accepted, in the order of acceptance. When it exits with success they are all of
  them, each passed validation, the producer has closed, the ring is empty, and everything stored
  is synced.\<close>

theorem reader_delivers:
  assumes "runReader config env ring producer notify consume = Some (code, s)"
    and "ringInv ring" and "list_all (list_all producerOp) producer"
  shows "(\<exists>rest. concat (rd_accepted s) = storedBytes (rd_store s) @ rest) \<and>
    (code = EXIT_SUCCESS \<longrightarrow>
       storedBytes (rd_store s) = concat (rd_accepted s) \<and>
       (\<forall>f \<in> set (rd_accepted s). dr_ok (decode f)) \<and>
       ringFrames (rd_ring s) = [] \<and> producerClosed (rd_ring s) \<and>
       dirtyBytes (calls (rd_store s)) = 0)"
  by (rule runReader_result [OF assms])

text \<open>C21: the reader finishes. When the storage calls complete, however often they are interrupted
  and however small the writes, the event descriptors answer, the pushed frames are valid and the
  producer eventually closes, the reader drains the ring and exits with success.\<close>

theorem reader_finishes:
  assumes "openFile (rc_dataFilePath config) (newStore (storeConfigOf config) env) = Some (True, st)"
    and "kernelWorks n (answers st)" and "kFrameSize * (length (ringFrames ring) + length (planned producer)) < n"
    and "ringInv ring" and "list_all (list_all producerOp) producer"
    and "list_all validFrame (ringFrames ring @ planned producer)"
    and "\<exists>ops \<in> set producer. Close \<in> set ops"
    and "enough (length producer + 1) (\<lambda>_. True) notify" and "enough (length producer + 1) (\<lambda>_. True) consume"
  shows "\<exists>s. runReader config env ring producer notify consume = Some (EXIT_SUCCESS, s)"
proof -
  let ?s = "newReader ring st producer notify consume"
  have "readerLive True n ?s"
    using newReader_ok [OF assms(1,4,5)] assms(2,3,6,7)
    by (simp add: readerLive_def newReader_def framesLeft_def closes_def)
  then have "\<exists>s. readerLoop ?s = Some (EXIT_SUCCESS, s)"
    using readerLoop_works [of True n ?s "length producer + 1"] assms(8,9) by (simp add: newReader_def)
  then show ?thesis using assms(1) by (simp add: runReader_def)
qed

lemma sample_run:
  "\<exists>s. runReader readerSampleConfig readerSampleAnswers emptyRing readerSampleProducer
     (replicate 4 (Ret ())) (replicate 4 (Ret 1)) = Some (EXIT_SUCCESS, s)"
proof -
  obtain st where st: "openFile (rc_dataFilePath readerSampleConfig)
      (newStore (storeConfigOf readerSampleConfig) readerSampleAnswers) = Some (True, st)" "kernelWorks 33 (answers st)"
    using sample_open by blast
  let ?s = "newReader emptyRing st readerSampleProducer (replicate 4 (Ret ())) (replicate 4 (Ret 1))"
  have "readerOk ?s" using newReader_ok [OF st(1) _ sample_producer(1)] emptyRing_facts by blast
  then have "readerLive True 33 ?s"
    using emptyRing_facts st(2) sample_producer validFrame_encode
    by (simp add: readerLive_def newReader_def framesLeft_def closes_def kFrameSize_def)
  then have "\<exists>s. readerLoop ?s = Some (EXIT_SUCCESS, s)"
    using readerLoop_works [of True 33 ?s 4] by (simp add: newReader_def readerSampleProducer_def)
  with st(1) show ?thesis by (simp add: runReader_def)
qed

theorem reader_delivers_witness:
  "\<exists>s. runReader readerSampleConfig readerSampleAnswers emptyRing readerSampleProducer
     (replicate 4 (Ret ())) (replicate 4 (Ret 1)) = Some (EXIT_SUCCESS, s) \<and>
     storedBytes (rd_store s) = concat (rd_accepted s) \<and> producerClosed (rd_ring s)"
  using sample_run reader_delivers [of readerSampleConfig readerSampleAnswers emptyRing readerSampleProducer
      "replicate 4 (Ret ())" "replicate 4 (Ret 1)"] emptyRing_facts sample_producer(1) by blast

theorem reader_finishes_witness:
  "\<exists>s. runReader readerSampleConfig readerSampleAnswers emptyRing readerSampleProducer
     (replicate 4 (Ret ())) (replicate 4 (Ret 1)) = Some (EXIT_SUCCESS, s)"
proof -
  obtain st where st: "openFile (rc_dataFilePath readerSampleConfig)
      (newStore (storeConfigOf readerSampleConfig) readerSampleAnswers) = Some (True, st)" "kernelWorks 33 (answers st)"
    using sample_open by blast
  show ?thesis
    by (rule reader_finishes [OF st])
      (use emptyRing_facts sample_producer validFrame_encode in
        \<open>simp_all add: kFrameSize_def readerSampleProducer_def\<close>)
qed

text \<open>C32: a malformed frame in the ring stops the reader. With working storage calls and event
  descriptors and a producer that eventually closes, the reader returns, whatever frames the
  producer pushes. Let \<open>taken\<close> be what it took out of the ring: the file then holds exactly the
  valid frames before the first malformed one, also those that were still in the batch; the exit
  is a success exactly when no frame taken was malformed, and then the ring is empty; and after
  the malformed frame the reader took nothing but the rest of the same batch of 128 frames.\<close>

theorem reader_malformed:
  assumes "openFile (rc_dataFilePath config) (newStore (storeConfigOf config) env) = Some (True, st)"
    and "kernelWorks n (answers st)" and "kFrameSize * (length (ringFrames ring) + length (planned producer)) < n"
    and "ringInv ring" and "list_all (list_all producerOp) producer" and "\<exists>ops \<in> set producer. Close \<in> set ops"
    and "enough (length producer + 1) (\<lambda>_. True) notify" and "enough (length producer + 1) (\<lambda>_. True) consume"
  shows "\<exists>code s taken. runReader config env ring producer notify consume = Some (code, s) \<and>
    rd_accepted s = taken @ ringFrames (rd_ring s) \<and>
    storedBytes (rd_store s) = concat (takeWhile validFrame taken) \<and>
    (code = EXIT_SUCCESS \<longleftrightarrow> list_all validFrame taken) \<and> (code = EXIT_SUCCESS \<longrightarrow> ringFrames (rd_ring s) = []) \<and>
    length taken \<le> length (takeWhile validFrame taken) + ipcBatchBytes div kFrameSize"
proof -
  let ?s = "newReader ring st producer notify consume"
  note ok = newReader_ok [OF assms(1,4,5)]
  have "readerLive False n ?s"
    using ok assms(2,3,6) by (simp add: readerLive_def newReader_def framesLeft_def closes_def)
  then obtain code s where l: "readerLoop ?s = Some (code, s)"
    and c: "code = EXIT_SUCCESS \<or> code = EXIT_FAILURE \<and> malformedStop s"
    using readerLoop_works [of False n ?s "length producer + 1"] assms(7,8) by (auto simp: newReader_def)
  have r: "runReader config env ring producer notify consume = Some (code, s)"
    using assms(1) l by (simp add: runReader_def)
  from c show ?thesis
  proof
    assume success: "code = EXIT_SUCCESS"
    with readerLoop_result [OF l ok] have "storedBytes (rd_store s) = concat (rd_accepted s)"
      "list_all validFrame (rd_accepted s)" "ringFrames (rd_ring s) = []" by (simp_all add: readerDone_def)
    moreover from this(2) have "takeWhile validFrame (rd_accepted s) = rd_accepted s"
      by (simp add: list_all_iff takeWhile_eq_all_conv)
    ultimately show ?thesis
      using r success
      by (intro exI [of _ code] exI [of _ s] exI [of _ "rd_accepted s"]) (simp del: takeWhile_eq_all_conv)
  next
    assume "code = EXIT_FAILURE \<and> malformedStop s"
    with r show ?thesis unfolding malformedStop_def by fastforce
  qed
qed

text \<open>A ring with a valid frame, a malformed one and a valid one.\<close>

definition malformedFrames :: "bytes list" where
  "malformedFrames = [encode emptyRecord, replicate 32 0, encode emptyRecord]"

definition malformedRing :: sharedRing where
  "malformedRing = snd (pushFrames malformedFrames emptyRing)"

lemma malformed_sample:
  "\<forall>f \<in> set malformedFrames. isFrame f" "\<not> list_all validFrame malformedFrames"
  "takeWhile validFrame malformedFrames = [encode emptyRecord]" "length malformedFrames = 3"
proof -
  have bad: "\<not> validFrame (replicate 32 0)"
    by (simp add: validFrame_def dr_ok_def decode_def kFrameSize_def offset_defs readU32_def kMagic_def)
  show "\<forall>f \<in> set malformedFrames. isFrame f" by (simp add: malformedFrames_def isFrame_def kFrameSize_def)
  show "\<not> list_all validFrame malformedFrames" "takeWhile validFrame malformedFrames = [encode emptyRecord]"
    "length malformedFrames = 3"
    using bad validFrame_encode by (simp_all add: malformedFrames_def)
qed

lemma malformedRing_facts: "ringInv malformedRing" "ringFrames malformedRing = malformedFrames"
proof -
  obtain n where p: "pushFrames malformedFrames emptyRing = (n, malformedRing)"
    by (metis malformedRing_def prod.collapse)
  have "list_all isFrame malformedFrames" using malformed_sample(1) by (simp add: list_all_iff)
  from ring.enq_open [OF _ _ this p] emptyRing_facts malformed_sample(4) have
    "n = min 3 capacityFrames" "ringFrames malformedRing = take n malformedFrames" "ringInv malformedRing" by simp_all
  then show "ringInv malformedRing" "ringFrames malformedRing = malformedFrames"
    using malformed_sample(4) by (simp_all add: ring_defs)
qed

lemma malformed_run:
  assumes "openFile (rc_dataFilePath config) (newStore (storeConfigOf config) env) = Some (True, st)"
    and "kernelWorks 97 (answers st)"
  shows "\<exists>s. runReader config env malformedRing [[], [Close]] notify consume = Some (EXIT_FAILURE, s) \<and>
    storedBytes (rd_store s) = encode emptyRecord"
proof -
  let ?s = "newReader malformedRing st [[], [Close]] notify consume"
  have "readerOk ?s" by (rule newReader_ok [OF assms(1) malformedRing_facts(1)]) simp
  then obtain seen where seen: "readerInv seen ?s" "rd_batchBytes ?s < writeBatchBytes" "seen = []"
    by (auto simp: readerOk_def newReader_def)
  have act: "producerActs ?s = ?s\<lparr>rd_producer := [[Close]]\<rparr>" by (simp add: producerActs_def newReader_def)
  obtain popped s1 where pb: "popBatch (producerActs ?s) = (popped, s1)" by fastforce
  have i: "readerInv [] (producerActs ?s)" using producerActs_readerInv(1) [OF seen(1)] seen(3) by simp
  then have ri: "ringInv (rd_ring (producerActs ?s))" "length (rd_ipcBatch (producerActs ?s)) = ipcBatchBytes"
    by (auto simp: readerInv_def)
  have fr: "ringFrames (rd_ring (producerActs ?s)) = malformedFrames"
    unfolding act using malformedRing_facts(2) by (simp add: newReader_def)
  obtain buf ring where b: "s1 = (producerActs ?s)\<lparr>rd_ipcBatch := buf, rd_ring := ring,
      rd_log := rd_log (producerActs ?s) @ [Deq popped]\<rparr>" "length buf = ipcBatchBytes" "ringInv ring"
    "popped = min (ipcBatchBytes div kFrameSize) (length malformedFrames)" "poppedFrames popped buf = take popped malformedFrames"
    and l: "logInv s1"
    using i unfolding readerInv_def by (auto simp: fr intro: popBatch_result [OF ri pb])
  have popped: "popped = 3" using b(4) malformed_sample(4) by (simp add: ipcBatchBytes_def kFrameSize_def)
  have fs: "poppedFrames popped (rd_ipcBatch s1) = malformedFrames" using b(1,5) malformed_sample(4) popped by simp
  have s1: "readerInv [] s1" "rd_batchBytes s1 < writeBatchBytes" "kernelWorks 97 (answers (rd_store s1))"
    "rd_batchBytes s1 + kFrameSize * length malformedFrames \<le> 97"
    using i b(2,3) l seen(2) assms(2) malformed_sample(4) unfolding b(1) act
    by (auto simp: readerInv_def newReader_def kFrameSize_def)
  from processFrames_malformed [OF s1(1,2) malformed_sample(1,2) s1(3,4)] obtain s2 where
    p: "processFrames malformedFrames s1 = Some (False, s2)" "storedBytes (rd_store s2) = encode emptyRecord"
    using malformed_sample(3) by auto
  have "drainRing False ?s = Some (False, True, s2)"
    using pb popped fs p(1) by (simp add: drainRing.simps [of False ?s])
  then have "readerLoop ?s = Some (EXIT_FAILURE, s2)"
    by (simp add: readerLoop.simps [of ?s] readerTurn_def)
  with assms(1) p(2) show ?thesis by (simp add: runReader_def)
qed

theorem reader_malformed_witness:
  "\<exists>s taken. runReader readerSampleConfig (steadyAnswers 97) malformedRing [[], [Close]] (replicate 3 (Ret ()))
     (replicate 3 (Ret 1)) = Some (EXIT_FAILURE, s) \<and> storedBytes (rd_store s) = encode emptyRecord \<and>
     rd_accepted s = taken @ ringFrames (rd_ring s) \<and> \<not> list_all validFrame taken"
proof -
  obtain st where st: "openFile (rc_dataFilePath readerSampleConfig)
      (newStore (storeConfigOf readerSampleConfig) (steadyAnswers 97)) = Some (True, st)" "kernelWorks 97 (answers st)"
    using sample_opens by blast
  let ?p = "[[], [Close]] :: bytes qop list list"
  have "kFrameSize * (length (ringFrames malformedRing) + length (planned ?p)) < 97"
    "list_all (list_all producerOp) ?p" "\<exists>ops \<in> set ?p. Close \<in> set ops"
    "enough (length ?p + 1) (\<lambda>_. True) (replicate 3 (Ret ()))" "enough (length ?p + 1) (\<lambda>_. True) (replicate 3 (Ret 1))"
    using malformedRing_facts(2) malformed_sample(4) by (simp_all add: planned_def kFrameSize_def)
  from reader_malformed [OF st this(1) malformedRing_facts(1) this(2-5)]
    malformed_run [OF st, of "replicate 3 (Ret ())" "replicate 3 (Ret 1)"]
  show ?thesis by fastforce
qed

end
