(* ===== verification/ReaderTotal.thy ===== *)
theory ReaderTotal
  imports Reader
begin

text \<open>
  What reaches the file when the producer pushes only what fits: all of it. A predicate on the
  ring, the producer and the accepted frames that the producer's turns and the pops keep is kept
  by the whole reader, since nothing else touches them.
\<close>

section \<open>What the reader leaves alone\<close>

definition sameQueue :: "readerState \<Rightarrow> readerState \<Rightarrow> bool" where
  "sameQueue s s' \<longleftrightarrow> rd_ring s' = rd_ring s \<and> rd_producer s' = rd_producer s \<and> rd_accepted s' = rd_accepted s \<and>
     rd_log s' = rd_log s"

lemma sameQueue_refl [simp]: "sameQueue s s"
  by (simp add: sameQueue_def)

lemma sameQueue_trans: "sameQueue s s1 \<Longrightarrow> sameQueue s1 s' \<Longrightarrow> sameQueue s s'"
  by (simp add: sameQueue_def)

lemma flushBatch_queue: "flushBatch s = Some (ok, s') \<Longrightarrow> sameQueue s s'"
  by (auto simp: flushBatch_def sameQueue_def split: op_splits)

lemma processFrame_queue:
  assumes "processFrame f s = Some (ok, s')"
  shows "sameQueue s s'"
proof -
  let ?s = "s\<lparr>rd_batch := overwrite (rd_batch s) (rd_batchBytes s) f, rd_batchBytes := rd_batchBytes s + kFrameSize\<rparr>"
  have q: "sameQueue s ?s" by (simp add: sameQueue_def)
  consider b where "flushBatch s = Some (b, s')" | "flushBatch ?s = Some (ok, s')" | "s' = ?s"
    using assms by (auto simp: processFrame_def Let_def split: if_splits op_splits)
  then show ?thesis using flushBatch_queue q sameQueue_trans by cases blast+
qed

lemma processFrames_queue: "processFrames fs s = Some (ok, s') \<Longrightarrow> sameQueue s s'"
proof (induction fs arbitrary: s)
  case (Cons f fs)
  then obtain b s1 where p: "processFrame f s = Some (b, s1)"
    and r: "(if b then processFrames fs s1 else Some (False, s1)) = Some (ok, s')"
    by (auto split: op_splits)
  have "sameQueue s1 s'" using r Cons.IH by (cases b) auto
  with processFrame_queue [OF p] sameQueue_trans show ?case by blast
qed simp

lemma notifySpace_queue: "notifySpace s = Some (ok, s') \<Longrightarrow> sameQueue s s'"
  by (auto simp: notifySpace_def sameQueue_def split: op_splits)

lemma waitForData_queue: "waitForData s = Some (ok, s') \<Longrightarrow> sameQueue s s'"
  by (auto simp: waitForData_def sameQueue_def split: op_splits)

lemma syncStore_queue: "syncStore s = Some (ok, s') \<Longrightarrow> sameQueue s s'"
  by (auto simp: syncStore_def sameQueue_def split: op_splits)

lemmas queue_facts = flushBatch_queue notifySpace_queue waitForData_queue syncStore_queue


section \<open>Predicates that the reader keeps\<close>

text \<open>The contract of such a predicate, and what follows for the loops.\<close>

locale queue_predicate =
  fixes Q :: "readerState \<Rightarrow> bool"
  assumes acts: "Q s \<Longrightarrow> Q (producerActs s)"
    and pops: "Q s \<Longrightarrow> Q (snd (popBatch s))"
    and local: "Q s \<Longrightarrow> sameQueue s s' \<Longrightarrow> Q s'"
begin

lemma drains:
  assumes "drainRing c s = Some r" and "Q s"
  shows "Q (snd (snd r))"
proof -
  define P where "P (c :: bool) s r \<longleftrightarrow> (Q s \<longrightarrow> Q (snd (snd r)))" for c s and r :: "bool \<times> bool \<times> readerState"
  have "P c s r"
  proof (rule drainRing.raw_induct [OF _ assms(1)])
    fix loop c s and r :: "bool \<times> bool \<times> readerState"
    assume IH: "\<And>c s r. loop c s = Some r \<Longrightarrow> P c s r"
      and body: "(case popBatch (producerActs s) of (popped, s1) \<Rightarrow>
          if popped = 0 then Some (True, c, s1)
          else case processFrames (poppedFrames popped (rd_ipcBatch s1)) s1 of
                 None \<Rightarrow> None
               | Some (ok, s2) \<Rightarrow> if ok then loop True s2 else Some (False, True, s2)) = Some r"
    obtain popped s1 where pb: "popBatch (producerActs s) = (popped, s1)" by fastforce
    have s1: "Q s1" if "Q s" using pops [OF acts [OF that]] pb by simp
    have s2: "Q s2" if "Q s" "processFrames (poppedFrames popped (rd_ipcBatch s1)) s1 = Some (b, s2)" for b s2
      using local [OF s1 [OF that(1)] processFrames_queue [OF that(2)]] .
    show "P c s r"
      unfolding P_def using body pb s1 s2 IH [unfolded P_def] by (cases r) (auto split: if_splits option.splits)
  qed
  with assms(2) show ?thesis by (simp add: P_def)
qed

lemma exits:
  assumes "exitOrWait s = Some r" and "Q s"
  shows "case r of Inl (code, s') \<Rightarrow> Q s' | Inr s' \<Rightarrow> Q s'"
proof -
  have d: "Q s1" if "drainedAndClosed s = (b, s1)" for b s1
    using that assms(2) acts by (auto simp: drainedAndClosed_def Let_def split: if_splits)
  show ?thesis
    using assms(1) d local syncStore_queue waitForData_queue unfolding exitOrWait_def
    by (auto split: prod.splits bool.splits op_splits if_splits)
qed

lemma turns_on:
  assumes "readerTurn s = Some r" and d: "drainRing False s = Some (ok, c, s1)" and s1: "Q s1"
  shows "case r of Inl (code, s') \<Rightarrow> Q s' | Inr s' \<Rightarrow> Q s'"
proof -
  show ?thesis
  proof (cases ok)
    case False
    with assms(1) d s1 show ?thesis by (auto simp: readerTurn_def)
  next
    case True
    obtain fl s2 where f: "flushBatch s1 = Some (fl, s2)"
      using assms(1) d True by (auto simp: readerTurn_def split: Option.bind_split_asm)
    have s2: "Q s2" using local [OF s1 flushBatch_queue [OF f]] .
    show ?thesis
    proof (cases fl)
      case False
      with assms(1) d True f s2 show ?thesis by (auto simp: readerTurn_def)
    next
      case fl: True
      obtain n s3 where n: "(if c then notifySpace s2 else Some (True, s2)) = Some (n, s3)"
        using assms(1) d True f fl by (auto simp: readerTurn_def split: Option.bind_split_asm)
      have s3: "Q s3" using n s2 local notifySpace_queue by (auto split: if_splits)
      have "(if n then exitOrWait s3 else Some (Inl (EXIT_FAILURE, s3))) = Some r"
        using assms(1) d True f fl n by (simp add: readerTurn_def split: if_splits)
      with exits [of s3 r] s3 show ?thesis by (cases n) auto
    qed
  qed
qed

lemma turns:
  assumes "readerTurn s = Some r" and "Q s"
  shows "case r of Inl (code, s') \<Rightarrow> Q s' | Inr s' \<Rightarrow> Q s'"
proof -
  obtain ok c s1 where d: "drainRing False s = Some (ok, c, s1)"
    using assms(1) by (auto simp: readerTurn_def split: Option.bind_split_asm)
  from turns_on [OF assms(1) d] drains [OF d assms(2)] show ?thesis by simp
qed

lemma loops:
  assumes "readerLoop s = Some r" and "Q s"
  shows "Q (snd r)"
proof -
  define P where "P s r \<longleftrightarrow> (Q s \<longrightarrow> Q (snd r))" for s and r :: "exitCode \<times> readerState"
  have "P s r"
  proof (rule readerLoop.raw_induct [OF _ assms(1)])
    fix loop s and r :: "exitCode \<times> readerState"
    assume IH: "\<And>s r. loop s = Some r \<Longrightarrow> P s r"
      and body: "(case readerTurn s of None \<Rightarrow> None | Some (Inl r) \<Rightarrow> Some r | Some (Inr s') \<Rightarrow> loop s') = Some r"
    then obtain t where t: "readerTurn s = Some t" by (cases "readerTurn s") auto
    show "P s r" using turns [OF t] body t IH by (cases t) (auto simp: P_def)
  qed
  with assms(2) show ?thesis by (simp add: P_def)
qed

end


section \<open>A producer within the capacity\<close>

text \<open>
  The producer pushes its blocks one by one, never more than fits the ring in total, and closes
  at the end.
\<close>

definition blockScript :: "bytes list list list \<Rightarrow> bytes qop list list" where
  "blockScript blocks = map (map Enq) blocks @ [[Close]]"

definition blockFrames :: "bytes list list list \<Rightarrow> bytes list" where
  "blockFrames blocks = concat (map concat blocks)"

definition deliversAll :: "bytes list \<Rightarrow> readerState \<Rightarrow> bool" where
  "deliversAll fs s \<longleftrightarrow> ringInv (rd_ring s) \<and>
     ((\<exists>blocks. rd_producer s = blockScript blocks \<and> \<not> producerClosed (rd_ring s) \<and> list_all isFrame (blockFrames blocks) \<and>
        length (ringFrames (rd_ring s)) + length (blockFrames blocks) \<le> capacityFrames \<and>
        fs = rd_accepted s @ blockFrames blocks) \<or>
      rd_producer s = [] \<and> rd_accepted s = fs)"

lemma qRun_pushes:
  "ringInv r \<Longrightarrow> \<not> producerClosed r \<Longrightarrow> list_all isFrame (concat block) \<Longrightarrow>
   length (ringFrames r) + length (concat block) \<le> capacityFrames \<Longrightarrow>
   qRun pushFrames popFrames closeProducer (map Enq block) r = (acc, del, r') \<Longrightarrow>
   acc = concat block \<and> ringInv r' \<and> \<not> producerClosed r' \<and> ringFrames r' = ringFrames r @ concat block"
proof (induction block arbitrary: r acc del)
  case (Cons fs block)
  obtain n r1 where p: "pushFrames fs r = (n, r1)" by fastforce
  from Cons.prems have q: "n = length fs" "ringFrames r1 = ringFrames r @ fs" "ringInv r1" "\<not> producerClosed r1"
    using ring.enq_open [OF Cons.prems(1,2) _ p] by auto
  obtain acc1 del1 where rest: "qRun pushFrames popFrames closeProducer (map Enq block) r1 = (acc1, del1, r')" "acc = fs @ acc1"
    using Cons.prems(5) p q(1) by (auto split: prod.splits)
  from Cons.IH [OF q(3,4) _ _ rest(1)] Cons.prems(3,4) q(2) rest(2) show ?case by simp
qed simp


lemma blockScript_Cons: "blockScript (b # blocks) = map Enq b # blockScript blocks"
  by (simp add: blockScript_def)

lemma producerActs_deliversAll: "deliversAll fs s \<Longrightarrow> deliversAll fs (producerActs s)"
proof -
  assume d: "deliversAll fs s"
  show ?thesis
  proof (cases "rd_producer s = []")
    case True
    with d show ?thesis by (simp add: producerActs_def)
  next
    case False
    with d obtain blocks where b: "ringInv (rd_ring s)" "rd_producer s = blockScript blocks" "\<not> producerClosed (rd_ring s)"
      "list_all isFrame (blockFrames blocks)" "length (ringFrames (rd_ring s)) + length (blockFrames blocks) \<le> capacityFrames"
      "fs = rd_accepted s @ blockFrames blocks" by (auto simp: deliversAll_def)
    show ?thesis
    proof (cases blocks)
      case Nil
      with b closeProducer_spec [OF b(1)] show ?thesis
        by (simp add: producerActs_def deliversAll_def blockScript_def blockFrames_def)
    next
      case (Cons block later)
      obtain acc del r' where q: "qRun pushFrames popFrames closeProducer (map Enq block) (rd_ring s) = (acc, del, r')"
        by (metis prod_cases3)
      from qRun_pushes [OF b(1,3) _ _ q] b(4,5) Cons
      have p: "acc = concat block" "ringInv r'" "\<not> producerClosed r'" "ringFrames r' = ringFrames (rd_ring s) @ concat block"
        by (auto simp: blockFrames_def)
      have s': "producerActs s = s\<lparr>rd_producer := blockScript later, rd_ring := r', rd_accepted := rd_accepted s @ concat block,
          rd_log := rd_log s @ map Enq block\<rparr>"
        using b(2) Cons q p(1) by (simp add: producerActs_def blockScript_Cons)
      have "list_all isFrame (blockFrames later) \<and> length (ringFrames r') + length (blockFrames later) \<le> capacityFrames \<and>
          fs = (rd_accepted s @ concat block) @ blockFrames later"
        using b(4-6) Cons p(4) by (simp add: blockFrames_def)
      with p(2,3) show ?thesis unfolding deliversAll_def s' by auto
    qed
  qed
qed

lemma popBatch_deliversAll: "deliversAll fs s \<Longrightarrow> deliversAll fs (snd (popBatch s))"
proof -
  assume d: "deliversAll fs s"
  obtain popped buf r' where t: "tryPopBatch (rd_ipcBatch s) (rd_ring s) = (popped, buf, r')" by (metis prod_cases3)
  have i: "ringInv (rd_ring s)" using d by (simp add: deliversAll_def)
  have "ringInv r' \<and> producerClosed r' = producerClosed (rd_ring s) \<and> length (ringFrames r') \<le> length (ringFrames (rd_ring s))"
  proof (cases "kFrameSize dvd length (rd_ipcBatch s)")
    case True
    then obtain k where "length (rd_ipcBatch s) = k * kFrameSize" by (metis dvd_def mult.commute)
    from tryPopBatch_spec [OF i this t] show ?thesis by auto
  next
    case False
    then have "r' = rd_ring s" using t by (auto simp: tryPopBatch_def dvd_eq_mod_eq_0 split: option.splits)
    with i show ?thesis by simp
  qed
  with d t show ?thesis by (fastforce simp: popBatch_def deliversAll_def)
qed

interpretation delivery: queue_predicate "deliversAll fs" for fs
proof unfold_locales
  fix s s' assume "deliversAll fs s" "sameQueue s s'"
  then show "deliversAll fs s'" by (simp add: deliversAll_def sameQueue_def)
qed (use producerActs_deliversAll popBatch_deliversAll in blast)+

lemma blockScript_producer: "list_all isFrame (blockFrames blocks) \<Longrightarrow> list_all (list_all producerOp) (blockScript blocks)"
  by (auto simp: blockScript_def blockFrames_def list_all_iff)

lemma planned_blockScript: "planned (blockScript blocks) = blockFrames blocks"
  by (simp add: planned_def blockScript_def blockFrames_def comp_def)

lemma runReader_total:
  assumes "openFile (rc_dataFilePath config) (newStore (storeConfigOf config) env) = Some (True, st)"
    and "kernelWorks n (answers st)" and "kFrameSize * length (blockFrames blocks) < n"
    and "ringInv ring" and "\<not> producerClosed ring" and "ringFrames ring = []"
    and "list_all validFrame (blockFrames blocks)" and "length (blockFrames blocks) \<le> capacityFrames"
    and "enough (length blocks + 2) (\<lambda>_. True) notify" and "enough (length blocks + 2) (\<lambda>_. True) consume"
  shows "\<exists>s. runReader config env ring (blockScript blocks) notify consume = Some (EXIT_SUCCESS, s) \<and>
    rd_accepted s = blockFrames blocks \<and> storedBytes (rd_store s) = concat (blockFrames blocks) \<and>
    dirtyBytes (calls (rd_store s)) = 0"
proof -
  have fr: "list_all isFrame (blockFrames blocks)" using assms(7) by (auto simp: list_all_iff validFrame_def)
  note prod = blockScript_producer [OF fr]
  let ?s = "newReader ring st (blockScript blocks) notify consume"
  have ok: "readerOk ?s" by (rule newReader_ok [OF assms(1,4) prod])
  have "readerLive True n ?s"
    using ok assms(2,3,6,7) planned_blockScript [of blocks]
    by (simp add: readerLive_def newReader_def framesLeft_def closes_def) (simp add: blockScript_def)
  then obtain s where s: "readerLoop ?s = Some (EXIT_SUCCESS, s)"
    using readerLoop_works [of True n ?s "length blocks + 2"] assms(9,10) by (auto simp: newReader_def blockScript_def)
  have "deliversAll (blockFrames blocks) ?s"
    using assms(4-6,8) fr by (auto simp: deliversAll_def newReader_def)
  from delivery.loops [OF s this] have q: "deliversAll (blockFrames blocks) s" by simp
  have "readerDone EXIT_SUCCESS s" using readerLoop_result [OF s ok] by simp
  then have d: "storedBytes (rd_store s) = concat (rd_accepted s)" "producerClosed (rd_ring s)"
    "dirtyBytes (calls (rd_store s)) = 0" by (simp_all add: readerDone_def storeClean_def)
  with q have "rd_accepted s = blockFrames blocks" by (auto simp: deliversAll_def)
  with s d assms(1) show ?thesis by (simp add: runReader_def)
qed

text \<open>C15: total correctness of the reader: when the producer pushes valid frames in any blocks, at any
  accesses of the reader, in total no more than the ring holds, and then closes, and the storage
  calls and the event descriptors complete, the reader returns with success, and the file holds
  exactly the frames pushed, in order, all of it synced.\<close>

theorem reader_total:
  assumes "openFile (rc_dataFilePath config) (newStore (storeConfigOf config) env) = Some (True, st)"
    and "kernelWorks n (answers st)" and "kFrameSize * length (blockFrames blocks) < n"
    and "ringInv ring" and "\<not> producerClosed ring" and "ringFrames ring = []"
    and "list_all validFrame (blockFrames blocks)" and "length (blockFrames blocks) \<le> capacityFrames"
    and "enough (length blocks + 2) (\<lambda>_. True) notify" and "enough (length blocks + 2) (\<lambda>_. True) consume"
  shows "\<exists>s. runReader config env ring (blockScript blocks) notify consume = Some (EXIT_SUCCESS, s) \<and>
    rd_accepted s = blockFrames blocks \<and> storedBytes (rd_store s) = concat (blockFrames blocks) \<and>
    dirtyBytes (calls (rd_store s)) = 0"
  by (rule runReader_total [OF assms])

theorem reader_total_witness:
  "\<exists>s. runReader readerSampleConfig readerSampleAnswers emptyRing (blockScript [[], [[encode emptyRecord]]])
     (replicate 4 (Ret ())) (replicate 4 (Ret 1)) = Some (EXIT_SUCCESS, s) \<and>
     storedBytes (rd_store s) = encode emptyRecord"
proof -
  obtain st where st: "openFile (rc_dataFilePath readerSampleConfig)
      (newStore (storeConfigOf readerSampleConfig) readerSampleAnswers) = Some (True, st)" "kernelWorks 33 (answers st)"
    using sample_open by blast
  let ?b = "[[], [[encode emptyRecord]]]"
  have b: "blockFrames ?b = [encode emptyRecord]" by (simp add: blockFrames_def)
  have "kFrameSize * length (blockFrames ?b) < 33" "list_all validFrame (blockFrames ?b)" "length (blockFrames ?b) \<le> capacityFrames"
    "enough (length ?b + 2) (\<lambda>_. True) (replicate 4 (Ret ()))" "enough (length ?b + 2) (\<lambda>_. True) (replicate 4 (Ret 1))"
    using validFrame_encode by (simp_all add: b) (simp_all add: kFrameSize_def ring_defs)
  with reader_total [OF st this(1) _ _ _ this(2-5)] emptyRing_facts b show ?thesis by auto
qed

end
