(* ===== verification/ClientBuffer.thy ===== *)
theory ClientBuffer
  imports Prelude
begin

text \<open>
  The client input buffer of \<open>Server/include/Buffer.hpp\<close>: the received bytes, the length of
  the consumed prefix and the compaction that discards it.
\<close>

record buffer =
  b_data :: bytes
  b_offset :: nat

definition emptyBuffer :: buffer where
  "emptyBuffer = \<lparr>b_data = [], b_offset = 0\<rparr>"

definition bufferEmpty :: "buffer \<Rightarrow> bool" where
  "bufferEmpty b \<longleftrightarrow> length (b_data b) \<le> b_offset b"

definition bufferPending :: "buffer \<Rightarrow> nat" where
  "bufferPending b = (if bufferEmpty b then 0 else length (b_data b) - b_offset b)"

definition compact :: "buffer \<Rightarrow> nat \<Rightarrow> buffer" where
  "compact b threshold =
     (if b_offset b = 0 then b
      else if bufferEmpty b then b\<lparr>b_data := [], b_offset := 0\<rparr>
      else if threshold \<le> b_offset b then b\<lparr>b_data := drop (b_offset b) (b_data b), b_offset := 0\<rparr>
      else b)"

definition compactThreshold :: nat where "compactThreshold = 4096"

text \<open>The bytes not consumed yet.\<close>

definition unread :: "buffer \<Rightarrow> bytes" where
  "unread b = drop (b_offset b) (b_data b)"

definition bufferInv :: "buffer \<Rightarrow> bool" where
  "bufferInv b \<longleftrightarrow> b_offset b \<le> length (b_data b)"

lemma bufferPending_unread [simp]: "bufferPending b = length (unread b)"
  by (simp add: bufferPending_def bufferEmpty_def unread_def)

lemma bufferEmpty_unread: "bufferEmpty b \<longleftrightarrow> unread b = []"
  by (simp add: bufferEmpty_def unread_def)

lemma unread_compact [simp]: "unread (compact b t) = unread b"
  by (simp add: compact_def unread_def bufferEmpty_def)

lemma bufferInv_compact: "bufferInv b \<Longrightarrow> bufferInv (compact b t)"
  by (simp add: bufferInv_def compact_def)

lemma bufferInv_empty [simp]: "bufferInv emptyBuffer" "unread emptyBuffer = []"
  by (simp_all add: bufferInv_def emptyBuffer_def unread_def)

lemma unread_append:
  "bufferInv b \<Longrightarrow> unread (b\<lparr>b_data := b_data b @ xs\<rparr>) = unread b @ xs"
  by (simp add: unread_def bufferInv_def)

lemma bufferInv_append: "bufferInv b \<Longrightarrow> bufferInv (b\<lparr>b_data := b_data b @ xs\<rparr>)"
  by (simp add: bufferInv_def)

lemma unread_consume: "unread (b\<lparr>b_offset := b_offset b + n\<rparr>) = drop n (unread b)"
  by (simp add: unread_def add.commute)

lemma bufferInv_consume:
  "bufferInv b \<Longrightarrow> n \<le> length (unread b) \<Longrightarrow> bufferInv (b\<lparr>b_offset := b_offset b + n\<rparr>)"
  by (simp add: bufferInv_def unread_def)

text \<open>Compaction never changes the bytes that are still to be read, keeps the buffer well-formed,
  and bounds the memory it keeps: after it, the consumed prefix is shorter than the threshold,
  or empty.\<close>

theorem compact_preserves_unread:
  "unread (compact b t) = unread b \<and> (bufferInv b \<longrightarrow> bufferInv (compact b t)) \<and>
   (b_offset (compact b t) = 0 \<or> b_offset (compact b t) < t) \<and>
   (bufferInv b \<longrightarrow> 0 < t \<longrightarrow> length (b_data (compact b t)) < length (unread b) + t)"
  by (auto simp: compact_def unread_def bufferEmpty_def bufferInv_def)

theorem compact_preserves_unread_witness:
  "unread (compact \<lparr>b_data = [1, 2, 3], b_offset = 2\<rparr> 2) = [3] \<and>
   bufferInv (compact \<lparr>b_data = [1, 2, 3], b_offset = 2\<rparr> 2)"
  using compact_preserves_unread [of "\<lparr>b_data = [1, 2, 3], b_offset = 2\<rparr>" 2]
  by (simp add: unread_def bufferInv_def)

end
