(* ===== verification/Server.thy ===== *)
theory Server
  imports Ring EventFd ClientBuffer "HOL-Library.AList"
begin

text \<open>
  The ingress process of \<open>Server/src/Server.cpp\<close>. \<open>server\<close> has the members and the locals of
  \<open>run\<close> that live across iterations; the clients are an association list in the place of the
  \<open>unordered_map\<close>, whose iteration order no theorem depends on. The rest of the record is the
  world: \<open>sv_input\<close> what each socket's \<open>recv\<close> calls answer (a socket without further answers
  would block, \<open>EAGAIN\<close>), \<open>sv_accept\<close> and \<open>sv_signals\<close> likewise for the listening socket and the
  signal descriptor, \<open>sv_ctl\<close> whether the coming \<open>epoll_ctl\<close> calls succeed (calls beyond the list
  do), \<open>sv_epoll\<close> the registered descriptors, \<open>sv_open\<close> the open descriptors, \<open>sv_opened\<close> and
  \<open>sv_closed\<close> those that the server opened and closed so far, \<open>sv_reader\<close> what the reader pops right before each access to the ring,
  \<open>sv_published\<close> and \<open>sv_delivered\<close> the frames that went in and out of the ring and \<open>sv_log\<close> the calls
  that both processes made on it so far, as the server sees them. \<open>None\<close> is an event
  descriptor that blocks, or an answer that the kernel never gives: a descriptor that is in use.
\<close>

section \<open>Data\<close>

definition kMaxEvents :: nat where "kMaxEvents = 64"
definition kReadBufferSize :: nat where "kReadBufferSize = 4096"
definition kMaxClientBuffer :: nat where "kMaxClientBuffer = 64 * 1024"
definition kPauseIngressBytes :: nat where "kPauseIngressBytes = 3 * 1024 * 1024"
definition kResumeIngressBytes :: nat where "kResumeIngressBytes = 1 * 1024 * 1024"

declare kReadBufferSize_def [server_consts] kMaxClientBuffer_def [server_consts]
  kPauseIngressBytes_def [server_consts] kResumeIngressBytes_def [server_consts]

text \<open>The event masks of \<open>sys/epoll.h\<close>.\<close>

definition EPOLLIN :: u32 where "EPOLLIN = 0x001"
definition EPOLLERR :: u32 where "EPOLLERR = 0x008"
definition EPOLLHUP :: u32 where "EPOLLHUP = 0x010"
definition EPOLLRDHUP :: u32 where "EPOLLRDHUP = 0x2000"

unbundle bit_operations_syntax

definition clientMask :: u32 where "clientMask = EPOLLIN OR EPOLLRDHUP OR EPOLLERR OR EPOLLHUP"
definition listenMask :: u32 where "listenMask = EPOLLIN OR EPOLLERR OR EPOLLHUP"

record serverConfig =
  sc_port :: u16
  sc_quiet :: bool

datatype serverState = Running | Draining

record signalState =
  shutdownRequested :: bool
  readerTerminated :: bool

datatype childCode = CLD_EXITED | CLD_KILLED | CLD_DUMPED | CLD_STOPPED | CLD_CONTINUED | CLD_TRAPPED

datatype siginfo = SIGINT | SIGTERM | SIGCHLD int childCode | SIGOTHER

text \<open>What a \<open>read\<close> of the signal descriptor returns: a whole record, or some other byte count.\<close>

datatype signalRead = Whole siginfo | Short nat

record server =
  sv_clients :: "(int \<times> buffer) list"
  sv_listenFd :: int
  sv_state :: serverState
  sv_ingressPaused :: bool
  sv_ring :: sharedRing
  sv_input :: "int \<Rightarrow> bytes sysret list"
  sv_accept :: "int sysret list"
  sv_signals :: "signalRead sysret list"
  sv_ctl :: "bool list"
  sv_epoll :: "int \<rightharpoonup> u32"
  sv_open :: "int list"
  sv_opened :: "int list"
  sv_closed :: "int list"
  sv_notify :: "unit sysret list"
  sv_consume :: "u64 sysret list"
  sv_reader :: "nat list"
  sv_published :: "bytes list"
  sv_delivered :: "bytes list"
  sv_log :: "bytes qop list"


section \<open>The world\<close>

definition readerActs :: "server \<Rightarrow> server" where
  "readerActs s =
     (case sv_reader s of
        [] \<Rightarrow> s
      | k # rest \<Rightarrow>
          (case popFrames k (sv_ring s) of
             (fs, ring) \<Rightarrow> s\<lparr>sv_reader := rest, sv_ring := ring, sv_delivered := sv_delivered s @ fs,
                sv_log := sv_log s @ [Deq (length fs)]\<rparr>))"

definition openFd :: "int \<Rightarrow> server \<Rightarrow> server" where
  "openFd fd s = s\<lparr>sv_open := fd # sv_open s, sv_opened := sv_opened s @ [fd]\<rparr>"

definition closeFd :: "int \<Rightarrow> server \<Rightarrow> server" where
  "closeFd fd s = s\<lparr>sv_open := remove1 fd (sv_open s), sv_closed := sv_closed s @ [fd],
     sv_epoll := (sv_epoll s)(fd := None)\<rparr>"

definition epollCtl :: "((int \<rightharpoonup> u32) \<Rightarrow> (int \<rightharpoonup> u32)) \<Rightarrow> server \<Rightarrow> bool \<times> server" where
  "epollCtl change s =
     (case sv_ctl s of
        [] \<Rightarrow> (True, s\<lparr>sv_epoll := change (sv_epoll s)\<rparr>)
      | b # rest \<Rightarrow>
          (b, if b then s\<lparr>sv_epoll := change (sv_epoll s), sv_ctl := rest\<rparr> else s\<lparr>sv_ctl := rest\<rparr>))"

text \<open>
  A \<open>tryPushBatch\<close> call of the server; the log of published frames gets what the ring took.
\<close>

definition pushBatch :: "bytes \<Rightarrow> server \<Rightarrow> nat \<times> server" where
  "pushBatch bs s =
     (let s1 = readerActs s
      in case tryPushBatch bs (sv_ring s1) of
           (pushed, ring) \<Rightarrow>
             (pushed, s1\<lparr>sv_ring := ring,
                sv_published := sv_published s1 @ take pushed (chunks kFrameSize bs),
                sv_log := sv_log s1 @ [Enq (chunks kFrameSize bs)]\<rparr>))"

definition loadPendingBytes :: "server \<Rightarrow> nat \<times> server" where
  "loadPendingBytes s = (let s1 = readerActs s in (pendingBytes (sv_ring s1), s1))"

definition loadEmpty :: "server \<Rightarrow> bool \<times> server" where
  "loadEmpty s = (let s1 = readerActs s in (ringEmpty (sv_ring s1), s1))"

definition notifyData :: "server \<Rightarrow> (bool \<times> server) option" where
  "notifyData s =
     do {
       (ok, rest) \<leftarrow> notifyEvent (sv_notify s);
       Some (ok, s\<lparr>sv_notify := rest\<rparr>)
     }"

definition consumeSpace :: "server \<Rightarrow> (bool \<times> server) option" where
  "consumeSpace s =
     do {
       (ok, rest) \<leftarrow> consumeEvent (sv_consume s);
       Some (ok, s\<lparr>sv_consume := rest\<rparr>)
     }"


section \<open>Descriptors\<close>

definition addEpollFd :: "int \<Rightarrow> u32 \<Rightarrow> server \<Rightarrow> bool \<times> server" where
  "addEpollFd fd events s = epollCtl (\<lambda>e. e(fd \<mapsto> events)) s"

definition modifyEpollFd :: "int \<Rightarrow> u32 \<Rightarrow> server \<Rightarrow> bool \<times> server" where
  "modifyEpollFd fd events s = epollCtl (\<lambda>e. e(fd \<mapsto> events)) s"

definition removeEpollFd :: "int \<Rightarrow> server \<Rightarrow> bool \<times> server" where
  "removeEpollFd fd s = epollCtl (\<lambda>e. e(fd := None)) s"

definition removeClient :: "int \<Rightarrow> server \<Rightarrow> server" where
  "removeClient fd s =
     (let s1 = snd (removeEpollFd fd s);
          s2 = closeFd fd s1
      in s2\<lparr>sv_clients := AList.delete fd (sv_clients s2)\<rparr>)"

function removeAllClients :: "server \<Rightarrow> server" where
  "removeAllClients s =
     (case sv_clients s of
        [] \<Rightarrow> s
      | (fd, _) # _ \<Rightarrow> removeAllClients (removeClient fd s))"
  by pat_completeness auto

lemma removeClient_clients [simp]: "sv_clients (removeClient fd s) = AList.delete fd (sv_clients s)"
  by (simp add: removeClient_def Let_def closeFd_def removeEpollFd_def epollCtl_def split: list.split)

termination removeAllClients
proof (relation "measure (\<lambda>s. length (sv_clients s))")
  fix s :: server and p fd b rest
  assume "sv_clients s = p # rest" "(fd, b) = p"
  then have "length (AList.delete fd (sv_clients s)) \<le> length rest"
    using length_delete_le [of fd rest] by auto
  then show "(removeClient fd s, s) \<in> measure (\<lambda>s. length (sv_clients s))"
    using \<open>sv_clients s = p # rest\<close> by simp
qed simp

declare removeAllClients.simps [simp del]

text \<open>\<open>updateIngressInterest\<close>: the loop over the clients stops at the first failure.\<close>

fun updateClients :: "bool \<Rightarrow> int list \<Rightarrow> server \<Rightarrow> bool \<times> server" where
  "updateClients enabled [] s = (True, s)"
| "updateClients enabled (fd # fds) s =
     (case (if enabled then addEpollFd fd clientMask s else removeEpollFd fd s) of
        (False, s1) \<Rightarrow> (False, s1)
      | (True, s1) \<Rightarrow> updateClients enabled fds s1)"

definition updateIngressInterest :: "bool \<Rightarrow> server \<Rightarrow> bool \<times> server" where
  "updateIngressInterest enabled s =
     (let listenEvents = (EPOLLERR OR EPOLLHUP);
          listenEvents' = (if enabled then listenEvents OR EPOLLIN else listenEvents)
      in case modifyEpollFd (sv_listenFd s) listenEvents' s of
           (False, s1) \<Rightarrow> (False, s1)
         | (True, s1) \<Rightarrow> updateClients enabled (map fst (sv_clients s1)) s1)"

definition beginDraining :: "server \<Rightarrow> server" where
  "beginDraining s =
     removeAllClients
       (if sv_listenFd s \<noteq> -1
        then (closeFd (sv_listenFd s) (snd (removeEpollFd (sv_listenFd s) s)))\<lparr>sv_listenFd := -1\<rparr>
        else s)"


section \<open>Accepting\<close>

text \<open>
  \<open>accept4\<close>: the first argument is the list of answers. An accepted descriptor is one that was
  not open.
\<close>

fun acceptLoop :: "int sysret list \<Rightarrow> server \<Rightarrow> (bool \<times> server) option" where
  "acceptLoop [] s = Some (True, s\<lparr>sv_accept := []\<rparr>)"
| "acceptLoop (Ret fd # rest) s =
     (if fd < 0 \<or> fd \<in> set (sv_open s) then None
      else
        let s1 = openFd fd s
        in case addEpollFd fd clientMask s1 of
             (False, s2) \<Rightarrow> acceptLoop rest (closeFd fd s2)
           | (True, s2) \<Rightarrow>
               acceptLoop rest
                 (if fd \<in> fst ` set (sv_clients s2) then s2
                  else s2\<lparr>sv_clients := (fd, emptyBuffer) # sv_clients s2\<rparr>))"
| "acceptLoop (Fail e # rest) s =
     (if e = EAGAIN \<or> e = EWOULDBLOCK then Some (True, s\<lparr>sv_accept := rest\<rparr>)
      else if e = EINTR then acceptLoop rest s
      else Some (False, s\<lparr>sv_accept := rest\<rparr>))"

definition acceptClients :: "server \<Rightarrow> (bool \<times> server) option" where
  "acceptClients s = acceptLoop (sv_accept s) s"


section \<open>Reading a client\<close>

definition clientBuffer :: "int \<Rightarrow> server \<Rightarrow> buffer" where
  "clientBuffer fd s = (case map_of (sv_clients s) fd of None \<Rightarrow> emptyBuffer | Some b \<Rightarrow> b)"

definition setBuffer :: "int \<Rightarrow> buffer \<Rightarrow> server \<Rightarrow> server" where
  "setBuffer fd b s = s\<lparr>sv_clients := AList.update fd b (sv_clients s)\<rparr>"

text \<open>
  The validation loop: the number of leading valid frames among the next \<open>n\<close> frames at \<open>base\<close>, and
  the error that stopped it.
\<close>

fun scanFrames :: "bytes \<Rightarrow> nat \<Rightarrow> nat \<Rightarrow> nat \<times> decodeError" where
  "scanFrames bs base 0 = (0, NoError)"
| "scanFrames bs base (Suc n) =
     (let decoded = decode (take kFrameSize (drop base bs))
      in if \<not> dr_ok decoded then (0, dr_error decoded)
         else case scanFrames bs (base + kFrameSize) n of (v, e) \<Rightarrow> (Suc v, e))"

definition notifyPublished :: "bool \<Rightarrow> server \<Rightarrow> (bool \<times> server) option" where
  "notifyPublished publishedAny s = (if \<not> publishedAny then Some (True, s) else notifyData s)"

text \<open>What the body of the loop decides: \<open>continue\<close>, or \<open>return\<close> with a value.\<close>

datatype readStep = Again | Return bool

text \<open>
  Publishing the valid prefix: the number of frames pushed, \<open>pauseIngressRequested\<close> and the state,
  with the client's offset advanced.
\<close>

definition publishFrames :: "int \<Rightarrow> nat \<Rightarrow> bool \<Rightarrow> server \<Rightarrow> nat \<times> bool \<times> server" where
  "publishFrames fd validFrames pause s =
     (if validFrames = 0 then (0, pause, s)
      else
        let b = clientBuffer fd s
        in case pushBatch (take (validFrames * kFrameSize) (drop (b_offset b) (b_data b))) s of
             (pushed, s1) \<Rightarrow>
               let s2 = setBuffer fd (b\<lparr>b_offset := b_offset b + pushed * kFrameSize\<rparr>) s1
               in if pushed \<noteq> validFrames then (pushed, pause, s2)
                  else case loadPendingBytes s2 of
                         (n, s3) \<Rightarrow> (pushed, pause \<or> kPauseIngressBytes \<le> n, s3))"

definition handleBytes :: "int \<Rightarrow> bytes \<Rightarrow> bool \<Rightarrow> server \<Rightarrow> (readStep \<times> bool \<times> server) option" where
  "handleBytes fd received pause s =
     (let b = clientBuffer fd s;
          b1 = b\<lparr>b_data := b_data b @ received\<rparr>;
          s1 = setBuffer fd b1 s
      in if kMaxClientBuffer < bufferPending b1 then Some (Return True, pause, removeClient fd s1)
         else case scanFrames (b_data b1) (b_offset b1) (bufferPending b1 div kFrameSize) of
           (validFrames, invalidError) \<Rightarrow>
             (case publishFrames fd validFrames pause s1 of
                (pushed, pause', s2) \<Rightarrow>
                  if pushed \<noteq> validFrames
                  then do {
                    (_, s3) \<leftarrow> notifyPublished (pushed \<noteq> 0) s2;
                    Some (Return False, pause', s3)
                  }
                  else if invalidError \<noteq> NoError
                  then do {
                    (ok, s3) \<leftarrow> notifyPublished (pushed \<noteq> 0) s2;
                    if \<not> ok then Some (Return False, pause', s3)
                    else Some (Return True, pause', removeClient fd s3)
                  }
                  else do {
                    (ok, s3) \<leftarrow> notifyPublished (pushed \<noteq> 0) s2;
                    if \<not> ok then Some (Return False, pause', s3)
                    else Some (if pause' then Return True else Again, pause',
                               setBuffer fd (compact (clientBuffer fd s3) compactThreshold) s3)
                  }))"

text \<open>The loop over \<open>recv\<close>; the first argument is the list of answers of the socket.\<close>

fun readLoop :: "bytes sysret list \<Rightarrow> int \<Rightarrow> bool \<Rightarrow> server \<Rightarrow> (bool \<times> bool \<times> server) option" where
  "readLoop [] fd pause s = Some (True, pause, s\<lparr>sv_input := (sv_input s)(fd := [])\<rparr>)"
| "readLoop (r # rest) fd pause s =
     (let s0 = s\<lparr>sv_input := (sv_input s)(fd := rest)\<rparr>
      in case r of
           Ret bs \<Rightarrow>
             (let received = take kReadBufferSize bs
              in if received \<noteq> []
                 then do {
                   (step, pause', s1) \<leftarrow> handleBytes fd received pause s0;
                   (case step of
                      Again \<Rightarrow> readLoop rest fd pause' s1
                    | Return ok \<Rightarrow> Some (ok, pause', s1))
                 }
                 else Some (True, pause, removeClient fd s0))
         | Fail e \<Rightarrow>
             if e = EINTR then readLoop rest fd pause s
             else if e = EAGAIN \<or> e = EWOULDBLOCK then Some (True, pause, s0)
             else Some (True, pause, removeClient fd s0))"

definition readClient :: "int \<Rightarrow> server \<Rightarrow> (bool \<times> bool \<times> server) option" where
  "readClient fd s =
     (if map_of (sv_clients s) fd = None then Some (True, False, s)
      else readLoop (sv_input s fd) fd False s)"


section \<open>Signals\<close>

fun signalLoop :: "int \<Rightarrow> signalRead sysret list \<Rightarrow> signalState \<Rightarrow> bool \<times> signalState \<times> signalRead sysret list" where
  "signalLoop readerPid [] st = (True, st, [])"
| "signalLoop readerPid (Ret (Whole info) # rest) st =
     signalLoop readerPid rest
       (case info of
          SIGINT \<Rightarrow> st\<lparr>shutdownRequested := True\<rparr>
        | SIGTERM \<Rightarrow> st\<lparr>shutdownRequested := True\<rparr>
        | SIGCHLD pid code \<Rightarrow>
            if pid \<noteq> readerPid then st
            else (case code of
                    CLD_EXITED \<Rightarrow> st\<lparr>readerTerminated := True\<rparr>
                  | CLD_KILLED \<Rightarrow> st\<lparr>readerTerminated := True\<rparr>
                  | CLD_DUMPED \<Rightarrow> st\<lparr>readerTerminated := True\<rparr>
                  | CLD_STOPPED \<Rightarrow> st
                  | CLD_CONTINUED \<Rightarrow> st
                  | CLD_TRAPPED \<Rightarrow> st)
        | SIGOTHER \<Rightarrow> st)"
| "signalLoop readerPid (Ret (Short n) # rest) st = (False, st, rest)"
| "signalLoop readerPid (Fail e # rest) st =
     (if e = EINTR then signalLoop readerPid rest st
      else if e = EAGAIN \<or> e = EWOULDBLOCK then (True, st, rest)
      else (False, st, rest))"

definition handleSignalFd :: "int \<Rightarrow> server \<Rightarrow> bool \<times> signalState \<times> server" where
  "handleSignalFd readerPid s =
     (case signalLoop readerPid (sv_signals s) \<lparr>shutdownRequested = False, readerTerminated = False\<rparr> of
        (ok, st, rest) \<Rightarrow> (ok, st, s\<lparr>sv_signals := rest\<rparr>))"

definition handleSignalEvent :: "u32 \<Rightarrow> int \<Rightarrow> server \<Rightarrow> bool \<times> server" where
  "handleSignalEvent events readerPid s =
     (case (if events AND EPOLLIN \<noteq> 0
            then case handleSignalFd readerPid s of
                   (ok, st, s1) \<Rightarrow>
                     if \<not> ok then (False, s1)
                     else if readerTerminated st then (False, s1)
                     else if shutdownRequested st \<and> sv_state s1 = Running
                     then (True, beginDraining (s1\<lparr>sv_state := Draining\<rparr>))
                     else (True, s1)
            else (True, s)) of
        (False, s2) \<Rightarrow> (False, s2)
      | (True, s2) \<Rightarrow> (events AND (EPOLLERR OR EPOLLHUP) = 0, s2))"


section \<open>Events\<close>

text \<open>The three parts of \<open>handleEvent\<close>, by the descriptor.\<close>

definition handleListenEvent :: "u32 \<Rightarrow> server \<Rightarrow> (bool \<times> server) option" where
  "handleListenEvent eventMask s =
     do {
       (ok, s1) \<leftarrow> (if \<not> sv_ingressPaused s \<and> eventMask AND EPOLLIN \<noteq> 0 then acceptClients s else Some (True, s));
       Some (if \<not> ok then (False, s1) else (eventMask AND (EPOLLERR OR EPOLLHUP) = 0, s1))
     }"

definition handleSpaceEvent :: "u32 \<Rightarrow> server \<Rightarrow> (bool \<times> server) option" where
  "handleSpaceEvent eventMask s =
     do {
       (ok, s1) \<leftarrow> (if eventMask AND EPOLLIN \<noteq> 0
                   then do {
                     (consumed, s1) \<leftarrow> consumeSpace s;
                     Some (if \<not> consumed then (False, s1)
                           else if sv_state s1 = Running \<and> sv_ingressPaused s1
                           then (case loadPendingBytes s1 of
                                   (n, s2) \<Rightarrow>
                                     if n \<le> kResumeIngressBytes
                                     then (case updateIngressInterest True s2 of
                                             (False, s3) \<Rightarrow> (False, s3)
                                           | (True, s3) \<Rightarrow> (True, s3\<lparr>sv_ingressPaused := False\<rparr>))
                                     else (True, s2))
                           else (True, s1))
                   }
                   else Some (True, s));
       Some (if \<not> ok then (False, s1) else (eventMask AND (EPOLLERR OR EPOLLHUP) = 0, s1))
     }"

text \<open>The end of \<open>handleEvent\<close>, reached unless ingress was just paused.\<close>

definition handleHangup :: "int \<Rightarrow> u32 \<Rightarrow> server \<Rightarrow> bool \<times> server" where
  "handleHangup fd eventMask s =
     (if sv_ingressPaused s then (True, s)
      else if eventMask AND (EPOLLRDHUP OR EPOLLHUP OR EPOLLERR) \<noteq> 0
      then if map_of (sv_clients s) fd \<noteq> None then (True, removeClient fd s) else (True, s)
      else (True, s))"

definition handleClientEvent :: "int \<Rightarrow> u32 \<Rightarrow> server \<Rightarrow> (bool \<times> server) option" where
  "handleClientEvent fd eventMask s =
     (if \<not> sv_ingressPaused s \<and> eventMask AND EPOLLIN \<noteq> 0
      then do {
        (ok, pauseRequested, s1) \<leftarrow> readClient fd s;
        Some (if \<not> ok then (False, s1)
              else if pauseRequested
              then (case updateIngressInterest False s1 of
                      (False, s2) \<Rightarrow> (False, s2)
                    | (True, s2) \<Rightarrow> (True, s2\<lparr>sv_ingressPaused := True\<rparr>))
              else handleHangup fd eventMask s1)
      }
      else Some (handleHangup fd eventMask s))"

definition handleEvent :: "int \<Rightarrow> int \<Rightarrow> u32 \<Rightarrow> server \<Rightarrow> (bool \<times> server) option" where
  "handleEvent spaceReadyFd fd eventMask s =
     (if fd = sv_listenFd s then handleListenEvent eventMask s
      else if fd = spaceReadyFd then handleSpaceEvent eventMask s
      else handleClientEvent fd eventMask s)"


section \<open>The event loop\<close>

record serverFds =
  fdSpaceReady :: int
  fdSignal :: int
  pidReader :: int

text \<open>The loop over the events of one \<open>epoll_wait\<close>; the result says whether to go on.\<close>

fun handleEvents :: "serverFds \<Rightarrow> (int \<times> u32) list \<Rightarrow> server \<Rightarrow> (bool \<times> server) option" where
  "handleEvents fds [] s = Some (True, s)"
| "handleEvents fds ((fd, eventMask) # evs) s =
     do {
       (ok, s1) \<leftarrow> (if fd = fdSignal fds then Some (handleSignalEvent eventMask (pidReader fds) s)
                   else handleEvent (fdSpaceReady fds) fd eventMask s);
       if ok then handleEvents fds evs s1 else Some (False, s1)
     }"

definition drainedExit :: "server \<Rightarrow> bool \<times> server" where
  "drainedExit s = (if sv_state s = Draining then loadEmpty s else (False, s))"

fun serverLoop :: "serverFds \<Rightarrow> (int \<times> u32) list sysret list \<Rightarrow> server \<Rightarrow> (exitCode \<times> server) option" where
  "serverLoop fds [] s =
     (case drainedExit s of (leave, s1) \<Rightarrow> if leave then Some (EXIT_SUCCESS, s1) else None)"
| "serverLoop fds (ready # waits) s =
     (case drainedExit s of
        (leave, s1) \<Rightarrow>
          if leave then Some (EXIT_SUCCESS, s1)
          else (case ready of
                  Fail e \<Rightarrow> if e = EINTR then serverLoop fds waits s1 else Some (EXIT_FAILURE, s1)
                | Ret evs \<Rightarrow>
                    do {
                      (running, s2) \<leftarrow> handleEvents fds (take kMaxEvents evs) s1;
                      if running then serverLoop fds waits s2 else Some (EXIT_FAILURE, s2)
                    }))"

text \<open>The end of \<open>run\<close>.\<close>

definition shutdownServer :: "int \<Rightarrow> server \<Rightarrow> server" where
  "shutdownServer epollFd s =
     (let s1 = removeAllClients s;
          s2 = (if sv_listenFd s1 \<noteq> -1 then closeFd (sv_listenFd s1) s1 else s1)
      in closeFd epollFd s2)"

record setupAnswers =
  su_socket :: "int sysret"
  su_setsockopt :: "unit sysret"
  su_bind :: "unit sysret"
  su_listen :: "unit sysret"
  su_epoll :: "int sysret"

definition completedCall :: "'a sysret \<Rightarrow> bool" where
  "completedCall r = (case r of Ret _ \<Rightarrow> True | Fail _ \<Rightarrow> False)"

text \<open>
  The three registrations. Closing order on failure: the epoll descriptor, then the listening
  socket.
\<close>

fun registerAll :: "int list \<Rightarrow> server \<Rightarrow> bool \<times> server" where
  "registerAll [] s = (True, s)"
| "registerAll (fd # fds) s =
     (case addEpollFd fd listenMask s of
        (False, s1) \<Rightarrow> (False, s1)
      | (True, s1) \<Rightarrow> registerAll fds s1)"

definition runServer ::
    "setupAnswers \<Rightarrow> serverFds \<Rightarrow> (int \<times> u32) list sysret list \<Rightarrow> server \<Rightarrow> (exitCode \<times> server) option" where
  "runServer su fds waits s =
     (case su_socket su of
        Fail _ \<Rightarrow> Some (EXIT_FAILURE, s)
      | Ret listenFd \<Rightarrow>
          if listenFd < 0 \<or> listenFd \<in> set (sv_open s) then None
          else
            let s1 = (openFd listenFd s)\<lparr>sv_listenFd := listenFd\<rparr>
            in if \<not> completedCall (su_setsockopt su) \<or> \<not> completedCall (su_bind su) \<or> \<not> completedCall (su_listen su)
               then Some (EXIT_FAILURE, closeFd listenFd s1)
               else (case su_epoll su of
                       Fail _ \<Rightarrow> Some (EXIT_FAILURE, closeFd listenFd s1)
                     | Ret epollFd \<Rightarrow>
                         if epollFd < 0 \<or> epollFd \<in> set (sv_open s1) then None
                         else
                           let s2 = openFd epollFd s1
                           in case registerAll [listenFd, fdSpaceReady fds, fdSignal fds] s2 of
                                (False, s3) \<Rightarrow> Some (EXIT_FAILURE, closeFd listenFd (closeFd epollFd s3))
                              | (True, s3) \<Rightarrow>
                                  do {
                                    (result, s4) \<leftarrow>
                                      serverLoop fds waits (s3\<lparr>sv_state := Running, sv_ingressPaused := False\<rparr>);
                                    Some (result, shutdownServer epollFd s4)
                                  }))"

text \<open>A new server on a ring; \<open>base\<close> are the descriptors that are open already.\<close>

definition newServer ::
    "sharedRing \<Rightarrow> int list \<Rightarrow> (int \<Rightarrow> bytes sysret list) \<Rightarrow> int sysret list \<Rightarrow> signalRead sysret list \<Rightarrow> bool list \<Rightarrow>
     unit sysret list \<Rightarrow> u64 sysret list \<Rightarrow> nat list \<Rightarrow> server" where
  "newServer ring base input accepts signals ctl notify consume reader =
     \<lparr>sv_clients = [], sv_listenFd = -1, sv_state = Running, sv_ingressPaused = False, sv_ring = ring,
      sv_input = input, sv_accept = accepts, sv_signals = signals, sv_ctl = ctl, sv_epoll = Map.empty,
      sv_open = base, sv_opened = [], sv_closed = [], sv_notify = notify, sv_consume = consume, sv_reader = reader,
      sv_published = ringFrames ring, sv_delivered = [], sv_log = ringHistory ring\<rparr>"

text \<open>The descriptors that the destructor closes.\<close>

definition destroyServer :: "server \<Rightarrow> int list" where
  "destroyServer s = map fst (sv_clients s)"


section \<open>The valid prefix of a byte stream\<close>

definition validPrefix :: "bytes \<Rightarrow> bytes list" where
  "validPrefix bs = takeWhile (\<lambda>f. dr_ok (decode f)) (chunks kFrameSize bs)"

lemma validPrefix_step:
  "kFrameSize \<le> length bs \<Longrightarrow> validPrefix bs =
     (if dr_ok (decode (take kFrameSize bs)) then take kFrameSize bs # validPrefix (drop kFrameSize bs) else [])"
  by (simp add: validPrefix_def chunks_step [of kFrameSize bs])

lemma validPrefix_short [simp]: "length bs < kFrameSize \<Longrightarrow> validPrefix bs = []"
  by (simp add: validPrefix_def)

lemma validPrefix_take: "validPrefix bs = take (length (validPrefix bs)) (chunks kFrameSize bs)"
  unfolding validPrefix_def by (rule takeWhile_eq_take)

lemma validPrefix_valid: "list_all validFrame (validPrefix bs)"
  using chunks_lengths [OF kFrameSize_pos(1)]
  by (auto simp: list_all_iff validFrame_def isFrame_def validPrefix_def dest: set_takeWhileD)

lemma validPrefix_frames: "\<forall>f \<in> set (validPrefix bs). isFrame f"
  using validPrefix_valid [of bs] by (auto simp: list_all_iff validFrame_def)

lemma length_validPrefix: "length (validPrefix bs) \<le> length bs div kFrameSize"
  using length_takeWhile_le [of _ "chunks kFrameSize bs"] by (simp add: validPrefix_def length_chunks)

lemma concat_validPrefix: "concat (validPrefix bs) = take (length (validPrefix bs) * kFrameSize) bs"
proof -
  let ?v = "length (validPrefix bs)"
  have le: "?v * kFrameSize \<le> length bs"
    using length_validPrefix [of bs] by (metis div_times_less_eq_dividend le_trans mult_le_mono1)
  have "concat (chunks kFrameSize (take (?v * kFrameSize) bs)) = take (?v * kFrameSize) bs"
    using le by (intro concat_chunks_whole) simp_all
  then show ?thesis by (subst validPrefix_take) (simp add: chunks_take)
qed

text \<open>The bytes after the valid prefix; they are less than a frame when every frame is valid.\<close>

definition allValid :: "bytes \<Rightarrow> bool" where
  "allValid bs \<longleftrightarrow> validPrefix bs = chunks kFrameSize bs"

definition remainder :: "bytes \<Rightarrow> bytes" where
  "remainder bs = drop (length (validPrefix bs) * kFrameSize) bs"

lemma prefix_remainder: "concat (validPrefix bs) @ remainder bs = bs"
  by (simp add: concat_validPrefix remainder_def)

lemma remainder_short: "allValid bs \<Longrightarrow> length (remainder bs) < kFrameSize"
  by (simp add: allValid_def remainder_def length_chunks minus_div_mult_eq_mod)

lemma short_stream [simp]: "length bs < kFrameSize \<Longrightarrow> allValid bs" "length bs < kFrameSize \<Longrightarrow> remainder bs = bs"
  by (simp_all add: allValid_def remainder_def)

text \<open>Reading on: what follows a stream whose frames are all valid.\<close>

lemma chunks_read_on:
  assumes "allValid bs"
  shows "chunks kFrameSize (bs @ cs) = validPrefix bs @ chunks kFrameSize (remainder bs @ cs)"
proof -
  let ?n = "length (validPrefix bs) * kFrameSize"
  have n: "?n = kFrameSize * (length bs div kFrameSize)" using assms by (simp add: allValid_def length_chunks)
  then have "?n \<le> length bs" by simp
  then have len: "kFrameSize dvd length (take ?n bs)" by simp
  have c: "chunks kFrameSize (take ?n bs) = validPrefix bs"
    using chunks_take [OF kFrameSize_pos(1), of "length (validPrefix bs)" bs] assms by (simp add: allValid_def)
  have "bs @ cs = take ?n bs @ remainder bs @ cs" by (simp add: remainder_def)
  then show ?thesis using chunks_append_dvd [OF kFrameSize_pos(1) len] c by metis
qed

lemma validPrefix_read_on:
  assumes "allValid bs"
  shows "validPrefix (bs @ cs) = validPrefix bs @ validPrefix (remainder bs @ cs)"
proof -
  have v: "dr_ok (decode f)" if "f \<in> set (validPrefix bs)" for f
    using that unfolding validPrefix_def by (metis set_takeWhileD)
  have "validPrefix (bs @ cs) = takeWhile (\<lambda>f. dr_ok (decode f)) (validPrefix bs @ chunks kFrameSize (remainder bs @ cs))"
    by (simp only: validPrefix_def [of "bs @ cs"] chunks_read_on [OF assms])
  also have "\<dots> = validPrefix bs @ validPrefix (remainder bs @ cs)"
    unfolding validPrefix_def [of "remainder bs @ cs"] using v by (rule takeWhile_append2)
  finally show ?thesis .
qed

lemma read_on:
  assumes "allValid bs"
  shows "allValid (bs @ cs) \<longleftrightarrow> allValid (remainder bs @ cs)"
    and "remainder (bs @ cs) = remainder (remainder bs @ cs)"
proof -
  show "allValid (bs @ cs) \<longleftrightarrow> allValid (remainder bs @ cs)"
    using chunks_read_on [OF assms] validPrefix_read_on [OF assms] by (simp add: allValid_def)
  have "concat (validPrefix bs) @ concat (validPrefix (remainder bs @ cs)) @ remainder (bs @ cs) =
      concat (validPrefix bs) @ concat (validPrefix (remainder bs @ cs)) @ remainder (remainder bs @ cs)"
    using prefix_remainder [of "bs @ cs"] prefix_remainder [of bs] prefix_remainder [of "remainder bs @ cs"]
    by (simp add: validPrefix_read_on [OF assms])
  then show "remainder (bs @ cs) = remainder (remainder bs @ cs)" by simp
qed

lemma scanFrames_spec:
  assumes "n = length (drop base bs) div kFrameSize"
  shows "fst (scanFrames bs base n) = length (validPrefix (drop base bs))"
    and "snd (scanFrames bs base n) = NoError \<longleftrightarrow> validPrefix (drop base bs) = chunks kFrameSize (drop base bs)"
proof -
  have "fst (scanFrames bs base n) = length (validPrefix (drop base bs)) \<and>
    (snd (scanFrames bs base n) = NoError \<longleftrightarrow> validPrefix (drop base bs) = chunks kFrameSize (drop base bs))"
    using assms
  proof (induction n arbitrary: base)
    case 0
    then have "length (drop base bs) < kFrameSize" by (simp add: div_eq_0_iff)
    then show ?case by (simp add: validPrefix_def)
  next
    case (Suc n)
    then have le: "kFrameSize \<le> length (drop base bs)" by (metis div_less nat.distinct(1) not_le)
    then have "n = length (drop (base + kFrameSize) bs) div kFrameSize"
      using Suc.prems by (simp add: le_div_geq)
    from Suc.IH [OF this] show ?case
      using validPrefix_step [OF le] chunks_step [OF kFrameSize_pos(1) le]
      by (auto simp: dr_ok_def Let_def add.commute split: prod.splits)
  qed
  then show "fst (scanFrames bs base n) = length (validPrefix (drop base bs))"
    "snd (scanFrames bs base n) = NoError \<longleftrightarrow> validPrefix (drop base bs) = chunks kFrameSize (drop base bs)" by auto
qed


section \<open>Flow of frames\<close>

text \<open>
  The frames that the server published are those the reader took followed by those in the ring,
  all of them valid; the server is the only producer, so the ring is open. The log of the calls
  accounts for them.
\<close>

definition flowInv :: "server \<Rightarrow> bool" where
  "flowInv s \<longleftrightarrow> ringInv (sv_ring s) \<and> \<not> producerClosed (sv_ring s) \<and>
     sv_published s = sv_delivered s @ ringFrames (sv_ring s) \<and> list_all validFrame (sv_published s) \<and>
     history capacityFrames (sv_log s) = (sv_published s, length (sv_delivered s), False)"

lemma flowInvD:
  assumes "flowInv s"
  shows "sv_published s = sv_delivered s @ ringFrames (sv_ring s)" and "list_all validFrame (sv_published s)"
    and "history capacityFrames (sv_log s) = (sv_published s, length (sv_delivered s), False)"
  using assms unfolding flowInv_def by blast+

text \<open>Below the threshold, a whole receive buffer of frames fits the ring.\<close>

definition belowPause :: "server \<Rightarrow> bool" where
  "belowPause s \<longleftrightarrow> length (ringFrames (sv_ring s)) * kFrameSize < kPauseIngressBytes"

text \<open>The part of the state that the flow of frames does not touch.\<close>

definition sameWorld :: "server \<Rightarrow> server \<Rightarrow> bool" where
  "sameWorld s s' \<longleftrightarrow> map fst (sv_clients s') = map fst (sv_clients s) \<and> sv_listenFd s' = sv_listenFd s \<and>
     sv_state s' = sv_state s \<and> sv_ingressPaused s' = sv_ingressPaused s \<and> sv_accept s' = sv_accept s \<and>
     sv_signals s' = sv_signals s \<and> sv_ctl s' = sv_ctl s \<and> sv_epoll s' = sv_epoll s \<and> sv_open s' = sv_open s \<and>
     sv_opened s' = sv_opened s \<and> sv_closed s' = sv_closed s"

lemma sameWorld_refl [simp]: "sameWorld s s" by (simp add: sameWorld_def)

lemma sameWorld_trans: "sameWorld s s1 \<Longrightarrow> sameWorld s1 s' \<Longrightarrow> sameWorld s s'"
  by (simp add: sameWorld_def)

lemma readerActs_flow:
  assumes "flowInv s"
  shows "flowInv (readerActs s)" and "sameWorld s (readerActs s)" and "sv_published (readerActs s) = sv_published s"
    and "length (ringFrames (sv_ring (readerActs s))) \<le> length (ringFrames (sv_ring s))"
    and "sv_clients (readerActs s) = sv_clients s" and "sv_input (readerActs s) = sv_input s"
proof -
  have "flowInv (readerActs s) \<and> sameWorld s (readerActs s) \<and> sv_published (readerActs s) = sv_published s \<and>
    length (ringFrames (sv_ring (readerActs s))) \<le> length (ringFrames (sv_ring s)) \<and>
    sv_clients (readerActs s) = sv_clients s \<and> sv_input (readerActs s) = sv_input s"
  proof (cases "sv_reader s")
    case (Cons k rest)
    obtain fs ring where p: "popFrames k (sv_ring s) = (fs, ring)" by fastforce
    from popFrames_spec [OF _ p] assms Cons p show ?thesis
      by (auto simp: readerActs_def flowInv_def sameWorld_def history_snoc)
  qed (use assms in \<open>simp add: readerActs_def\<close>)
  then show "flowInv (readerActs s)" "sameWorld s (readerActs s)" "sv_published (readerActs s) = sv_published s"
    "length (ringFrames (sv_ring (readerActs s))) \<le> length (ringFrames (sv_ring s))"
    "sv_clients (readerActs s) = sv_clients s" "sv_input (readerActs s) = sv_input s" by auto
qed

lemma pushBatch_flow:
  assumes "flowInv s" and "list_all validFrame fs"
    and "length (ringFrames (sv_ring s)) + length fs \<le> capacityFrames" and "pushBatch (concat fs) s = (n, s')"
  shows "n = length fs" and "flowInv s'" and "sv_published s' = sv_published s @ fs" and "sameWorld s s'"
    and "sv_clients s' = sv_clients s" and "sv_input s' = sv_input s"
proof -
  note r = readerActs_flow [OF assms(1)]
  obtain ring where p: "tryPushBatch (concat fs) (sv_ring (readerActs s)) = (n, ring)"
    and s': "s' = (readerActs s)\<lparr>sv_ring := ring,
       sv_published := sv_published (readerActs s) @ take n (chunks kFrameSize (concat fs)),
       sv_log := sv_log (readerActs s) @ [Enq (chunks kFrameSize (concat fs))]\<rparr>"
    using assms(4) by (auto simp: pushBatch_def Let_def split: prod.splits)
  have fr: "\<forall>f \<in> set fs. isFrame f" using assms(2) by (auto simp: list_all_iff validFrame_def)
  have inv: "ringInv (sv_ring (readerActs s))" "\<not> producerClosed (sv_ring (readerActs s))"
    using r(1) by (auto simp: flowInv_def)
  note q = tryPushBatch_open [OF inv fr p]
  show n: "n = length fs" using q r(4) assms(3) by linarith
  then show "sv_published s' = sv_published s @ fs" using s' r(3) chunks_concat_frames [OF fr] by simp
  have room: "length fs \<le> capacityFrames - length (ringFrames (sv_ring (readerActs s)))" using r(4) assms(3) by linarith
  have "history capacityFrames (sv_log s') = (sv_published s', length (sv_delivered s'), False)"
    using flowInvD(3) [OF r(1)] s' n room chunks_concat_frames [OF fr] flowInvD(1) [OF r(1)] by (simp add: history_snoc)
  with n q r s' chunks_concat_frames [OF fr] assms(2) show "flowInv s'" "sameWorld s s'"
    "sv_clients s' = sv_clients s" "sv_input s' = sv_input s"
    by (auto simp: flowInv_def sameWorld_def)
qed

lemma flowInv_setBuffer [simp]: "flowInv (setBuffer fd b s) = flowInv s"
  by (simp add: flowInv_def setBuffer_def)

lemma removeClient_fields [simp]:
  "sv_ring (removeClient fd s) = sv_ring s" "sv_published (removeClient fd s) = sv_published s"
  "sv_delivered (removeClient fd s) = sv_delivered s" "sv_log (removeClient fd s) = sv_log s" "sv_listenFd (removeClient fd s) = sv_listenFd s"
  "sv_state (removeClient fd s) = sv_state s" "sv_ingressPaused (removeClient fd s) = sv_ingressPaused s"
  "sv_input (removeClient fd s) = sv_input s" "sv_signals (removeClient fd s) = sv_signals s"
  "sv_accept (removeClient fd s) = sv_accept s" "sv_notify (removeClient fd s) = sv_notify s"
  by (simp_all add: removeClient_def closeFd_def removeEpollFd_def epollCtl_def Let_def split: list.split)

lemma flowInv_removeClient [simp]: "flowInv (removeClient fd s) = flowInv s"
  by (simp add: flowInv_def)


section \<open>Reading one batch\<close>

definition bufferOk :: "buffer \<Rightarrow> bool" where
  "bufferOk b \<longleftrightarrow> bufferInv b \<and> length (unread b) < kFrameSize \<and> b_offset b < compactThreshold"

definition clientsInv :: "server \<Rightarrow> bool" where
  "clientsInv s \<longleftrightarrow> distinct (map fst (sv_clients s)) \<and> (\<forall>fd b. map_of (sv_clients s) fd = Some b \<longrightarrow> bufferOk b)"

lemma clientBuffer_map_of: "fd \<in> fst ` set (sv_clients s) \<Longrightarrow> map_of (sv_clients s) fd = Some (clientBuffer fd s)"
  by (cases "map_of (sv_clients s) fd") (auto simp: clientBuffer_def map_of_eq_None_iff)

lemma clientBuffer_setBuffer [simp]: "clientBuffer fd (setBuffer fd b s) = b"
  by (simp add: clientBuffer_def setBuffer_def update_conv')

lemma setBuffer_fields [simp]:
  "sv_ring (setBuffer fd b s) = sv_ring s" "sv_published (setBuffer fd b s) = sv_published s"
  "sv_clients (setBuffer fd b s) = AList.update fd b (sv_clients s)" "sv_input (setBuffer fd b s) = sv_input s"
  "sv_notify (setBuffer fd b s) = sv_notify s"
  by (simp_all add: setBuffer_def)

lemma sameWorld_setBuffer [simp]: "fd \<in> fst ` set (sv_clients s) \<Longrightarrow> sameWorld s (setBuffer fd b s)"
  by (simp add: sameWorld_def setBuffer_def update_keys)

text \<open>The notification takes answers of its script only, and fails on an answer that is an error.\<close>

definition notifyFails :: "server \<Rightarrow> bool" where
  "notifyFails s \<longleftrightarrow> (\<exists>e. e \<noteq> EINTR \<and> Fail e \<in> set (sv_notify s))"

lemma notifyEvent_script:
  "notifyEvent script = Some (ok, rest) \<Longrightarrow>
   set rest \<subseteq> set script \<and> (ok \<or> (\<exists>e. e \<noteq> EINTR \<and> Fail e \<in> set script))"
  by (induction script) (auto split: sysret.splits if_splits)

lemma notifyPublished_flow:
  assumes "notifyPublished p s = Some (ok, s')"
  shows "\<exists>x. set x \<subseteq> set (sv_notify s) \<and> s' = s\<lparr>sv_notify := x\<rparr>" and "ok \<or> notifyFails s"
proof -
  have "(\<exists>x. set x \<subseteq> set (sv_notify s) \<and> s' = s\<lparr>sv_notify := x\<rparr>) \<and> (ok \<or> notifyFails s)"
  proof (cases p)
    case True
    with assms obtain x where x: "notifyEvent (sv_notify s) = Some (ok, x)" "s' = s\<lparr>sv_notify := x\<rparr>"
      by (auto simp: notifyPublished_def notifyData_def split: Option.bind_split_asm)
    with notifyEvent_script [OF x(1)] show ?thesis by (auto simp: notifyFails_def)
  next
    case False
    with assms have "s' = s\<lparr>sv_notify := sv_notify s\<rparr>" ok by (simp_all add: notifyPublished_def)
    then show ?thesis by blast
  qed
  then show "\<exists>x. set x \<subseteq> set (sv_notify s) \<and> s' = s\<lparr>sv_notify := x\<rparr>" "ok \<or> notifyFails s" by auto
qed

lemma readerActs_notify [simp]: "sv_notify (readerActs s) = sv_notify s"
  by (simp add: readerActs_def split: list.split prod.split)

lemma publishFrames_notify: "publishFrames fd v p s = (n, q, s') \<Longrightarrow> sv_notify s' = sv_notify s"
  by (auto simp: publishFrames_def pushBatch_def loadPendingBytes_def setBuffer_def Let_def split: if_splits prod.splits)

lemma flowInv_notify [simp]: "flowInv (s\<lparr>sv_notify := x\<rparr>) = flowInv s" "flowInv (s\<lparr>sv_input := y\<rparr>) = flowInv s"
  by (simp_all add: flowInv_def)

lemma sameWorld_notify [simp]: "sameWorld s (t\<lparr>sv_notify := x\<rparr>) = sameWorld s t" "sameWorld s (t\<lparr>sv_input := y\<rparr>) = sameWorld s t"
  by (simp_all add: sameWorld_def)

text \<open>
  The frames of the valid prefix fit the ring, so all of them are published, and ingress is
  paused as soon as the threshold is reached.
\<close>

lemma room_below_pause:
  assumes "belowPause s" and "length bs < kReadBufferSize + kFrameSize"
  shows "length (ringFrames (sv_ring s)) + length (validPrefix bs) \<le> capacityFrames"
proof -
  have "length (validPrefix bs) \<le> (kReadBufferSize + kFrameSize) div kFrameSize"
    using length_validPrefix [of bs] assms(2) by (meson div_le_mono le_trans less_imp_le)
  with assms(1) show ?thesis by (simp add: belowPause_def server_consts kFrameSize_def ring_defs)
qed

lemma publishFrames_flow:
  assumes "flowInv s" and "belowPause s" and "fd \<in> fst ` set (sv_clients s)"
    and "length (unread (clientBuffer fd s)) < kReadBufferSize + kFrameSize"
  defines "b \<equiv> clientBuffer fd s" and "v \<equiv> length (validPrefix (unread (clientBuffer fd s)))"
  assumes "publishFrames fd v False s = (n, pause, s')"
  shows "n = v" and "flowInv s'" and "sv_published s' = sv_published s @ validPrefix (unread b)"
    and "sameWorld s s'" and "sv_input s' = sv_input s" and "pause \<or> belowPause s'"
    and "sv_clients s' = AList.update fd (b\<lparr>b_offset := b_offset b + v * kFrameSize\<rparr>) (sv_clients s)"
proof -
  have old: "map_of (sv_clients s) fd = Some b"
    using clientBuffer_map_of [OF assms(3)] by (simp add: b_def)
  have "n = v \<and> flowInv s' \<and> sv_published s' = sv_published s @ validPrefix (unread b) \<and> sameWorld s s' \<and>
    sv_input s' = sv_input s \<and> (pause \<or> belowPause s') \<and>
    sv_clients s' = AList.update fd (b\<lparr>b_offset := b_offset b + v * kFrameSize\<rparr>) (sv_clients s)"
  proof (cases "v = 0")
    case True
    then show ?thesis using assms(1,2,7) update_triv [OF old] by (auto simp: publishFrames_def v_def b_def)
  next
    case False
    let ?V = "validPrefix (unread b)"
    have c: "take (v * kFrameSize) (drop (b_offset b) (b_data b)) = concat ?V"
      using concat_validPrefix [of "unread b"] by (simp add: v_def b_def unread_def)
    obtain m s1 where pb: "pushBatch (concat ?V) s = (m, s1)" by fastforce
    note p = pushBatch_flow [OF assms(1) validPrefix_valid room_below_pause [OF assms(2,4), folded b_def] pb]
    let ?s2 = "setBuffer fd (b\<lparr>b_offset := b_offset b + v * kFrameSize\<rparr>) s1"
    have fl: "flowInv ?s2" using p(2) by simp
    note r = readerActs_flow [OF fl]
    have m: "m = v" using p(1) by (simp add: v_def b_def)
    have res: "n = v" "s' = readerActs ?s2" "pause \<longleftrightarrow> kPauseIngressBytes \<le> pendingBytes (sv_ring (readerActs ?s2))"
      using assms(7) False pb m
      unfolding publishFrames_def b_def [symmetric] by (auto simp: c loadPendingBytes_def Let_def)
    have "pause \<or> belowPause s'"
      unfolding res by (auto simp: belowPause_def pendingBytes_def pendingFrames_eq)
    moreover have "sameWorld s s'"
      using sameWorld_trans [OF p(4)] sameWorld_trans [OF sameWorld_setBuffer r(2)] assms(3) p(5) res(2) by simp
    ultimately show ?thesis using res r p by simp
  qed
  then show "n = v" "flowInv s'" "sv_published s' = sv_published s @ validPrefix (unread b)"
    "sameWorld s s'" "sv_input s' = sv_input s" "pause \<or> belowPause s'"
    "sv_clients s' = AList.update fd (b\<lparr>b_offset := b_offset b + v * kFrameSize\<rparr>) (sv_clients s)" by auto
qed

text \<open>
  What one received batch leads to. \<open>V\<close> are the frames of the valid prefix of the client's stream
  and \<open>rest\<close> the bytes after them: the client keeps \<open>rest\<close> and the loop goes on unless ingress is
  to be paused, or the client is removed after an invalid frame, or a failed notification stops
  the server.
\<close>

definition batchHandled :: "int \<Rightarrow> bytes \<Rightarrow> server \<Rightarrow> readStep \<Rightarrow> bool \<Rightarrow> server \<Rightarrow> bool" where
  "batchHandled fd stream s step pause s' \<longleftrightarrow>
     flowInv s' \<and> sv_published s' = sv_published s @ validPrefix stream \<and> (pause \<or> belowPause s') \<and>
     sv_input s' = sv_input s \<and> set (sv_notify s') \<subseteq> set (sv_notify s) \<and>
     (case step of
        Return False \<Rightarrow> notifyFails s \<and> sameWorld s s' \<and> (\<exists>b. bufferInv b \<and> sv_clients s' = AList.update fd b (sv_clients s))
      | _ \<Rightarrow>
          if allValid stream
          then step = (if pause then Return True else Again) \<and> sameWorld s s' \<and>
            (\<exists>b. bufferOk b \<and> unread b = remainder stream \<and>
              sv_clients s' = AList.update fd b (sv_clients s))
          else step = Return True \<and>
            (\<exists>t b. sameWorld s t \<and> sv_clients t = AList.update fd b (sv_clients s) \<and> s' = removeClient fd t))"

lemma compact_ok:
  assumes "bufferInv b" and "length (unread b) < kFrameSize"
  shows "bufferOk (compact b compactThreshold)"
proof -
  have "b_offset (compact b compactThreshold) < compactThreshold" by (simp add: compact_def compactThreshold_def)
  then show ?thesis using assms bufferInv_compact by (simp add: bufferOk_def)
qed

lemma appended_stream:
  assumes "bufferOk b" and "length received \<le> kReadBufferSize"
  defines "b1 \<equiv> b\<lparr>b_data := b_data b @ received\<rparr>" and "stream \<equiv> unread b @ received"
  shows "unread b1 = stream" and "bufferInv b1" and "length stream < kReadBufferSize + kFrameSize" and "\<not> kMaxClientBuffer < bufferPending b1"
    and "\<exists>e. scanFrames (b_data b1) (b_offset b1) (bufferPending b1 div kFrameSize) = (length (validPrefix stream), e) \<and>
      (e = NoError \<longleftrightarrow> allValid stream)"
proof -
  show u: "unread b1 = stream" "bufferInv b1"
    using assms(1) unread_append bufferInv_append by (auto simp: b1_def stream_def bufferOk_def)
  show len: "length stream < kReadBufferSize + kFrameSize"
    using assms(1,2) by (simp add: stream_def bufferOk_def)
  then show "\<not> kMaxClientBuffer < bufferPending b1" by (simp add: u server_consts kFrameSize_def)
  obtain v e where sc: "scanFrames (b_data b1) (b_offset b1) (bufferPending b1 div kFrameSize) = (v, e)" by fastforce
  have "bufferPending b1 div kFrameSize = length (drop (b_offset b1) (b_data b1)) div kFrameSize"
    by (simp add: unread_def)
  from scanFrames_spec [OF this] sc
  show "\<exists>e. scanFrames (b_data b1) (b_offset b1) (bufferPending b1 div kFrameSize) = (length (validPrefix stream), e) \<and>
      (e = NoError \<longleftrightarrow> allValid stream)"
    by (simp add: u(1) [symmetric] unread_def allValid_def)
qed

lemma batchHandled_outcome:
  assumes f3: "flowInv s3" "sv_published s3 = sv_published s @ validPrefix stream" "pause' \<or> belowPause s3"
      "sv_input s3 = sv_input s" "sameWorld s s3" "sv_clients s3 = AList.update fd b2 (sv_clients s)"
      "set (sv_notify s3) \<subseteq> set (sv_notify s)"
    and e: "e = NoError \<longleftrightarrow> allValid stream" and fails: "k \<or> notifyFails s"
    and b2: "bufferInv b2" "unread b2 = remainder stream"
    and res: "(step, pause, s') = (if \<not> k then (Return False, pause', s3)
      else if e \<noteq> NoError then (Return True, pause', removeClient fd s3)
      else (if pause' then Return True else Again, pause', setBuffer fd (compact b2 compactThreshold) s3))"
  shows "batchHandled fd stream s step pause s'"
proof (cases "k \<and> e = NoError")
  case True
  then have all: "allValid stream" using e by simp
  have "length (unread b2) < kFrameSize" using remainder_short [OF all] b2(2) by simp
  then have ok': "bufferOk (compact b2 compactThreshold)" using compact_ok b2(1) by blast
  have "fd \<in> fst ` set (sv_clients s3)" using f3(6) by (simp add: dom_update)
  then have w: "sameWorld s s'" using True res sameWorld_trans [OF f3(5) sameWorld_setBuffer] by simp
  have c: "sv_clients s' = AList.update fd (compact b2 compactThreshold) (sv_clients s)"
    using True res f3(6) by simp
  show ?thesis
    unfolding batchHandled_def using True res f3 all ok' w c b2(2)
    by (auto simp: belowPause_def split: readStep.split bool.split)
next
  case False
  then show ?thesis
    unfolding batchHandled_def using res f3 e b2(1) fails
    by (cases k) (auto simp: belowPause_def)
qed

lemma handleBytes_result:
  assumes "flowInv s" and "belowPause s" and "clientsInv s" and "fd \<in> fst ` set (sv_clients s)"
    and "length received \<le> kReadBufferSize" and "handleBytes fd received False s = Some (step, pause, s')"
  shows "batchHandled fd (unread (clientBuffer fd s) @ received) s step pause s'"
proof -
  define b where "b = clientBuffer fd s"
  define b1 where "b1 = b\<lparr>b_data := b_data b @ received\<rparr>"
  define s1 where "s1 = setBuffer fd b1 s"
  define stream where "stream = unread b @ received"
  have "map_of (sv_clients s) fd = Some b"
    using clientBuffer_map_of [OF assms(4)] by (simp add: b_def)
  then have ok: "bufferOk b" using assms(3) by (auto simp: clientsInv_def)
  let ?v = "length (validPrefix stream)"
  note st = appended_stream [OF ok assms(5), folded b1_def stream_def]
  note u = st(1,2) and len = st(3) and limit = st(4)
  obtain e where sc: "scanFrames (b_data b1) (b_offset b1) (bufferPending b1 div kFrameSize) = (?v, e)" and e: "e = NoError \<longleftrightarrow> allValid stream"
    using st(5) by blast
  have s1: "flowInv s1" "belowPause s1" "fd \<in> fst ` set (sv_clients s1)" "clientBuffer fd s1 = b1" "sameWorld s s1"
    using assms(1,2,4) by (auto simp: s1_def belowPause_def dom_update)
  obtain n pause' s2 where pf: "publishFrames fd ?v False s1 = (n, pause', s2)" by (metis prod_cases3)
  note p = publishFrames_flow [of s1 fd n pause' s2, unfolded s1(4) u(1), OF s1(1-3) len pf]
  define b2 where "b2 = b1\<lparr>b_offset := b_offset b1 + ?v * kFrameSize\<rparr>"
  have "?v * kFrameSize \<le> length stream"
    using length_validPrefix [of stream] by (metis div_times_less_eq_dividend le_trans mult_le_mono1)
  then have b2: "bufferInv b2" "unread b2 = remainder stream"
    using u bufferInv_consume [of b1] unread_consume [of b1] by (auto simp: b2_def remainder_def)
  have w2: "sameWorld s s2" "sv_clients s2 = AList.update fd b2 (sv_clients s)" "sv_input s2 = sv_input s"
    "sv_published s2 = sv_published s @ validPrefix stream"
    using p sameWorld_trans [OF s1(5)] by (auto simp: s1_def b2_def)
  have hb: "handleBytes fd received False s =
      do { (ok, s3) \<leftarrow> notifyPublished (?v \<noteq> 0) s2;
           if \<not> ok then Some (Return False, pause', s3)
           else if e \<noteq> NoError then Some (Return True, pause', removeClient fd s3)
           else Some (if pause' then Return True else Again, pause',
                      setBuffer fd (compact (clientBuffer fd s3) compactThreshold) s3) }"
    unfolding handleBytes_def b_def [symmetric] b1_def [symmetric] Let_def s1_def [symmetric]
    using limit sc pf p(1) by (cases "notifyPublished (?v \<noteq> 0) s2") auto
  obtain k s3 where nt: "notifyPublished (?v \<noteq> 0) s2 = Some (k, s3)"
    using assms(6) unfolding hb by (auto split: Option.bind_split_asm)
  have n2: "sv_notify s2 = sv_notify s" using publishFrames_notify [OF pf] by (simp add: s1_def)
  obtain x where s3: "s3 = s2\<lparr>sv_notify := x\<rparr>" and x: "set x \<subseteq> set (sv_notify s)"
    using notifyPublished_flow(1) [OF nt] n2 by auto
  have fails: "k \<or> notifyFails s" using notifyPublished_flow(2) [OF nt] n2 by (simp add: notifyFails_def)
  have f3: "flowInv s3" "sv_published s3 = sv_published s @ validPrefix stream" "pause' \<or> belowPause s3"
    "sv_input s3 = sv_input s" "sameWorld s s3" "sv_clients s3 = AList.update fd b2 (sv_clients s)"
    "set (sv_notify s3) \<subseteq> set (sv_notify s)"
    using p(2,6) w2 x by (auto simp: s3 belowPause_def)
  have cb: "clientBuffer fd s3 = b2" using f3(6) by (simp add: clientBuffer_def update_conv')
  have res: "(step, pause, s') = (if \<not> k then (Return False, pause', s3)
      else if e \<noteq> NoError then (Return True, pause', removeClient fd s3)
      else (if pause' then Return True else Again, pause', setBuffer fd (compact b2 compactThreshold) s3))"
    using assms(6) nt unfolding hb by (auto simp: cb split: if_splits)
  have "batchHandled fd stream s step pause s'" by (rule batchHandled_outcome [OF f3 e fails b2 res])
  then show ?thesis by (simp add: stream_def b_def)
qed


section \<open>Reading a client\<close>

text \<open>The bytes that a sequence of \<open>recv\<close> answers delivers.\<close>

definition receivedBytes :: "bytes sysret list \<Rightarrow> bytes" where
  "receivedBytes used = concat (map (\<lambda>r. case r of Ret bs \<Rightarrow> take kReadBufferSize bs | Fail _ \<Rightarrow> []) used)"

lemma receivedBytes_simps [simp]:
  "receivedBytes [] = []" "receivedBytes (Ret bs # rs) = take kReadBufferSize bs @ receivedBytes rs"
  "receivedBytes (Fail e # rs) = receivedBytes rs"
  by (simp_all add: receivedBytes_def)

text \<open>
  An answer that ends the connection: the end of the stream or an error of the socket.
\<close>

definition disconnects :: "bytes sysret \<Rightarrow> bool" where
  "disconnects r = (case r of Ret bs \<Rightarrow> bs = [] | Fail e \<Rightarrow> e \<notin> {EINTR, EAGAIN, EWOULDBLOCK})"

text \<open>
  What a call of \<open>readClient\<close> leads to: the frames of the valid prefix of the client's stream are
  published; the client keeps less than a frame, or is gone, which takes a lost connection or an
  invalid frame.
\<close>

definition clientRead :: "int \<Rightarrow> bytes \<Rightarrow> bool \<Rightarrow> server \<Rightarrow> bool \<Rightarrow> bool \<Rightarrow> server \<Rightarrow> bool" where
  "clientRead fd stream lost s ok pause s' \<longleftrightarrow>
     flowInv s' \<and> sv_published s' = sv_published s @ validPrefix stream \<and> (pause \<or> belowPause s') \<and>
     (\<forall>fd'. fd' \<noteq> fd \<longrightarrow> sv_input s' fd' = sv_input s fd') \<and>
     (if \<not> ok then notifyFails s \<and> sameWorld s s' \<and> (\<exists>b. bufferInv b \<and> sv_clients s' = AList.update fd b (sv_clients s))
      else
        (sameWorld s s' \<and> allValid stream \<and>
          (\<exists>b. bufferOk b \<and> unread b = remainder stream \<and> sv_clients s' = AList.update fd b (sv_clients s))) \<or>
        ((lost \<or> \<not> allValid stream) \<and>
          (\<exists>t b. sameWorld s t \<and> sv_clients t = AList.update fd b (sv_clients s) \<and> s' = removeClient fd t)))"

lemma belowPause_input [simp]: "belowPause (s\<lparr>sv_input := y\<rparr>) = belowPause s"
  by (simp add: belowPause_def)

lemma belowPause_removeClient [simp]: "belowPause (removeClient fd s) = belowPause s"
  by (simp add: belowPause_def)

lemma clientBuffer_input [simp]: "clientBuffer fd (s\<lparr>sv_input := y\<rparr>) = clientBuffer fd s"
  by (simp add: clientBuffer_def)

lemma clientsInv_update:
  assumes "clientsInv s" and "sv_clients s' = AList.update fd b (sv_clients s)" and "bufferOk b"
  shows "clientsInv s'"
  using assms distinct_update [of "sv_clients s" fd b] by (auto simp: clientsInv_def update_conv' split: if_splits)

text \<open>The end of a call that leaves the buffer alone, and a call that goes on after a batch.\<close>

lemma clientRead_stop:
  assumes "flowInv s" and "belowPause s" and "clientsInv s" and "fd \<in> fst ` set (sv_clients s)"
    and t_def: "t = s\<lparr>sv_input := (sv_input s)(fd := rest)\<rparr>"
  shows "clientRead fd (unread (clientBuffer fd s)) False s True False t"
    and "clientRead fd (unread (clientBuffer fd s)) True s True False (removeClient fd t)"
proof -
  obtain b where b: "map_of (sv_clients s) fd = Some b" "clientBuffer fd s = b"
    using clientBuffer_map_of [OF assms(4)] by blast
  then have ok: "bufferOk b" using assms(3) by (auto simp: clientsInv_def)
  then have sh: "length (unread b) < kFrameSize" by (simp add: bufferOk_def)
  note up = update_triv [OF b(1), symmetric]
  show "clientRead fd (unread (clientBuffer fd s)) False s True False t"
    unfolding clientRead_def b(2) t_def using assms(1,2) ok sh up by auto
  have "sameWorld s t" "sv_clients t = AList.update fd b (sv_clients s)" using up by (simp_all add: t_def)
  then have "\<exists>u c. sameWorld s u \<and> sv_clients u = AList.update fd c (sv_clients s) \<and> removeClient fd t = removeClient fd u"
    by blast
  then show "clientRead fd (unread (clientBuffer fd s)) True s True False (removeClient fd t)"
    unfolding clientRead_def b(2) using assms(1,2) sh by (simp add: t_def)
qed

lemma clientRead_read_on:
  assumes "allValid bs" and "sameWorld s s1" and "sv_published s1 = sv_published s @ validPrefix bs"
    and "\<forall>fd'. fd' \<noteq> fd \<longrightarrow> sv_input s1 fd' = sv_input s fd'"
    and "sv_clients s1 = AList.update fd b (sv_clients s)"
    and "set (sv_notify s1) \<subseteq> set (sv_notify s)" and "clientRead fd (remainder bs @ cs) lost s1 ok pause s'"
  shows "clientRead fd (bs @ cs) lost s ok pause s'"
  using assms(2-7) unfolding notifyFails_def clientRead_def read_on [OF assms(1)] validPrefix_read_on [OF assms(1)]
  by (cases ok; simp; blast intro: sameWorld_trans)

lemma readLoop_batch:
  assumes "flowInv s" and "belowPause s" and "clientsInv s" and "fd \<in> fst ` set (sv_clients s)" and "length received \<le> kReadBufferSize"
    and hb: "handleBytes fd received False (s\<lparr>sv_input := (sv_input s)(fd := script)\<rparr>) = Some (step, pause1, s1)"
    and nx: "(case step of Again \<Rightarrow> readLoop script fd pause1 s1 | Return b \<Rightarrow> Some (b, pause1, s1)) = Some (ok, pause, s')"
    and rest: "\<And>s. flowInv s \<Longrightarrow> belowPause s \<Longrightarrow> clientsInv s \<Longrightarrow> fd \<in> fst ` set (sv_clients s) \<Longrightarrow>
      readLoop script fd False s = Some (ok, pause, s') \<Longrightarrow> \<exists>used. script = used @ sv_input s' fd \<and>
        clientRead fd (unread (clientBuffer fd s) @ receivedBytes used) (\<exists>r \<in> set used. disconnects r) s ok pause s'"
  shows "\<exists>used. script = used @ sv_input s' fd \<and>
    clientRead fd (unread (clientBuffer fd s) @ received @ receivedBytes used) (\<exists>r \<in> set used. disconnects r) s ok pause s'"
proof -
  let ?t = "s\<lparr>sv_input := (sv_input s)(fd := script)\<rparr>" and ?bs = "unread (clientBuffer fd s) @ received"
  have t: "flowInv ?t" "belowPause ?t" "clientsInv ?t" "fd \<in> fst ` set (sv_clients ?t)"
    using assms(1-4) by (simp_all add: clientsInv_def)
  from handleBytes_result [OF t assms(5) hb] have h: "batchHandled fd ?bs ?t step pause1 s1" by simp
  then have f: "flowInv s1" "sv_published s1 = sv_published s @ validPrefix ?bs" "pause1 \<or> belowPause s1"
    "sv_input s1 = (sv_input s)(fd := script)" "set (sv_notify s1) \<subseteq> set (sv_notify s)"
    by (simp_all add: batchHandled_def)
  have world: "sameWorld ?t u = sameWorld s u" for u by (simp add: sameWorld_def)
  show ?thesis
  proof (cases step)
    case Again
    with h have a: "allValid ?bs" "\<not> pause1" "sameWorld s s1"
      unfolding batchHandled_def world by (auto split: if_splits)
    from h Again a(1) obtain b where b: "bufferOk b" "unread b = remainder ?bs" "sv_clients s1 = AList.update fd b (sv_clients s)"
      unfolding batchHandled_def by auto
    have s1: "clientsInv s1" "fd \<in> fst ` set (sv_clients s1)" "belowPause s1" "clientBuffer fd s1 = b"
      using clientsInv_update [OF assms(3) b(3,1)] b(3) f(3) a(2)
      by (auto simp: dom_update clientBuffer_def update_conv')
    from nx Again a(2) have "readLoop script fd False s1 = Some (ok, pause, s')" by simp
    from rest [OF f(1) s1(3,1,2) this] obtain used where
      used: "script = used @ sv_input s' fd" "clientRead fd (remainder ?bs @ receivedBytes used) (\<exists>r \<in> set used. disconnects r) s1 ok pause s'"
      using s1(4) b(2) by auto
    from clientRead_read_on [OF a(1,3) f(2) _ b(3) f(5) used(2)] f(4) used(1) show ?thesis
      by (intro exI [of _ used]) simp
  next
    case (Return b)
    with nx have res: "ok = b" "pause = pause1" "s' = s1" by auto
    have "clientRead fd ?bs False s ok pause s'"
      using h f unfolding clientRead_def batchHandled_def res world Return notifyFails_def
      by (cases b) (auto split: if_splits)
    then show ?thesis using f(4) res by (intro exI [of _ "[]"]) simp
  qed
qed

lemma readLoop_result:
  assumes "flowInv s" and "belowPause s" and "clientsInv s" and "fd \<in> fst ` set (sv_clients s)"
    and "readLoop script fd False s = Some (ok, pause, s')"
  shows "\<exists>used. script = used @ sv_input s' fd \<and>
    clientRead fd (unread (clientBuffer fd s) @ receivedBytes used) (\<exists>r \<in> set used. disconnects r) s ok pause s'"
  using assms
proof (induction script arbitrary: s)
  case Nil
  then show ?case using clientRead_stop(1) [OF Nil(1-4), of _ "[]"] by auto
next
  case (Cons r script)
  let ?t = "s\<lparr>sv_input := (sv_input s)(fd := script)\<rparr>"
  note stop = clientRead_stop [OF Cons.prems(1-4) refl, of script]
  show ?case
  proof (cases r)
    case (Ret bs)
    define received where "received = take kReadBufferSize bs"
    show ?thesis
    proof (cases "received = []")
      case True
      with Cons.prems(5) Ret stop(2) show ?thesis
        by (intro exI [of _ "[r]"]) (auto simp: received_def disconnects_def server_consts)
    next
      case False
      with Cons.prems(5) Ret obtain step pause1 s1 where
        hb: "handleBytes fd received False ?t = Some (step, pause1, s1)"
        and nx: "(case step of Again \<Rightarrow> readLoop script fd pause1 s1 | Return b \<Rightarrow> Some (b, pause1, s1)) = Some (ok, pause, s')"
        by (auto simp: received_def Let_def split: Option.bind_split_asm)
      have "length received \<le> kReadBufferSize" by (simp add: received_def)
      from readLoop_batch [OF Cons.prems(1-4) this hb nx Cons.IH] obtain used where "script = used @ sv_input s' fd"
        "clientRead fd (unread (clientBuffer fd s) @ received @ receivedBytes used) (\<exists>r \<in> set used. disconnects r) s ok pause s'" by blast
      then show ?thesis using Ret False by (intro exI [of _ "r # used"]) (simp add: received_def disconnects_def)
    qed
  next
    case (Fail e)
    show ?thesis
    proof (cases "e = EINTR")
      case True
      with Cons.prems Fail have "readLoop script fd False s = Some (ok, pause, s')" by simp
      from Cons.IH [OF Cons.prems(1-4) this] obtain used where "script = used @ sv_input s' fd"
        "clientRead fd (unread (clientBuffer fd s) @ receivedBytes used) (\<exists>r \<in> set used. disconnects r) s ok pause s'" by blast
      then show ?thesis using Fail True by (intro exI [of _ "r # used"]) (simp add: disconnects_def)
    next
      case False
      with Cons.prems(5) Fail stop show ?thesis
        by (intro exI [of _ "[r]"]) (auto simp: Let_def disconnects_def split: if_splits)
    qed
  qed
qed

end
