(* ===== verification/ServerInv.thy ===== *)
theory ServerInv
  imports Server "HOL-Library.Multiset"
begin

text \<open>
  The invariant of the ingress process over its whole run: descriptors are opened and closed
  without leaks or confusion, the registrations follow the pausing of ingress, the ring never
  fills up, and the frames that leave the server are exactly the valid ones it received.
\<close>

unbundle bit_operations_syntax

section \<open>Descriptors\<close>

text \<open>
  \<open>base\<close> are the descriptors that were open before \<open>run\<close>, \<open>ep\<close> the epoll descriptor. The open
  descriptors are exactly these, the clients and the listening socket, without confusion, and
  every descriptor that was opened is either still open or was closed, once.
\<close>

definition listening :: "server \<Rightarrow> int set" where
  "listening s = (if sv_listenFd s = -1 then {} else {sv_listenFd s})"

definition fdInv :: "int list \<Rightarrow> int \<Rightarrow> server \<Rightarrow> bool" where
  "fdInv base ep s \<longleftrightarrow> ep \<notin> set base \<and> distinct (sv_open s) \<and> distinct (map fst (sv_clients s)) \<and>
     set (sv_open s) = insert ep (set base) \<union> fst ` set (sv_clients s) \<union> listening s \<and>
     insert ep (set base) \<inter> fst ` set (sv_clients s) = {} \<and>
     listening s \<inter> (insert ep (set base) \<union> fst ` set (sv_clients s)) = {} \<and>
     mset (sv_open s) + mset (sv_closed s) = mset base + mset (sv_opened s)"

lemma keys_eq: "fst ` set xs = set (map fst xs)" by simp

lemma fdInv_sameWorld: "sameWorld s s' \<Longrightarrow> fdInv base ep s' = fdInv base ep s"
  unfolding fdInv_def sameWorld_def listening_def keys_eq by simp

lemma mset_remove1_closed: "x \<in> set xs \<Longrightarrow> mset (remove1 x xs) + mset (ys @ [x]) = mset xs + mset ys"
  by simp

lemma epollCtl_fields [simp]:
  "sv_clients (snd (epollCtl f s)) = sv_clients s" "sv_open (snd (epollCtl f s)) = sv_open s"
  "sv_opened (snd (epollCtl f s)) = sv_opened s" "sv_closed (snd (epollCtl f s)) = sv_closed s"
  "sv_listenFd (snd (epollCtl f s)) = sv_listenFd s" "sv_state (snd (epollCtl f s)) = sv_state s"
  "sv_ingressPaused (snd (epollCtl f s)) = sv_ingressPaused s" "sv_ring (snd (epollCtl f s)) = sv_ring s"
  "sv_published (snd (epollCtl f s)) = sv_published s" "sv_delivered (snd (epollCtl f s)) = sv_delivered s"
  "sv_log (snd (epollCtl f s)) = sv_log s"
  "sv_epoll (snd (epollCtl f s)) = (if fst (epollCtl f s) then f (sv_epoll s) else sv_epoll s)"
  by (simp_all add: epollCtl_def split: list.split)

lemmas ctl_defs = addEpollFd_def modifyEpollFd_def removeEpollFd_def

lemma removeClient_world [simp]:
  "sv_open (removeClient fd s) = remove1 fd (sv_open s)" "sv_closed (removeClient fd s) = sv_closed s @ [fd]"
  "sv_opened (removeClient fd s) = sv_opened s"
  "sv_epoll (removeClient fd s) = (sv_epoll s)(fd := None)"
  by (simp_all add: removeClient_def Let_def closeFd_def ctl_defs)

lemma delete_dom: "fst ` set (AList.delete fd xs) = fst ` set xs - {fd}"
  unfolding keys_eq delete_keys by auto

lemma removeClient_fdInv:
  assumes "fdInv base ep s" and "fd \<in> fst ` set (sv_clients s)"
  shows "fdInv base ep (removeClient fd s)"
proof -
  have o: "fd \<in> set (sv_open s)" using assms by (auto simp: fdInv_def)
  have l: "listening (removeClient fd s) = listening s" by (simp add: listening_def)
  have "fd \<notin> insert ep (set base)" "fd \<notin> listening s" using assms by (auto simp: fdInv_def)
  then show ?thesis
    using assms mset_remove1_closed [OF o, of "sv_closed s"] distinct_delete [of "sv_clients s" fd]
    unfolding fdInv_def l by (auto simp: delete_dom)
qed

lemma removeAllClients_result:
  "fdInv base ep s \<Longrightarrow> fdInv base ep (removeAllClients s) \<and> sv_clients (removeAllClients s) = [] \<and>
   sv_listenFd (removeAllClients s) = sv_listenFd s \<and> sv_state (removeAllClients s) = sv_state s \<and>
   sv_ingressPaused (removeAllClients s) = sv_ingressPaused s \<and> sv_ring (removeAllClients s) = sv_ring s \<and>
   sv_published (removeAllClients s) = sv_published s \<and> sv_delivered (removeAllClients s) = sv_delivered s \<and>
   sv_log (removeAllClients s) = sv_log s \<and>
   (\<forall>fd. fd \<notin> fst ` set (sv_clients s) \<longrightarrow> sv_epoll (removeAllClients s) fd = sv_epoll s fd) \<and>
   (\<forall>fd. fd \<in> fst ` set (sv_clients s) \<longrightarrow> sv_epoll (removeAllClients s) fd = None)"
proof (induction s rule: removeAllClients.induct)
  case (1 s)
  show ?case
  proof (cases "sv_clients s")
    case Nil
    with 1(2) show ?thesis by (simp add: removeAllClients.simps [of s])
  next
    case (Cons p rest)
    obtain fd b where p: "p = (fd, b)" by fastforce
    have eq: "removeAllClients s = removeAllClients (removeClient fd s)"
      using Cons p by (subst removeAllClients.simps) simp
    have inv: "fdInv base ep (removeClient fd s)" using removeClient_fdInv [OF 1(2), of fd] Cons p by simp
    have keys: "fst ` set (sv_clients (removeClient fd s)) = fst ` set (sv_clients s) - {fd}" by (simp add: delete_dom)
    have "fd \<in> fst ` set (sv_clients s)" using Cons p by simp
    with 1(1) [OF Cons p [symmetric] inv] show ?thesis unfolding eq keys by auto
  qed
qed


lemma removeAllClients_facts:
  assumes "fdInv base ep s"
  defines "r \<equiv> removeAllClients s"
  shows "fdInv base ep r" and "sv_clients r = []" and "sv_listenFd r = sv_listenFd s" and "sv_state r = sv_state s"
    and "sv_ingressPaused r = sv_ingressPaused s" and "sv_ring r = sv_ring s" and "sv_published r = sv_published s"
    and "sv_delivered r = sv_delivered s" and "sv_log r = sv_log s"
    and "fd \<notin> fst ` set (sv_clients s) \<Longrightarrow> sv_epoll r fd = sv_epoll s fd"
    and "fd \<in> fst ` set (sv_clients s) \<Longrightarrow> sv_epoll r fd = None"
  using removeAllClients_result [OF assms(1)] unfolding r_def by simp_all


section \<open>The server invariant\<close>

text \<open>
  Between events: ingress is paused or the ring is below the threshold; while it is not paused
  every client is registered, while it is paused none is and the listening socket reports errors
  only; a draining server has no client and no listening socket.
\<close>

definition clientFds :: "server \<Rightarrow> int set" where
  "clientFds s = fst ` set (sv_clients s)"

definition interestInv :: "serverFds \<Rightarrow> server \<Rightarrow> bool" where
  "interestInv fds s \<longleftrightarrow>
     (\<forall>fd \<in> clientFds s. sv_epoll s fd = (if sv_ingressPaused s then None else Some clientMask)) \<and>
     dom (sv_epoll s) \<subseteq> {fdSpaceReady fds, fdSignal fds} \<union> listening s \<union> clientFds s \<and>
     (case sv_state s of
        Running \<Rightarrow> sv_listenFd s \<noteq> -1 \<and>
          sv_epoll s (sv_listenFd s) = Some (if sv_ingressPaused s then EPOLLERR OR EPOLLHUP else listenMask)
      | Draining \<Rightarrow> sv_listenFd s = -1 \<and> clientFds s = {})"

definition ingressInv :: "serverFds \<Rightarrow> server \<Rightarrow> bool" where
  "ingressInv fds s \<longleftrightarrow> (sv_ingressPaused s \<or> belowPause s) \<and> interestInv fds s"

definition coreInv :: "int list \<Rightarrow> int \<Rightarrow> server \<Rightarrow> bool" where
  "coreInv base ep s \<longleftrightarrow> flowInv s \<and> fdInv base ep s"

definition serverInv :: "serverFds \<Rightarrow> int list \<Rightarrow> int \<Rightarrow> server \<Rightarrow> bool" where
  "serverInv fds base ep s \<longleftrightarrow> coreInv base ep s \<and> clientsInv s \<and> ingressInv fds s"

lemma sameWorldD:
  assumes "sameWorld s s'"
  shows "clientFds s' = clientFds s" and "listening s' = listening s" and "sv_listenFd s' = sv_listenFd s"
    and "sv_state s' = sv_state s" and "sv_ingressPaused s' = sv_ingressPaused s" and "sv_epoll s' = sv_epoll s"
  using assms unfolding sameWorld_def listening_def clientFds_def keys_eq by auto

lemma interestInv_sameWorld:
  assumes "sameWorld s s'"
  shows "interestInv fds s' = interestInv fds s"
  unfolding interestInv_def sameWorldD [OF assms] ..

lemma ingressInv_sameWorld:
  assumes "sameWorld s s'" and "sv_ingressPaused s \<or> belowPause s'" and "ingressInv fds s"
  shows "ingressInv fds s'"
  using assms(2,3) interestInv_sameWorld [OF assms(1)] sameWorldD [OF assms(1)] by (simp add: ingressInv_def)

lemma ingressInv_room: "ingressInv fds s \<Longrightarrow> sv_ingressPaused s \<or> belowPause s"
  by (simp add: ingressInv_def)

lemma readerActs_serverInv: "serverInv fds base ep s \<Longrightarrow> serverInv fds base ep (readerActs s)"
proof -
  assume a: "serverInv fds base ep s"
  then have "flowInv s" by (simp add: serverInv_def coreInv_def)
  note r = readerActs_flow [OF this]
  have "belowPause s \<Longrightarrow> belowPause (readerActs s)"
    using r(4) unfolding belowPause_def by (meson le_less_trans mult_le_mono1)
  then have "ingressInv fds (readerActs s)"
    using a ingressInv_sameWorld [OF r(2)] ingressInv_room unfolding serverInv_def by blast
  with a r(1,5) show ?thesis
    by (simp add: serverInv_def coreInv_def clientsInv_def fdInv_sameWorld [OF r(2)])
qed

lemma removeClient_interestInv:
  assumes "interestInv fds s" and "fdInv base ep s" and "fd \<in> clientFds s"
  shows "interestInv fds (removeClient fd s)"
proof -
  have "fd \<notin> listening s" using assms(2,3) by (auto simp: fdInv_def clientFds_def)
  then show ?thesis
    using assms(1,3)
    by (auto simp: interestInv_def clientFds_def listening_def delete_dom split: serverState.splits if_splits)
qed

lemma clientsInv_delete:
  assumes "clientsInv s" and "sv_clients s' = AList.delete fd (sv_clients s)"
  shows "clientsInv s'"
  using assms distinct_delete [of "sv_clients s" fd] by (auto simp: clientsInv_def delete_conv' split: if_splits)

lemma removeClient_serverInv:
  assumes "serverInv fds base ep s" and "fd \<in> clientFds s"
  shows "serverInv fds base ep (removeClient fd s)"
proof -
  have i: "clientsInv s" "interestInv fds s" "fdInv base ep s" "flowInv s" "sv_ingressPaused s \<or> belowPause s"
    using assms(1) by (auto simp: serverInv_def ingressInv_def coreInv_def)
  show ?thesis
    using clientsInv_delete [OF i(1), of "removeClient fd s" fd] removeClient_interestInv [OF i(2,3) assms(2)]
      removeClient_fdInv [OF i(3)] assms(2) i(4,5)
    by (simp add: serverInv_def coreInv_def ingressInv_def clientFds_def)
qed

text \<open>A call of \<open>readClient\<close> while ingress is not paused.\<close>

lemma clientRead_inv:
  assumes "serverInv fds base ep s" and "fd \<in> clientFds s" and "clientRead fd stream lost s ok pause s'"
  shows "coreInv base ep s'" and "ok \<Longrightarrow> clientsInv s' \<and> interestInv fds s' \<and> (pause \<or> belowPause s')"
    and "sv_ingressPaused s' = sv_ingressPaused s" and "sv_state s' = sv_state s"
proof -
  have i: "clientsInv s" "interestInv fds s" "fdInv base ep s"
    using assms(1) by (auto simp: serverInv_def ingressInv_def coreInv_def)
  have c: "flowInv s'" "pause \<or> belowPause s'" using assms(3) by (auto simp: clientRead_def)
  consider (same) b where "sameWorld s s'" "sv_clients s' = AList.update fd b (sv_clients s)" "ok \<longrightarrow> bufferOk b"
    | (gone) t b where "ok" "sameWorld s t" "sv_clients t = AList.update fd b (sv_clients s)" "s' = removeClient fd t"
    using assms(3) unfolding clientRead_def by (cases ok) (simp_all, blast+)
  then have "fdInv base ep s' \<and> (ok \<longrightarrow> clientsInv s' \<and> interestInv fds s') \<and>
      sv_ingressPaused s' = sv_ingressPaused s \<and> sv_state s' = sv_state s"
  proof cases
    case same
    then show ?thesis
      using i clientsInv_update [OF i(1) same(2)] interestInv_sameWorld [OF same(1)] fdInv_sameWorld [OF same(1)]
        sameWorldD [OF same(1)] by auto
  next
    case gone
    have t: "fdInv base ep t" "interestInv fds t" "fd \<in> clientFds t"
      using i gone interestInv_sameWorld [OF gone(2)] fdInv_sameWorld [OF gone(2)]
      by (auto simp: clientFds_def dom_update)
    have "sv_clients s' = AList.delete fd (sv_clients s)" using gone by (simp add: delete_update_same)
    from clientsInv_delete [OF i(1) this] show ?thesis
      using gone t removeClient_fdInv [OF t(1)] removeClient_interestInv [OF t(2,1,3)] sameWorldD [OF gone(2)]
      by (simp add: clientFds_def)
  qed
  with c show "coreInv base ep s'" "ok \<Longrightarrow> clientsInv s' \<and> interestInv fds s' \<and> (pause \<or> belowPause s')"
    "sv_ingressPaused s' = sv_ingressPaused s" "sv_state s' = sv_state s"
    by (auto simp: coreInv_def)
qed

lemma readClient_clientRead:
  assumes "serverInv fds base ep s" and "\<not> sv_ingressPaused s" and "fd \<in> clientFds s"
    and "readClient fd s = Some (ok, pause, s')"
  shows "\<exists>used. sv_input s fd = used @ sv_input s' fd \<and>
    clientRead fd (unread (clientBuffer fd s) @ receivedBytes used) (\<exists>r \<in> set used. disconnects r) s ok pause s'"
proof -
  have "map_of (sv_clients s) fd \<noteq> None" using assms(3) by (simp add: clientFds_def map_of_eq_None_iff)
  then have "readLoop (sv_input s fd) fd False s = Some (ok, pause, s')"
    using assms(4) by (auto simp: readClient_def split: if_splits)
  then show ?thesis
    using readLoop_result assms(1-3) by (auto simp: serverInv_def coreInv_def ingressInv_def clientFds_def)
qed

lemma readClient_inv:
  assumes "serverInv fds base ep s" and "\<not> sv_ingressPaused s" and "readClient fd s = Some (ok, pause, s')"
  shows "coreInv base ep s'" and "ok \<Longrightarrow> clientsInv s' \<and> interestInv fds s' \<and> (pause \<or> belowPause s')"
    and "sv_ingressPaused s' = sv_ingressPaused s" and "sv_state s' = sv_state s"
    and "pause \<Longrightarrow> sv_state s = Running"
proof -
  have "coreInv base ep s' \<and> (ok \<longrightarrow> clientsInv s' \<and> interestInv fds s' \<and> (pause \<or> belowPause s')) \<and>
    sv_ingressPaused s' = sv_ingressPaused s \<and> sv_state s' = sv_state s \<and> (pause \<longrightarrow> sv_state s = Running)"
  proof (cases "fd \<in> clientFds s")
    case True
    then have "sv_state s = Running"
      using assms(1) by (auto simp: serverInv_def ingressInv_def interestInv_def split: serverState.splits)
    with readClient_clientRead [OF assms(1,2) True assms(3)] clientRead_inv [OF assms(1) True] show ?thesis by blast
  next
    case False
    then have "map_of (sv_clients s) fd = None" by (simp add: clientFds_def map_of_eq_None_iff)
    with assms have "ok" "\<not> pause" "s' = s" by (auto simp: readClient_def)
    with assms(1,2) show ?thesis by (simp add: serverInv_def ingressInv_def)
  qed
  then show "coreInv base ep s'" "ok \<Longrightarrow> clientsInv s' \<and> interestInv fds s' \<and> (pause \<or> belowPause s')"
    "sv_ingressPaused s' = sv_ingressPaused s" "sv_state s' = sv_state s" "pause \<Longrightarrow> sv_state s = Running" by auto
qed


section \<open>Pausing and resuming\<close>

text \<open>A step that changes nothing but the registrations.\<close>

definition onlyEpoll :: "server \<Rightarrow> server \<Rightarrow> bool" where
  "onlyEpoll s s' \<longleftrightarrow> (\<exists>e c. s' = s\<lparr>sv_epoll := e, sv_ctl := c\<rparr>)"

lemma epollCtl_eq:
  "epollCtl f s = (let b = (sv_ctl s = [] \<or> hd (sv_ctl s)) in
     (b, s\<lparr>sv_epoll := (if b then f (sv_epoll s) else sv_epoll s), sv_ctl := tl (sv_ctl s)\<rparr>))"
  by (cases s) (auto simp: epollCtl_def split: list.split)

lemma onlyEpoll_ctl: "onlyEpoll s (snd (epollCtl f s))"
  unfolding onlyEpoll_def epollCtl_eq Let_def snd_conv by blast

lemma onlyEpoll_trans: "onlyEpoll s s1 \<Longrightarrow> onlyEpoll s1 s' \<Longrightarrow> onlyEpoll s s'"
  unfolding onlyEpoll_def by force

lemma onlyEpoll_refl: "onlyEpoll s s"
proof -
  have "s = s\<lparr>sv_epoll := sv_epoll s, sv_ctl := sv_ctl s\<rparr>" by simp
  then show ?thesis unfolding onlyEpoll_def by blast
qed

lemma onlyEpollD:
  assumes "onlyEpoll s s'"
  shows "sv_clients s' = sv_clients s" and "sv_open s' = sv_open s" and "sv_opened s' = sv_opened s"
    and "sv_closed s' = sv_closed s" and "sv_listenFd s' = sv_listenFd s" and "sv_state s' = sv_state s"
    and "sv_ingressPaused s' = sv_ingressPaused s" and "flowInv s' = flowInv s" and "belowPause s' = belowPause s"
    and "clientsInv s' = clientsInv s" and "fdInv base ep s' = fdInv base ep s" and "clientFds s' = clientFds s"
    and "listening s' = listening s"
proof -
  obtain e c where "s' = s\<lparr>sv_epoll := e, sv_ctl := c\<rparr>" using assms by (auto simp: onlyEpoll_def)
  then show "sv_clients s' = sv_clients s" "sv_open s' = sv_open s" "sv_opened s' = sv_opened s"
    "sv_closed s' = sv_closed s" "sv_listenFd s' = sv_listenFd s" "sv_state s' = sv_state s"
    "sv_ingressPaused s' = sv_ingressPaused s" "flowInv s' = flowInv s" "belowPause s' = belowPause s"
    "clientsInv s' = clientsInv s" "fdInv base ep s' = fdInv base ep s" "clientFds s' = clientFds s"
    "listening s' = listening s"
    by (simp_all add: flowInv_def belowPause_def clientsInv_def fdInv_def clientFds_def listening_def)
qed

lemma updateClients_result:
  "updateClients enabled fs s = (ok, s') \<Longrightarrow> onlyEpoll s s' \<and>
   (ok \<longrightarrow> sv_epoll s' = (\<lambda>fd. if fd \<in> set fs then (if enabled then Some clientMask else None) else sv_epoll s fd))"
proof (induction fs arbitrary: s)
  case Nil
  then show ?case by (auto simp: onlyEpoll_refl)
next
  case (Cons fd fs)
  let ?f = "\<lambda>e. e(fd := if enabled then Some clientMask else None)"
  obtain b s1 where c: "epollCtl ?f s = (b, s1)" by fastforce
  have s1: "onlyEpoll s s1" "b \<Longrightarrow> sv_epoll s1 = ?f (sv_epoll s)"
    using onlyEpoll_ctl [of s ?f] epollCtl_fields(12) [of ?f s] c by auto
  have "(if enabled then addEpollFd fd clientMask s else removeEpollFd fd s) = (b, s1)"
    using c by (cases enabled) (simp_all add: ctl_defs)
  then have r: "(if b then updateClients enabled fs s1 else (False, s1)) = (ok, s')"
    using Cons.prems by (cases b) simp_all
  show ?case
  proof (cases b)
    case True
    from Cons.IH [of s1] r True have i: "onlyEpoll s1 s'"
      "ok \<longrightarrow> sv_epoll s' = (\<lambda>fd. if fd \<in> set fs then (if enabled then Some clientMask else None) else sv_epoll s1 fd)"
      by simp_all
    show ?thesis using onlyEpoll_trans [OF s1(1) i(1)] i(2) s1(2) [OF True] by auto
  next
    case False
    with r s1 show ?thesis by auto
  qed
qed

lemma listenMask_eq: "(EPOLLERR OR EPOLLHUP) OR EPOLLIN = listenMask"
  by (simp add: EPOLLERR_def EPOLLHUP_def EPOLLIN_def listenMask_def)

lemma updateIngressInterest_result:
  assumes "updateIngressInterest enabled s = (ok, s')"
  shows "onlyEpoll s s'"
    and "ok \<Longrightarrow> sv_epoll s' = (\<lambda>fd. if fd \<in> clientFds s then (if enabled then Some clientMask else None)
      else if fd = sv_listenFd s then Some (if enabled then listenMask else EPOLLERR OR EPOLLHUP) else sv_epoll s fd)"
proof -
  let ?m = "if enabled then listenMask else EPOLLERR OR EPOLLHUP"
  let ?f = "\<lambda>e. e(sv_listenFd s \<mapsto> ?m)"
  obtain b s1 where c: "epollCtl ?f s = (b, s1)" by fastforce
  have s1: "onlyEpoll s s1" "b \<Longrightarrow> sv_epoll s1 = ?f (sv_epoll s)"
    using onlyEpoll_ctl [of s ?f] epollCtl_fields(12) [of ?f s] c by auto
  have r: "(if b then updateClients enabled (map fst (sv_clients s1)) s1 else (False, s1)) = (ok, s')"
    using assms c unfolding updateIngressInterest_def modifyEpollFd_def
    by (cases b; cases enabled) (simp_all add: listenMask_eq)
  have "onlyEpoll s s' \<and> (ok \<longrightarrow> sv_epoll s' = (\<lambda>fd. if fd \<in> clientFds s then (if enabled then Some clientMask else None)
      else if fd = sv_listenFd s then Some ?m else sv_epoll s fd))"
  proof (cases b)
    case True
    from updateClients_result [of enabled "map fst (sv_clients s1)" s1 ok s'] r True
    have u: "onlyEpoll s1 s'" "ok \<longrightarrow> sv_epoll s' = (\<lambda>fd. if fd \<in> set (map fst (sv_clients s1))
      then (if enabled then Some clientMask else None) else sv_epoll s1 fd)" by simp_all
    show ?thesis
      using onlyEpoll_trans [OF s1(1) u(1)] u(2) s1(2) [OF True] onlyEpollD(1) [OF s1(1)]
      by (auto simp: clientFds_def)
  next
    case False
    with r s1 show ?thesis by auto
  qed
  then show "onlyEpoll s s'" "ok \<Longrightarrow> sv_epoll s' = (\<lambda>fd. if fd \<in> clientFds s then (if enabled then Some clientMask else None)
      else if fd = sv_listenFd s then Some ?m else sv_epoll s fd)" by auto
qed

lemma updateIngressInterest_inv:
  assumes "interestInv fds s" and "fdInv base ep s" and "sv_state s = Running"
    and "updateIngressInterest enabled s = (True, s')"
  shows "interestInv fds (s'\<lparr>sv_ingressPaused := \<not> enabled\<rparr>)"
proof -
  note u = updateIngressInterest_result [OF assms(4)]
  note o = onlyEpollD [OF u(1)]
  have l: "sv_listenFd s \<notin> clientFds s" "sv_listenFd s \<noteq> -1" "listening s = {sv_listenFd s}"
    using assms(1-3) by (auto simp: fdInv_def interestInv_def clientFds_def listening_def split: if_splits)
  have same: "clientFds (s'\<lparr>sv_ingressPaused := \<not> enabled\<rparr>) = clientFds s"
    "listening (s'\<lparr>sv_ingressPaused := \<not> enabled\<rparr>) = listening s"
    using o(1,5) by (simp_all add: clientFds_def listening_def)
  have "dom (sv_epoll s) \<subseteq> {fdSpaceReady fds, fdSignal fds} \<union> listening s \<union> clientFds s"
    using assms(1) by (simp add: interestInv_def)
  then have "dom (sv_epoll s') \<subseteq> {fdSpaceReady fds, fdSignal fds} \<union> listening s \<union> clientFds s"
    using u(2) l(3) by (auto simp: dom_def subset_iff split: if_splits)
  then show ?thesis
    using l o(5,6) u(2) assms(3) unfolding interestInv_def same by (auto split: if_splits)
qed


section \<open>The handlers keep the invariant\<close>

lemmas inv_defs = serverInv_def coreInv_def clientsInv_def ingressInv_def interestInv_def flowInv_def fdInv_def
  belowPause_def clientFds_def listening_def

text \<open>The invariants depend on these fields only.\<close>

lemma flow_cong:
  assumes "sv_ring s' = sv_ring s" and "sv_published s' = sv_published s" and "sv_delivered s' = sv_delivered s"
    and "sv_log s' = sv_log s"
  shows "flowInv s' = flowInv s" and "belowPause s' = belowPause s"
  unfolding flowInv_def belowPause_def assms by (rule refl)+

lemma clientsInv_cong: "sv_clients s' = sv_clients s \<Longrightarrow> clientsInv s' = clientsInv s"
  by (simp add: clientsInv_def)

lemma serverInv_cong:
  assumes "sv_ring s' = sv_ring s" and "sv_published s' = sv_published s" and "sv_delivered s' = sv_delivered s"
    and "sv_log s' = sv_log s"
    and "sv_clients s' = sv_clients s" and "sv_open s' = sv_open s" and "sv_opened s' = sv_opened s"
    and "sv_closed s' = sv_closed s" and "sv_listenFd s' = sv_listenFd s" and "sv_state s' = sv_state s"
    and "sv_ingressPaused s' = sv_ingressPaused s" and "sv_epoll s' = sv_epoll s"
  shows "serverInv fds base ep s' = serverInv fds base ep s"
  unfolding inv_defs assms by (rule refl)

lemma serverInv_scripts [simp]:
  "serverInv fds base ep (s\<lparr>sv_accept := x1\<rparr>) = serverInv fds base ep s"
  "serverInv fds base ep (s\<lparr>sv_signals := x2\<rparr>) = serverInv fds base ep s"
  "serverInv fds base ep (s\<lparr>sv_consume := x3\<rparr>) = serverInv fds base ep s"
  by (rule serverInv_cong; simp)+

lemma serverInv_parts:
  assumes "serverInv fds base ep s"
  shows "flowInv s" and "fdInv base ep s" and "clientsInv s" and "interestInv fds s" and "sv_ingressPaused s \<or> belowPause s"
  using assms by (simp_all add: serverInv_def coreInv_def ingressInv_def)

text \<open>A new descriptor is none of those in use.\<close>

lemma fresh_fd:
  assumes "fdInv base ep s" and "fd \<notin> set (sv_open s)"
  shows "fd \<notin> insert ep (set base)" and "fd \<notin> clientFds s" and "fd \<notin> listening s"
  using assms by (auto simp: fdInv_def clientFds_def)

text \<open>A connection that could not be registered is closed again; a registered one becomes a client.\<close>

lemma accept_rejected:
  assumes "serverInv fds base ep s" and "fd \<notin> set (sv_open s)"
  shows "serverInv fds base ep (s\<lparr>sv_opened := sv_opened s @ [fd], sv_ctl := c,
    sv_closed := sv_closed s @ [fd], sv_epoll := (sv_epoll s)(fd := None)\<rparr>)" (is "serverInv fds base ep ?s")
proof -
  note i = serverInv_parts [OF assms(1)] and f = fresh_fd [OF serverInv_parts(2) [OF assms(1)] assms(2)]
  have "interestInv fds ?s" using i(4) f(2,3)
    by (auto simp: interestInv_def clientFds_def listening_def split: serverState.splits if_splits)
  moreover have l: "listening ?s = listening s" by (simp add: listening_def)
  have "fdInv base ep ?s" using i(2) unfolding fdInv_def l by simp
  moreover have "flowInv ?s" "clientsInv ?s" "sv_ingressPaused ?s \<or> belowPause ?s"
    using i(1,3,5) flow_cong [of ?s s] clientsInv_cong [of ?s s] by simp_all
  ultimately show ?thesis by (simp add: serverInv_def coreInv_def ingressInv_def)
qed

lemma accept_registered:
  assumes "serverInv fds base ep s" and "fd \<notin> set (sv_open s)" and "0 \<le> fd" and "sv_state s = Running"
    and "\<not> sv_ingressPaused s"
  shows "serverInv fds base ep (s\<lparr>sv_open := fd # sv_open s, sv_opened := sv_opened s @ [fd],
    sv_epoll := (sv_epoll s)(fd \<mapsto> clientMask), sv_ctl := c, sv_clients := (fd, emptyBuffer) # sv_clients s\<rparr>)"
    (is "serverInv fds base ep ?s")
proof -
  note i = serverInv_parts [OF assms(1)] and f = fresh_fd [OF serverInv_parts(2) [OF assms(1)] assms(2)]
  have cf: "clientFds ?s = insert fd (clientFds s)" "listening ?s = listening s"
    by (simp_all add: clientFds_def listening_def)
  have "fd \<noteq> sv_listenFd s" using f(3) assms(3) by (auto simp: listening_def split: if_splits)
  then have "interestInv fds ?s" using i(4) assms(4,5) unfolding interestInv_def cf by auto
  moreover have "fdInv base ep ?s"
    using i(2) f assms(2) unfolding fdInv_def cf(2) by (auto simp: clientFds_def)
  moreover have "bufferOk emptyBuffer" by (simp add: bufferOk_def) (simp add: emptyBuffer_def compactThreshold_def)
  then have "clientsInv ?s" using i(3) f(2) by (auto simp: clientsInv_def clientFds_def split: if_splits)
  moreover have "flowInv ?s" "sv_ingressPaused ?s \<or> belowPause ?s"
    using i(1,5) flow_cong [of ?s s] by simp_all
  ultimately show ?thesis by (simp add: serverInv_def coreInv_def ingressInv_def)
qed

lemma acceptLoop_inv:
  assumes "serverInv fds base ep s" and "sv_state s = Running" and "\<not> sv_ingressPaused s"
    and "acceptLoop script s = Some (ok, s')"
  shows "serverInv fds base ep s'"
  using assms
proof (induction script arbitrary: s)
  case Nil
  then show ?case by auto
next
  case (Cons r rest)
  show ?case
  proof (cases r)
    case (Fail e)
    with Cons show ?thesis by (auto split: if_splits)
  next
    case (Ret fd)
    then have fresh: "0 \<le> fd" "fd \<notin> set (sv_open s)" using Cons.prems(4) by (auto split: if_splits)
    have e: "sv_epoll (openFd fd s) = sv_epoll s" by (simp add: openFd_def)
    obtain b c where ctl: "addEpollFd fd clientMask (openFd fd s) =
        (b, (openFd fd s)\<lparr>sv_epoll := (if b then (sv_epoll s)(fd \<mapsto> clientMask) else sv_epoll s), sv_ctl := c\<rparr>)"
      unfolding addEpollFd_def epollCtl_eq Let_def e by blast
    have k: "fd \<notin> fst ` set (sv_clients s)"
      using fresh_fd(2) [OF serverInv_parts(2) [OF Cons.prems(1)] fresh(2)] by (simp add: clientFds_def)
    show ?thesis
    proof (cases b)
      case True
      let ?s = "s\<lparr>sv_open := fd # sv_open s, sv_opened := sv_opened s @ [fd],
        sv_epoll := (sv_epoll s)(fd \<mapsto> clientMask), sv_ctl := c, sv_clients := (fd, emptyBuffer) # sv_clients s\<rparr>"
      have "acceptLoop rest ?s = Some (ok, s')"
        using Cons.prems(4) Ret fresh ctl True k by (simp add: openFd_def)
      with accept_registered [OF Cons.prems(1) fresh(2,1) Cons.prems(2,3)] Cons.IH [of ?s] Cons.prems(2,3)
      show ?thesis by simp
    next
      case False
      let ?s = "s\<lparr>sv_opened := sv_opened s @ [fd], sv_ctl := c,
        sv_closed := sv_closed s @ [fd], sv_epoll := (sv_epoll s)(fd := None)\<rparr>"
      have "acceptLoop rest ?s = Some (ok, s')"
        using Cons.prems(4) Ret fresh ctl False by (simp add: openFd_def closeFd_def)
      with accept_rejected [OF Cons.prems(1) fresh(2)] Cons.IH [of ?s] Cons.prems(2,3)
      show ?thesis by simp
    qed
  qed
qed

text \<open>Draining: no listening socket and no client is left.\<close>

lemma beginDraining_inv:
  assumes "serverInv fds base ep s" and "sv_state s = Running"
  shows "serverInv fds base ep (beginDraining (s\<lparr>sv_state := Draining\<rparr>))"
    and "sv_state (beginDraining (s\<lparr>sv_state := Draining\<rparr>)) = Draining"
proof -
  note i = serverInv_parts [OF assms(1)]
  let ?l = "sv_listenFd s"
  define t where "t = (closeFd ?l (snd (removeEpollFd ?l (s\<lparr>sv_state := Draining\<rparr>))))\<lparr>sv_listenFd := -1\<rparr>"
  have l: "?l \<noteq> -1" "?l \<in> set (sv_open s)" "?l \<notin> insert ep (set base) \<union> clientFds s" "listening s = {?l}"
    using i(2,4) assms(2) by (auto simp: interestInv_def fdInv_def listening_def clientFds_def split: if_splits)
  have bd: "beginDraining (s\<lparr>sv_state := Draining\<rparr>) = removeAllClients t"
    using l(1) by (simp add: beginDraining_def t_def)
  have t: "sv_clients t = sv_clients s" "sv_open t = remove1 ?l (sv_open s)" "sv_opened t = sv_opened s"
    "sv_closed t = sv_closed s @ [?l]" "sv_listenFd t = -1" "sv_state t = Draining"
    "sv_ingressPaused t = sv_ingressPaused s" "sv_ring t = sv_ring s" "sv_published t = sv_published s"
    "sv_delivered t = sv_delivered s" "sv_epoll t = (sv_epoll s)(?l := None)" "sv_log t = sv_log s"
    by (simp_all add: t_def closeFd_def ctl_defs)
  have "fdInv base ep t"
    using i(2) l mset_remove1_closed [OF l(2), of "sv_closed s"]
    unfolding fdInv_def t l(4) by (auto simp: listening_def t clientFds_def)
  note r = removeAllClients_facts [OF this]
  let ?r = "removeAllClients t"
  have "dom (sv_epoll ?r) \<subseteq> {fdSpaceReady fds, fdSignal fds}"
  proof
    fix fd assume "fd \<in> dom (sv_epoll ?r)"
    then have y: "sv_epoll ?r fd \<noteq> None" by (simp add: domIff)
    then have n: "fd \<notin> fst ` set (sv_clients t)" using r(11) [of fd] by metis
    with y have "sv_epoll t fd \<noteq> None" "fd \<notin> clientFds s" using r(10) t(1) by (simp_all add: clientFds_def)
    then show "fd \<in> {fdSpaceReady fds, fdSignal fds}"
      using i(4) l(4) t(11) by (auto simp: interestInv_def split: if_splits)
  qed
  then have "interestInv fds ?r" using r(2-5) t(5,6) by (auto simp: interestInv_def clientFds_def)
  moreover have "flowInv ?r" "sv_ingressPaused ?r \<or> belowPause ?r" "clientsInv ?r"
    using i(1,5) r(2-9) t flow_cong [of ?r s] by (simp_all add: clientsInv_def)
  ultimately show "serverInv fds base ep (beginDraining (s\<lparr>sv_state := Draining\<rparr>))"
    using r(1) unfolding bd by (simp add: serverInv_def coreInv_def ingressInv_def)
  show "sv_state (beginDraining (s\<lparr>sv_state := Draining\<rparr>)) = Draining" unfolding bd using r(4) t(6) by simp
qed

lemma handleSignalEvent_inv:
  assumes "serverInv fds base ep s" and "handleSignalEvent events pid s = (ok, s')"
  shows "serverInv fds base ep s'"
proof -
  have sig: "serverInv fds base ep s1 \<and> sv_state s1 = sv_state s" if "handleSignalFd pid s = (b, st, s1)" for b st s1
    using that assms(1) by (auto simp: handleSignalFd_def split: prod.splits)
  have "serverInv fds base ep s1 \<Longrightarrow> sv_state s1 = Running \<Longrightarrow> serverInv fds base ep (beginDraining (s1\<lparr>sv_state := Draining\<rparr>))" for s1
    using beginDraining_inv(1) by blast
  with assms sig show ?thesis
    unfolding handleSignalEvent_def by (auto split: if_splits prod.splits bool.splits)
qed

text \<open>An event is handled with the invariant kept, or the server stops with its core intact.\<close>

definition eventHandled :: "serverFds \<Rightarrow> int list \<Rightarrow> int \<Rightarrow> bool \<Rightarrow> server \<Rightarrow> bool" where
  "eventHandled fds base ep ok s \<longleftrightarrow> (if ok then serverInv fds base ep s else coreInv base ep s)"

lemma eventHandledI: "serverInv fds base ep s \<Longrightarrow> eventHandled fds base ep ok s"
  by (simp add: eventHandled_def serverInv_def)

lemma coreInv_onlyEpoll: "onlyEpoll s s' \<Longrightarrow> coreInv base ep s' = coreInv base ep s"
  by (simp add: coreInv_def onlyEpollD)

text \<open>Switching the interest: the state after it satisfies the invariant with the new flag.\<close>

lemma updateIngressInterest_handled:
  assumes "coreInv base ep s" and "clientsInv s" and "interestInv fds s" and "sv_state s = Running"
    and "\<not> enabled \<or> belowPause s" and "updateIngressInterest enabled s = (ok, s')"
  shows "coreInv base ep s'" and "ok \<Longrightarrow> serverInv fds base ep (s'\<lparr>sv_ingressPaused := \<not> enabled\<rparr>)"
proof -
  note o = updateIngressInterest_result(1) [OF assms(6)]
  have f: "fdInv base ep s" using assms(1) by (simp add: coreInv_def)
  show c: "coreInv base ep s'" using assms(1) by (simp add: coreInv_onlyEpoll [OF o])
  show "serverInv fds base ep (s'\<lparr>sv_ingressPaused := \<not> enabled\<rparr>)" if ok
  proof -
    let ?t = "s'\<lparr>sv_ingressPaused := \<not> enabled\<rparr>"
    have "updateIngressInterest enabled s = (True, s')" using assms(6) that by simp
    from updateIngressInterest_inv [OF assms(3) f assms(4) this] have "interestInv fds ?t" .
    moreover have "flowInv ?t" "belowPause ?t = belowPause s"
      using c flow_cong [of ?t s'] onlyEpollD(9) [OF o] by (simp_all add: coreInv_def)
    moreover have "fdInv base ep ?t = fdInv base ep s'"
      unfolding fdInv_def listening_def by simp
    moreover have "clientsInv ?t" using assms(2) onlyEpollD(10) [OF o] clientsInv_cong [of ?t s'] by simp
    ultimately show ?thesis using c assms(5) by (auto simp: serverInv_def coreInv_def ingressInv_def)
  qed
qed

lemma handleListenEvent_handled:
  assumes "serverInv fds base ep s" and "sv_listenFd s \<noteq> -1" and "handleListenEvent m s = Some (ok, s')"
  shows "serverInv fds base ep s'"
proof -
  have r: "sv_state s = Running"
    using serverInv_parts(4) [OF assms(1)] assms(2) by (auto simp: interestInv_def split: serverState.splits)
  have a: "serverInv fds base ep t" if "acceptClients s = Some (b, t)" "\<not> sv_ingressPaused s" for b t
    using acceptLoop_inv [OF assms(1) r that(2)] that(1) by (simp add: acceptClients_def)
  show ?thesis
    using assms(1,3) a unfolding handleListenEvent_def by (auto split: if_splits Option.bind_split_asm)
qed

lemma handleHangup_handled:
  assumes "serverInv fds base ep s" and "handleHangup fd m s = (ok, s')"
  shows "serverInv fds base ep s'"
proof -
  have "serverInv fds base ep (removeClient fd s)" if "map_of (sv_clients s) fd \<noteq> None"
    using removeClient_serverInv [OF assms(1), of fd] that by (simp add: clientFds_def map_of_eq_None_iff)
  with assms show ?thesis unfolding handleHangup_def by (auto split: if_splits)
qed

lemma handleClientEvent_handled:
  assumes "serverInv fds base ep s" and "handleClientEvent fd m s = Some (ok, s')"
  shows "eventHandled fds base ep ok s'"
proof (cases "\<not> sv_ingressPaused s \<and> m AND EPOLLIN \<noteq> 0")
  case False
  then have "handleHangup fd m s = (ok, s')" using assms(2) by (auto simp: handleClientEvent_def)
  from handleHangup_handled [OF assms(1) this] show ?thesis by (rule eventHandledI)
next
  case True
  then obtain ok1 pause s1 where r: "readClient fd s = Some (ok1, pause, s1)"
    and k: "(if \<not> ok1 then (False, s1)
             else if pause then (case updateIngressInterest False s1 of
                 (False, s2) \<Rightarrow> (False, s2) | (True, s2) \<Rightarrow> (True, s2\<lparr>sv_ingressPaused := True\<rparr>))
             else handleHangup fd m s1) = (ok, s')"
    using assms(2) by (auto simp: handleClientEvent_def split: Option.bind_split_asm)
  have np: "\<not> sv_ingressPaused s" using True by simp
  note c = readClient_inv [OF assms(1) np r]
  show ?thesis
  proof (cases "ok1 \<and> pause")
    case both: True
    then have i: "clientsInv s1" "interestInv fds s1" "sv_state s1 = Running" using c by auto
    obtain b s2 where u: "updateIngressInterest False s1 = (b, s2)" by fastforce
    have "\<not> False \<or> belowPause s1" by simp
    note h = updateIngressInterest_handled [OF c(1) i this u]
    have "(ok, s') = (if b then (True, s2\<lparr>sv_ingressPaused := True\<rparr>) else (False, s2))"
      using k both u by (cases b) auto
    with h show ?thesis by (cases b) (auto simp: eventHandled_def)
  next
    case False
    show ?thesis
    proof (cases ok1)
      case True
      with c(2) False have "serverInv fds base ep s1"
        using c(1) by (simp add: serverInv_def ingressInv_def)
      moreover have "handleHangup fd m s1 = (ok, s')" using k True False by simp
      ultimately show ?thesis using eventHandledI handleHangup_handled by metis
    next
      case ok1: False
      with k c(1) show ?thesis by (auto simp: eventHandled_def)
    qed
  qed
qed

lemma handleSpaceEvent_handled:
  assumes "serverInv fds base ep s" and "handleSpaceEvent m s = Some (ok, s')"
  shows "eventHandled fds base ep ok s'"
proof -
  have resume: "coreInv base ep t \<and> (b \<longrightarrow> serverInv fds base ep (t\<lparr>sv_ingressPaused := False\<rparr>))"
    if "serverInv fds base ep s1" "sv_state s1 = Running" "loadPendingBytes s1 = (n, s2)" "n \<le> kResumeIngressBytes"
      "updateIngressInterest True s2 = (b, t)" for s1 n s2 b t
  proof -
    have s2: "s2 = readerActs s1" "n = pendingBytes (sv_ring s2)" using that(3) by (auto simp: loadPendingBytes_def Let_def)
    have i: "serverInv fds base ep s2" using readerActs_serverInv [OF that(1)] s2(1) by simp
    have r: "sv_state s2 = Running"
      using sameWorldD(4) [OF readerActs_flow(2) [OF serverInv_parts(1) [OF that(1)]]] that(2) s2(1) by simp
    have "belowPause s2"
      using that(4) s2(2) by (simp add: belowPause_def pendingBytes_def pendingFrames_eq server_consts)
    then have e: "\<not> True \<or> belowPause s2" by simp
    have c: "coreInv base ep s2" using i by (simp add: serverInv_def)
    from updateIngressInterest_handled [OF c serverInv_parts(3,4) [OF i] r e that(5)] show ?thesis by auto
  qed
  have load: "serverInv fds base ep s2" if "serverInv fds base ep s1" "loadPendingBytes s1 = (n, s2)" for s1 s2 n
    using that readerActs_serverInv by (auto simp: loadPendingBytes_def Let_def)
  have consume: "serverInv fds base ep s1" if "consumeSpace s = Some (b, s1)" for b s1
    using that assms(1) by (auto simp: consumeSpace_def split: Option.bind_split_asm)
  show ?thesis
  proof (cases "m AND EPOLLIN = 0")
    case True
    with assms show ?thesis by (auto simp: handleSpaceEvent_def intro: eventHandledI)
  next
    case False
    then obtain b s1 where cs: "consumeSpace s = Some (b, s1)"
      using assms(2) by (auto simp: handleSpaceEvent_def split: Option.bind_split_asm)
    note i1 = consume [OF cs]
    obtain n s2 where ld: "loadPendingBytes s1 = (n, s2)" by fastforce
    obtain u t where up: "updateIngressInterest True s2 = (u, t)" by fastforce
    have res: "(ok, s') = (let (g, s3) = (if \<not> b then (False, s1)
        else if sv_state s1 = Running \<and> sv_ingressPaused s1
        then (if n \<le> kResumeIngressBytes then (if u then (True, t\<lparr>sv_ingressPaused := False\<rparr>) else (False, t)) else (True, s2))
        else (True, s1)) in if \<not> g then (False, s3) else (m AND (EPOLLERR OR EPOLLHUP) = 0, s3))"
      using assms(2) False cs ld up by (auto simp: handleSpaceEvent_def split: if_splits)
    have c1: "coreInv base ep s1" using i1 by (simp add: serverInv_def)
    show ?thesis
      using res i1 c1 load [OF i1 ld] resume [OF i1 _ ld _ up]
      by (auto simp: Let_def eventHandled_def serverInv_def split: if_splits)
  qed
qed


section \<open>The event loop keeps the invariant\<close>

lemma handleEvent_handled:
  assumes "serverInv fds base ep s" and "0 \<le> fd" and "handleEvent sp fd m s = Some (ok, s')"
  shows "eventHandled fds base ep ok s'"
proof (cases "fd = sv_listenFd s")
  case True
  then have "handleListenEvent m s = Some (ok, s')" "sv_listenFd s \<noteq> -1"
    using assms(2,3) by (auto simp: handleEvent_def)
  from eventHandledI [OF handleListenEvent_handled [OF assms(1) this(2,1)]] show ?thesis .
next
  case False
  then have "handleSpaceEvent m s = Some (ok, s') \<or> handleClientEvent fd m s = Some (ok, s')"
    using assms(3) by (auto simp: handleEvent_def split: if_splits)
  with handleSpaceEvent_handled [OF assms(1)] handleClientEvent_handled [OF assms(1)] show ?thesis by blast
qed

lemma handleEvents_handled:
  "serverInv fds base ep s \<Longrightarrow> \<forall>(fd, m) \<in> set evs. 0 \<le> fd \<Longrightarrow> handleEvents fds evs s = Some (ok, s') \<Longrightarrow>
   eventHandled fds base ep ok s'"
proof (induction evs arbitrary: s)
  case Nil
  then show ?case by (auto intro: eventHandledI)
next
  case (Cons ev evs)
  obtain fd m where ev: "ev = (fd, m)" by fastforce
  obtain b s1 where h: "(if fd = fdSignal fds then Some (handleSignalEvent m (pidReader fds) s)
      else handleEvent (fdSpaceReady fds) fd m s) = Some (b, s1)"
    and rest: "(if b then handleEvents fds evs s1 else Some (False, s1)) = Some (ok, s')"
    using Cons.prems(3) ev by (auto split: Option.bind_split_asm)
  have fd: "0 \<le> fd" using Cons.prems(2) ev by simp
  have i: "eventHandled fds base ep b s1"
    using h handleEvent_handled [OF Cons.prems(1) fd] handleSignalEvent_inv [OF Cons.prems(1)] eventHandledI
    by (cases "fd = fdSignal fds") auto
  show ?case
  proof (cases b)
    case True
    then have "serverInv fds base ep s1" using i by (simp add: eventHandled_def)
    from Cons.IH [OF this] Cons.prems(2) rest True show ?thesis by simp
  next
    case False
    with rest i show ?thesis by auto
  qed
qed

text \<open>What the loop returns.\<close>

definition serverDone :: "serverFds \<Rightarrow> int list \<Rightarrow> int \<Rightarrow> exitCode \<Rightarrow> server \<Rightarrow> bool" where
  "serverDone fds base ep code s \<longleftrightarrow> coreInv base ep s \<and>
     (code = EXIT_SUCCESS \<longrightarrow> sv_state s = Draining \<and> ringFrames (sv_ring s) = [])"

lemma drainedExit_inv:
  assumes "serverInv fds base ep s" and "drainedExit s = (b, s')"
  shows "serverInv fds base ep s'" and "b \<Longrightarrow> sv_state s' = Draining \<and> ringFrames (sv_ring s') = []"
proof -
  note r = readerActs_serverInv [OF assms(1)]
  have st: "sv_state (readerActs s) = sv_state s"
    using sameWorldD(4) [OF readerActs_flow(2) [OF serverInv_parts(1) [OF assms(1)]]] .
  show "serverInv fds base ep s'" "b \<Longrightarrow> sv_state s' = Draining \<and> ringFrames (sv_ring s') = []"
    using assms r st
    by (auto simp: drainedExit_def loadEmpty_def Let_def ringEmpty_def pendingFrames_eq split: if_splits)
qed

definition eventsOk :: "(int \<times> u32) list sysret list \<Rightarrow> bool" where
  "eventsOk waits \<longleftrightarrow> (\<forall>r \<in> set waits. case r of Ret evs \<Rightarrow> \<forall>(fd, m) \<in> set evs. 0 \<le> fd | Fail _ \<Rightarrow> True)"

lemma serverLoop_result:
  "serverInv fds base ep s \<Longrightarrow> eventsOk waits \<Longrightarrow> serverLoop fds waits s = Some (code, s') \<Longrightarrow>
   serverDone fds base ep code s'"
proof (induction waits arbitrary: s)
  case Nil
  obtain b s1 where d: "drainedExit s = (b, s1)" by fastforce
  with drainedExit_inv [OF Nil.prems(1) d] Nil.prems(3) show ?case
    by (auto simp: serverDone_def serverInv_def split: if_splits)
next
  case (Cons r waits)
  obtain b s1 where d: "drainedExit s = (b, s1)" by fastforce
  note i = drainedExit_inv [OF Cons.prems(1) d]
  have c: "coreInv base ep s1" using i(1) by (simp add: serverInv_def)
  have ok: "eventsOk waits" using Cons.prems(2) by (simp add: eventsOk_def)
  show ?case
  proof (cases b)
    case True
    with Cons.prems(3) d i(2) c show ?thesis by (auto simp: serverDone_def)
  next
    case False
    show ?thesis
    proof (cases r)
      case (Fail e)
      with False Cons.prems(3) d Cons.IH [OF i(1) ok] c show ?thesis
        by (auto simp: serverDone_def split: if_splits)
    next
      case (Ret evs)
      with False Cons.prems(3) d obtain g s2 where h: "handleEvents fds (take kMaxEvents evs) s1 = Some (g, s2)"
        and rest: "(if g then serverLoop fds waits s2 else Some (EXIT_FAILURE, s2)) = Some (code, s')"
        by (auto split: Option.bind_split_asm)
      have "\<forall>(fd, m) \<in> set evs. 0 \<le> fd" using Cons.prems(2) Ret by (simp add: eventsOk_def)
      then have "\<forall>(fd, m) \<in> set (take kMaxEvents evs). 0 \<le> fd" by (meson in_set_takeD)
      from handleEvents_handled [OF i(1) this h] have e: "eventHandled fds base ep g s2" .
      show ?thesis
      proof (cases g)
        case True
        then have "serverInv fds base ep s2" using e by (simp add: eventHandled_def)
        from Cons.IH [OF this ok] rest True show ?thesis by simp
      next
        case False
        with rest e show ?thesis by (auto simp: eventHandled_def serverDone_def)
      qed
    qed
  qed
qed

lemma closeFd_fields [simp]:
  "sv_open (closeFd fd s) = remove1 fd (sv_open s)" "sv_closed (closeFd fd s) = sv_closed s @ [fd]"
  "sv_opened (closeFd fd s) = sv_opened s" "sv_clients (closeFd fd s) = sv_clients s"
  "sv_listenFd (closeFd fd s) = sv_listenFd s" "sv_ring (closeFd fd s) = sv_ring s"
  "sv_published (closeFd fd s) = sv_published s" "sv_delivered (closeFd fd s) = sv_delivered s"
  "sv_log (closeFd fd s) = sv_log s"
  "sv_state (closeFd fd s) = sv_state s"
  by (simp_all add: closeFd_def)

lemma shutdownServer_result:
  assumes "coreInv base ep s" and "distinct base"
  defines "t \<equiv> shutdownServer ep s"
  shows "mset (sv_closed t) = mset (sv_opened t)" and "mset (sv_open t) = mset base" and "sv_clients t = []"
    and "sv_ring t = sv_ring s" and "sv_published t = sv_published s" and "sv_delivered t = sv_delivered s"
    and "sv_log t = sv_log s"
proof -
  let ?r = "removeAllClients s"
  have "fdInv base ep s" using assms(1) by (simp add: coreInv_def)
  note r = removeAllClients_facts [OF this]
  have fd: "ep \<notin> set base" "distinct (sv_open ?r)" "set (sv_open ?r) = insert ep (set base) \<union> listening ?r"
    "listening ?r \<inter> insert ep (set base) = {}" "mset (sv_open ?r) + mset (sv_closed ?r) = mset base + mset (sv_opened ?r)"
    using r(1,2) by (simp_all add: fdInv_def)
  define u where "u = (if sv_listenFd ?r \<noteq> -1 then closeFd (sv_listenFd ?r) ?r else ?r)"
  have u: "distinct (sv_open u)" "set (sv_open u) = insert ep (set base)"
    "mset (sv_open u) + mset (sv_closed u) = mset base + mset (sv_opened u)" "sv_clients u = []" "sv_ring u = sv_ring s"
    "sv_published u = sv_published s" "sv_delivered u = sv_delivered s" "sv_log u = sv_log s"
    using fd r(2,6,7,8,9) mset_remove1_closed [of "sv_listenFd ?r" "sv_open ?r" "sv_closed ?r"]
    by (auto simp: u_def listening_def split: if_splits)
  have t: "t = closeFd ep u" by (simp add: t_def shutdownServer_def Let_def u_def)
  have "distinct (sv_open t)" "set (sv_open t) = set base" using u(1,2) fd(1) by (auto simp: t)
  then show o: "mset (sv_open t) = mset base" using assms(2) set_eq_iff_mset_eq_distinct by blast
  have "mset (sv_open t) + mset (sv_closed t) = mset base + mset (sv_opened t)"
    using mset_remove1_closed [of ep "sv_open u" "sv_closed u"] u(2,3) by (simp add: t)
  then show "mset (sv_closed t) = mset (sv_opened t)" using o by simp
  show "sv_clients t = []" "sv_ring t = sv_ring s" "sv_published t = sv_published s" "sv_delivered t = sv_delivered s"
    "sv_log t = sv_log s"
    using u by (simp_all add: t)
qed


section \<open>The whole run\<close>

lemma registerAll_result:
  "registerAll fs s = (ok, s') \<Longrightarrow> onlyEpoll s s' \<and>
   (ok \<longrightarrow> sv_epoll s' = (\<lambda>fd. if fd \<in> set fs then Some listenMask else sv_epoll s fd))"
proof (induction fs arbitrary: s)
  case Nil
  then show ?case by (auto simp: onlyEpoll_refl)
next
  case (Cons fd fs)
  let ?f = "\<lambda>e. e(fd \<mapsto> listenMask)"
  obtain b s1 where c: "epollCtl ?f s = (b, s1)" by fastforce
  have s1: "onlyEpoll s s1" "b \<Longrightarrow> sv_epoll s1 = ?f (sv_epoll s)"
    using onlyEpoll_ctl [of s ?f] epollCtl_fields(12) [of ?f s] c by auto
  have r: "(if b then registerAll fs s1 else (False, s1)) = (ok, s')"
    using Cons.prems c by (cases b) (simp_all add: ctl_defs)
  show ?case
  proof (cases b)
    case True
    from Cons.IH [of s1] r True have i: "onlyEpoll s1 s'"
      "ok \<longrightarrow> sv_epoll s' = (\<lambda>fd. if fd \<in> set fs then Some listenMask else sv_epoll s1 fd)" by simp_all
    show ?thesis using onlyEpoll_trans [OF s1(1) i(1)] i(2) s1(2) [OF True] by auto
  next
    case False
    with r s1 show ?thesis by auto
  qed
qed

text \<open>What \<open>run\<close> leaves behind, on every path.\<close>

definition serverFinished :: "int list \<Rightarrow> exitCode \<Rightarrow> server \<Rightarrow> bool" where
  "serverFinished base code s \<longleftrightarrow> mset (sv_closed s) = mset (sv_opened s) \<and> mset (sv_open s) = mset base \<and>
     sv_published s = sv_delivered s @ ringFrames (sv_ring s) \<and> list_all validFrame (sv_published s) \<and>
     (code = EXIT_SUCCESS \<longrightarrow> sv_delivered s = sv_published s \<and> ringFrames (sv_ring s) = []) \<and>
     history capacityFrames (sv_log s) = (sv_published s, length (sv_delivered s), False)"

text \<open>The state in which the loop starts.\<close>

lemma registered_inv:
  assumes "flowInv s" and "belowPause s" and "sv_clients s = []" and "sv_open s = base" and "sv_opened s = []"
    and "sv_closed s = []" and "sv_epoll s = Map.empty" and "distinct base" and "0 \<le> l" and "l \<notin> set base"
    and "ep \<notin> set (l # base)" and "registerAll [l, fdSpaceReady fds, fdSignal fds] (openFd ep ((openFd l s)\<lparr>sv_listenFd := l\<rparr>)) = (True, s3)"
  shows "serverInv fds base ep (s3\<lparr>sv_state := Running, sv_ingressPaused := False\<rparr>)" (is "serverInv fds base ep ?t")
proof -
  let ?s2 = "openFd ep ((openFd l s)\<lparr>sv_listenFd := l\<rparr>)"
  note o = registerAll_result [OF assms(12)]
  have e: "sv_epoll ?t = (\<lambda>fd. if fd \<in> {l, fdSpaceReady fds, fdSignal fds} then Some listenMask else None)"
  proof -
    have "sv_epoll ?s2 = Map.empty" using assms(7) by (simp add: openFd_def)
    with o show ?thesis by (simp cong: if_cong)
  qed
  note f = onlyEpollD [OF conjunct1 [OF o]]
  have w: "sv_clients ?t = []" "sv_open ?t = ep # l # base" "sv_opened ?t = [l, ep]" "sv_closed ?t = []" "sv_listenFd ?t = l"
    using f(1-5) assms(3-6) by (simp_all add: openFd_def)
  have "flowInv ?t" "belowPause ?t"
    using f(8,9) assms(1,2) flow_cong [of ?t s3] flow_cong [of ?s2 s] by (simp_all add: openFd_def)
  moreover have "fdInv base ep ?t"
    using assms(8-11) unfolding fdInv_def listening_def w by auto
  moreover have "clientsInv ?t" by (simp add: clientsInv_def f(1) openFd_def assms(3))
  moreover have "interestInv fds ?t"
    using assms(9) unfolding interestInv_def listening_def clientFds_def w e by (auto split: if_splits)
  ultimately show ?thesis by (simp add: serverInv_def coreInv_def ingressInv_def)
qed

text \<open>The four ways through \<open>run\<close>.\<close>

lemma runServer_cases:
  assumes "runServer su fds waits s = Some (code, s')"
  obtains (nosocket) "code = EXIT_FAILURE" "s' = s"
  | (closed) l where "0 \<le> l" "l \<notin> set (sv_open s)" "code = EXIT_FAILURE"
      "s' = closeFd l ((openFd l s)\<lparr>sv_listenFd := l\<rparr>)"
  | (unregistered) l ep s3 where "0 \<le> l" "l \<notin> set (sv_open s)" "ep \<notin> set (l # sv_open s)" "code = EXIT_FAILURE"
      "registerAll [l, fdSpaceReady fds, fdSignal fds] (openFd ep ((openFd l s)\<lparr>sv_listenFd := l\<rparr>)) = (False, s3)"
      "s' = closeFd l (closeFd ep s3)"
  | (ran) l ep s3 s4 where "0 \<le> l" "l \<notin> set (sv_open s)" "ep \<notin> set (l # sv_open s)"
      "registerAll [l, fdSpaceReady fds, fdSignal fds] (openFd ep ((openFd l s)\<lparr>sv_listenFd := l\<rparr>)) = (True, s3)"
      "serverLoop fds waits (s3\<lparr>sv_state := Running, sv_ingressPaused := False\<rparr>) = Some (code, s4)"
      "s' = shutdownServer ep s4"
proof (cases "su_socket su")
  case (Fail e)
  with assms nosocket show ?thesis by (simp add: runServer_def)
next
  case (Ret l)
  let ?s1 = "(openFd l s)\<lparr>sv_listenFd := l\<rparr>"
  have l: "0 \<le> l" "l \<notin> set (sv_open s)" using Ret assms by (auto simp: runServer_def split: if_splits)
  show ?thesis
  proof (cases "completedCall (su_setsockopt su) \<and> completedCall (su_bind su) \<and> completedCall (su_listen su) \<and>
      completedCall (su_epoll su)")
    case False
    then show ?thesis
      using assms Ret l closed [OF l] by (auto simp: runServer_def completedCall_def split: sysret.splits)
  next
    case True
    then obtain ep where e: "su_epoll su = Ret ep" by (auto simp: completedCall_def split: sysret.splits)
    have ep: "ep \<notin> set (l # sv_open s)" using True assms Ret l e by (auto simp: runServer_def openFd_def split: if_splits)
    obtain b s3 where reg: "registerAll [l, fdSpaceReady fds, fdSignal fds] (openFd ep ?s1) = (b, s3)" by fastforce
    have "(if b then do { (result, s4) \<leftarrow> serverLoop fds waits (s3\<lparr>sv_state := Running, sv_ingressPaused := False\<rparr>);
        Some (result, shutdownServer ep s4) } else Some (EXIT_FAILURE, closeFd l (closeFd ep s3))) = Some (code, s')"
      using True assms Ret l e reg by (cases b) (auto simp: runServer_def Let_def openFd_def split: if_splits)
    with unregistered [OF l ep] ran [OF l ep] reg show ?thesis
      by (cases b) (auto split: Option.bind_split_asm)
  qed
qed

lemma runServer_result:
  assumes "flowInv s" and "belowPause s" and "sv_clients s = []" and "sv_open s = base" and "sv_opened s = []"
    and "sv_closed s = []" and "sv_epoll s = Map.empty" and "distinct base" and "eventsOk waits"
    and "runServer su fds waits s = Some (code, s')"
  shows "serverFinished base code s'"
  using assms(10)
proof (cases rule: runServer_cases)
  case nosocket
  with assms(4-6) flowInvD [OF assms(1)] show ?thesis by (auto simp: serverFinished_def)
next
  case (closed l)
  with assms(4-6) flowInvD [OF assms(1)] show ?thesis by (auto simp: serverFinished_def openFd_def)
next
  case (unregistered l ep s3)
  note f = onlyEpollD [OF conjunct1 [OF registerAll_result [OF unregistered(5)]]]
  have "flowInv s3" using f(8) assms(1) flow_cong(1) [of "openFd ep ((openFd l s)\<lparr>sv_listenFd := l\<rparr>)" s]
    by (simp add: openFd_def)
  from flowInvD [OF this] show ?thesis
    using unregistered f(2-4) assms(4-6) by (auto simp: serverFinished_def openFd_def)
next
  case (ran l ep s3 s4)
  have l: "l \<notin> set base" "ep \<notin> set (l # base)" using ran(2,3) assms(4) by simp_all
  have d: "serverDone fds base ep code s4"
    using serverLoop_result [OF registered_inv [OF assms(1-8) ran(1) l ran(4)] assms(9) ran(5)] .
  then have c: "coreInv base ep s4" by (simp add: serverDone_def)
  note t = shutdownServer_result [OF c assms(8)]
  have "flowInv s4" using c by (simp add: coreInv_def)
  from flowInvD [OF this] show ?thesis
    unfolding serverFinished_def ran(6) t(4-7) using t(1,2) d by (auto simp: serverDone_def)
qed

end
