(* ===== verification/ServerProps.thy ===== *)
theory ServerProps
  imports ServerInv
begin

text \<open>
  What the ingress process guarantees: the frames of a client are published up to the first
  invalid one, its buffer stays small, the invariant holds in every reachable state, a run ends
  with every descriptor closed once, signals are ranked, and a termination signal leads to an
  orderly exit once the reader has taken what is pending.
\<close>

unbundle bit_operations_syntax

section \<open>Reading returns\<close>

text \<open>The loops end as long as each notification is answered; one answer per batch is enough.\<close>

lemma handleBytes_returns:
  assumes "enough (Suc n) P (sv_notify s)"
  shows "\<exists>step pause' s'. handleBytes fd received pause s = Some (step, pause', s') \<and> enough n P (sv_notify s')"
proof -
  have np: "\<exists>ok t. notifyPublished b u = Some (ok, t) \<and> enough n P (sv_notify t)" if "sv_notify u = sv_notify s" for b u
  proof (cases b)
    case True
    from notify.supplied [OF assms] that True show ?thesis by (auto simp: notifyPublished_def notifyData_def)
  next
    case False
    with that assms enough_mono [OF assms, of n] show ?thesis by (auto simp: notifyPublished_def)
  qed
  define b1 where "b1 = (clientBuffer fd s)\<lparr>b_data := b_data (clientBuffer fd s) @ received\<rparr>"
  define s1 where "s1 = setBuffer fd b1 s"
  have n1: "sv_notify s1 = sv_notify s" by (simp add: s1_def)
  obtain v e where sc: "scanFrames (b_data b1) (b_offset b1) (bufferPending b1 div kFrameSize) = (v, e)" by fastforce
  obtain m p s2 where pf: "publishFrames fd v pause s1 = (m, p, s2)" by (metis prod_cases3)
  obtain ok s3 where nt: "notifyPublished (m \<noteq> 0) s2 = Some (ok, s3)" "enough n P (sv_notify s3)"
    using np [of s2 "m \<noteq> 0"] publishFrames_notify [OF pf] n1 by auto
  show ?thesis
  proof (cases "kMaxClientBuffer < bufferPending b1")
    case True
    then show ?thesis
      using enough_mono [OF assms, of n]
      unfolding handleBytes_def Let_def b1_def [symmetric] s1_def [symmetric] by (simp add: n1)
  next
    case False
    then show ?thesis
      using sc pf nt unfolding handleBytes_def Let_def b1_def [symmetric] s1_def [symmetric] by auto
  qed
qed

lemma readLoop_returns:
  "enough (length script) P (sv_notify s) \<Longrightarrow> \<exists>ok pause' s'. readLoop script fd pause s = Some (ok, pause', s')"
proof (induction script arbitrary: pause s)
  case (Cons r script)
  let ?t = "s\<lparr>sv_input := (sv_input s)(fd := script)\<rparr>"
  have e: "enough (Suc (length script)) P (sv_notify ?t)" using Cons.prems by simp
  show ?case
  proof (cases r)
    case (Fail x)
    with Cons.IH [of s pause] enough_mono [OF Cons.prems, of "length script"] show ?thesis by (auto simp: Let_def)
  next
    case (Ret bs)
    obtain step p s1 where h: "handleBytes fd (take kReadBufferSize bs) pause ?t = Some (step, p, s1)"
      "enough (length script) P (sv_notify s1)"
      using handleBytes_returns [OF e] by blast
    with Cons.IH [OF h(2), of p] Ret show ?thesis by (cases step) (auto simp: Let_def)
  qed
qed auto


section \<open>Signals\<close>

definition stopSignal :: "signalRead sysret \<Rightarrow> bool" where
  "stopSignal r \<longleftrightarrow> r = Ret (Whole SIGINT) \<or> r = Ret (Whole SIGTERM)"

definition readerEnded :: "int \<Rightarrow> signalRead sysret \<Rightarrow> bool" where
  "readerEnded pid r \<longleftrightarrow> (\<exists>code \<in> {CLD_EXITED, CLD_KILLED, CLD_DUMPED}. r = Ret (Whole (SIGCHLD pid code)))"

definition signalFailure :: "signalRead sysret \<Rightarrow> bool" where
  "signalFailure r = (case r of Ret (Whole _) \<Rightarrow> False | Ret (Short _) \<Rightarrow> True
     | Fail e \<Rightarrow> e \<notin> {EINTR, EAGAIN, EWOULDBLOCK})"

text \<open>
  The reads of one event: everything up to the first answer that stops the loop, that answer
  included. A record and an interruption are followed by another read.
\<close>

definition readsOn :: "signalRead sysret \<Rightarrow> bool" where
  "readsOn r = (case r of Ret (Whole _) \<Rightarrow> True | Ret (Short _) \<Rightarrow> False | Fail e \<Rightarrow> e = EINTR)"

definition signalBatch :: "signalRead sysret list \<Rightarrow> signalRead sysret list" where
  "signalBatch script = takeWhile readsOn script @ take 1 (dropWhile readsOn script)"

definition afterBatch :: "signalRead sysret list \<Rightarrow> signalRead sysret list" where
  "afterBatch script = drop 1 (dropWhile readsOn script)"

lemma signalBatch_simps:
  "signalBatch [] = []" "afterBatch [] = []"
  "readsOn r \<Longrightarrow> signalBatch (r # script) = r # signalBatch script"
  "readsOn r \<Longrightarrow> afterBatch (r # script) = afterBatch script"
  "\<not> readsOn r \<Longrightarrow> signalBatch (r # script) = [r]" "\<not> readsOn r \<Longrightarrow> afterBatch (r # script) = script"
  by (simp_all add: signalBatch_def afterBatch_def)

lemma signalLoop_result:
  "signalLoop pid script st = (ok, st', rest) \<Longrightarrow> rest = afterBatch script \<and>
     (shutdownRequested st' \<longleftrightarrow> shutdownRequested st \<or> (\<exists>r \<in> set (signalBatch script). stopSignal r)) \<and>
     (readerTerminated st' \<longleftrightarrow> readerTerminated st \<or> (\<exists>r \<in> set (signalBatch script). readerEnded pid r)) \<and>
     (ok \<longleftrightarrow> \<not> (\<exists>r \<in> set (signalBatch script). signalFailure r))"
proof (induction pid script st rule: signalLoop.induct)
  case (2 pid info rest' st)
  let ?r = "Ret (Whole info) :: signalRead sysret"
  define st1 where "st1 = (case info of
          SIGINT \<Rightarrow> st\<lparr>shutdownRequested := True\<rparr> | SIGTERM \<Rightarrow> st\<lparr>shutdownRequested := True\<rparr>
        | SIGCHLD p code \<Rightarrow> if p \<noteq> pid then st else (case code of
              CLD_EXITED \<Rightarrow> st\<lparr>readerTerminated := True\<rparr> | CLD_KILLED \<Rightarrow> st\<lparr>readerTerminated := True\<rparr>
            | CLD_DUMPED \<Rightarrow> st\<lparr>readerTerminated := True\<rparr> | CLD_STOPPED \<Rightarrow> st | CLD_CONTINUED \<Rightarrow> st | CLD_TRAPPED \<Rightarrow> st)
        | SIGOTHER \<Rightarrow> st)"
  have st1: "shutdownRequested st1 \<longleftrightarrow> shutdownRequested st \<or> stopSignal ?r"
    "readerTerminated st1 \<longleftrightarrow> readerTerminated st \<or> readerEnded pid ?r"
    by (auto simp: st1_def stopSignal_def readerEnded_def split: siginfo.splits childCode.splits)
  have "signalLoop pid rest' st1 = (ok, st', rest)" using 2(2) by (simp add: st1_def)
  note ih = 2(1) [folded st1_def, OF this]
  have "readsOn ?r" by (simp add: readsOn_def)
  note b = signalBatch_simps(3,4) [OF this]
  show ?case using ih st1 unfolding b by (auto simp: signalFailure_def)
next
  case (3 pid n rest' st)
  have "\<not> readsOn (Ret (Short n))" by (simp add: readsOn_def)
  note b = signalBatch_simps(5,6) [OF this]
  show ?case using 3 unfolding b by (auto simp: stopSignal_def readerEnded_def signalFailure_def)
next
  case (4 pid e rest' st)
  show ?case
  proof (cases "e = EINTR")
    case True
    then have "readsOn (Fail e)" by (simp add: readsOn_def)
    note b = signalBatch_simps(3,4) [OF this]
    show ?thesis using 4 True unfolding b by (auto simp: stopSignal_def readerEnded_def signalFailure_def)
  next
    case False
    then have "\<not> readsOn (Fail e)" by (simp add: readsOn_def)
    note b = signalBatch_simps(5,6) [OF this]
    show ?thesis using 4(2) False unfolding b
      by (auto simp: stopSignal_def readerEnded_def signalFailure_def split: if_splits)
  qed
qed (simp add: signalBatch_simps)


lemma removeClient_keeps:
  "sv_reader (removeClient fd s) = sv_reader s" "sv_consume (removeClient fd s) = sv_consume s"
  by (simp_all add: removeClient_def closeFd_def removeEpollFd_def epollCtl_def Let_def split: list.split)

lemma removeAllClients_keeps:
  "sv_signals (removeAllClients s) = sv_signals s \<and> sv_reader (removeAllClients s) = sv_reader s \<and>
   sv_consume (removeAllClients s) = sv_consume s \<and> sv_ring (removeAllClients s) = sv_ring s \<and>
   sv_published (removeAllClients s) = sv_published s"
proof (induction s rule: removeAllClients.induct)
  case (1 s)
  show ?case
  proof (cases "sv_clients s")
    case (Cons p rest)
    with 1 show ?thesis by (cases p) (auto simp: removeAllClients.simps [of s] removeClient_keeps)
  qed (simp add: removeAllClients.simps [of s])
qed

lemma beginDraining_keeps:
  "sv_signals (beginDraining s) = sv_signals s" "sv_reader (beginDraining s) = sv_reader s"
  "sv_consume (beginDraining s) = sv_consume s" "sv_ring (beginDraining s) = sv_ring s"
  "sv_published (beginDraining s) = sv_published s"
  by (simp_all add: beginDraining_def removeAllClients_keeps closeFd_def ctl_defs epollCtl_def split: list.split)


section \<open>Draining\<close>

lemma readerActs_script: "sv_reader (readerActs s) = tl (sv_reader s)" "sv_consume (readerActs s) = sv_consume s"
  by (simp_all add: readerActs_def split: list.split prod.split)

lemma readerActs_pops:
  assumes "flowInv s" and "sv_reader s = k # ks"
  shows "ringFrames (sv_ring (readerActs s)) = drop k (ringFrames (sv_ring s))"
proof -
  obtain fs ring where p: "popFrames k (sv_ring s) = (fs, ring)" by fastforce
  from popFrames_spec [OF _ p] assms p show ?thesis by (simp add: readerActs_def flowInv_def)
qed

text \<open>The answers of \<open>epoll_wait\<close> while the server only waits for the reader.\<close>

definition drainWait :: "serverFds \<Rightarrow> (int \<times> u32) list sysret \<Rightarrow> bool" where
  "drainWait fds r \<longleftrightarrow> r = Fail EINTR \<or> r = Ret [(fdSpaceReady fds, EPOLLIN)]"

lemma EPOLLIN_bits: "EPOLLIN AND EPOLLIN \<noteq> 0" "EPOLLIN AND (EPOLLERR OR EPOLLHUP) = 0"
  by (simp_all add: EPOLLIN_def EPOLLERR_def EPOLLHUP_def)

lemma spaceEvent_draining:
  assumes "sv_state s = Draining" and "sv_listenFd s = -1" and "0 \<le> fdSpaceReady fds" and "fdSpaceReady fds \<noteq> fdSignal fds"
    and "enough (Suc n) P (sv_consume s)"
  shows "\<exists>x. handleEvents fds [(fdSpaceReady fds, EPOLLIN)] s = Some (True, s\<lparr>sv_consume := x\<rparr>) \<and> enough n P x"
proof -
  obtain x where "consumeEvent (sv_consume s) = Some (True, x)" "enough n P x"
    using consume.supplied [OF assms(5)] by auto
  then show ?thesis
    using assms(1-4) EPOLLIN_bits by (auto simp: handleEvent_def handleSpaceEvent_def consumeSpace_def)
qed

lemma serverLoop_drains:
  assumes "serverInv fds base ep s" and "sv_state s = Draining" and "0 \<le> fdSpaceReady fds"
    and "fdSpaceReady fds \<noteq> fdSignal fds" and "\<forall>r \<in> set waits. drainWait fds r" and "\<forall>k \<in> set (sv_reader s). 0 < k"
    and "length (ringFrames (sv_ring s)) \<le> length (sv_reader s)" and "length (ringFrames (sv_ring s)) \<le> length waits"
    and "enough (length waits) P (sv_consume s)"
  shows "\<exists>s'. serverLoop fds waits s = Some (EXIT_SUCCESS, s') \<and> sv_published s' = sv_published s \<and>
    sv_delivered s' = sv_published s"
  using assms
proof (induction waits arbitrary: s)
  case Nil
  note r = readerActs_flow [OF serverInv_parts(1) [OF Nil.prems(1)]]
  have "ringFrames (sv_ring (readerActs s)) = []" using r(4) Nil.prems(8) by simp
  then show ?case
    using flowInvD(1) [OF r(1)] r(3) Nil.prems(2)
    by (simp add: drainedExit_def loadEmpty_def Let_def ringEmpty_def pendingFrames_eq)
next
  case (Cons w waits)
  let ?s = "readerActs s"
  note r = readerActs_flow [OF serverInv_parts(1) [OF Cons.prems(1)]]
  have i: "serverInv fds base ep ?s" by (rule readerActs_serverInv [OF Cons.prems(1)])
  have st: "sv_state ?s = Draining" using sameWorldD(4) [OF r(2)] Cons.prems(2) by simp
  have d: "drainedExit s = (ringFrames (sv_ring ?s) = [], ?s)"
    using Cons.prems(2) by (simp add: drainedExit_def loadEmpty_def Let_def ringEmpty_def pendingFrames_eq)
  show ?case
  proof (cases "ringFrames (sv_ring ?s) = []")
    case True
    then show ?thesis using d flowInvD(1) [OF r(1)] r(3) by simp
  next
    case False
    then have ne: "ringFrames (sv_ring s) \<noteq> []" using r(4) by auto
    then obtain k ks where k: "sv_reader s = k # ks" using Cons.prems(7) by (cases "sv_reader s") auto
    have "length (ringFrames (sv_ring ?s)) = length (ringFrames (sv_ring s)) - k" "0 < k"
      using readerActs_pops [OF serverInv_parts(1) [OF Cons.prems(1)] k] Cons.prems(6) k by simp_all
    with ne have len: "length (ringFrames (sv_ring ?s)) \<le> length ks" "length (ringFrames (sv_ring ?s)) \<le> length waits"
      using Cons.prems(7,8) k by (auto simp: neq_Nil_conv)
    have ih: "\<exists>s'. serverLoop fds waits (?s\<lparr>sv_consume := x\<rparr>) = Some (EXIT_SUCCESS, s') \<and>
        sv_published s' = sv_published s \<and> sv_delivered s' = sv_published s" if "enough (length waits) P x" for x
      using Cons.IH [of "?s\<lparr>sv_consume := x\<rparr>"] i st Cons.prems(3-6) len that r(3) k readerActs_script(1) [of s] by simp
    have c: "enough (Suc (length waits)) P (sv_consume ?s)" using Cons.prems(9) by (simp add: readerActs_script)
    have "sv_listenFd ?s = -1" using serverInv_parts(4) [OF i] st by (simp add: interestInv_def)
    from spaceEvent_draining [OF st this Cons.prems(3,4) c] obtain x where
      x: "handleEvents fds [(fdSpaceReady fds, EPOLLIN)] ?s = Some (True, ?s\<lparr>sv_consume := x\<rparr>)" "enough (length waits) P x" by blast
    have same: "?s\<lparr>sv_consume := sv_consume ?s\<rparr> = ?s" by simp
    have "drainWait fds w" using Cons.prems(5) by simp
    then show ?thesis
      using ih [OF x(2)] ih [OF enough_mono [OF c]] d False x(1) unfolding drainWait_def same
      by (auto simp: kMaxEvents_def)
  qed
qed


section \<open>Reachable states\<close>

text \<open>
  The states at the top of the loop: one iteration is the test for the end of draining followed by
  the events of one \<open>epoll_wait\<close>.
\<close>

inductive serverReach :: "serverFds \<Rightarrow> server \<Rightarrow> server \<Rightarrow> bool" for fds start where
  initial: "serverReach fds start start"
| iterate: "serverReach fds start s2"
    if "serverReach fds start s" and "drainedExit s = (False, s1)" and "\<forall>(fd, m) \<in> set evs. 0 \<le> fd"
      and "handleEvents fds (take kMaxEvents evs) s1 = Some (True, s2)"

lemma serverReach_inv:
  "serverReach fds start s \<Longrightarrow> serverInv fds base ep start \<Longrightarrow> serverInv fds base ep s"
proof (induction rule: serverReach.induct)
  case (iterate s s1 evs s2)
  have "\<forall>(fd, m) \<in> set (take kMaxEvents evs). 0 \<le> fd" using iterate(3) by (meson in_set_takeD)
  from handleEvents_handled [OF drainedExit_inv(1) [OF iterate(5) [OF iterate(6)] iterate(2)] this iterate(4)]
  show ?case by (simp add: eventHandled_def)
qed

text \<open>A server whose three descriptors are registered, on a ring that is empty.\<close>

lemma newServer_inv:
  assumes "ringInv ring" and "\<not> producerClosed ring" and "ringFrames ring = []"
  shows "flowInv (newServer ring base input accepts signals ctl notify consume reader)"
    and "belowPause (newServer ring base input accepts signals ctl notify consume reader)"
  using assms ringHistory_history [OF assms(1)]
  by (simp_all add: flowInv_def belowPause_def newServer_def kPauseIngressBytes_def)

definition startServer :: "serverFds \<Rightarrow> int \<Rightarrow> int \<Rightarrow> server \<Rightarrow> server option" where
  "startServer fds l ep s =
     (case registerAll [l, fdSpaceReady fds, fdSignal fds] (openFd ep ((openFd l s)\<lparr>sv_listenFd := l\<rparr>)) of
        (True, s3) \<Rightarrow> Some (s3\<lparr>sv_state := Running, sv_ingressPaused := False\<rparr>)
      | (False, _) \<Rightarrow> None)"

lemma startServer_inv:
  assumes "ringInv ring" and "\<not> producerClosed ring" and "ringFrames ring = []" and "distinct base" and "0 \<le> l"
    and "l \<notin> set base" and "ep \<notin> set (l # base)"
    and s_def: "s = newServer ring base input accepts signals ctl notify consume reader"
    and "startServer fds l ep s = Some start"
  shows "serverInv fds base ep start"
proof -
  obtain s3 where r: "registerAll [l, fdSpaceReady fds, fdSignal fds] (openFd ep ((openFd l s)\<lparr>sv_listenFd := l\<rparr>)) = (True, s3)"
    and start: "start = s3\<lparr>sv_state := Running, sv_ingressPaused := False\<rparr>"
    using assms(9) by (auto simp: startServer_def split: prod.splits bool.splits)
  have "sv_clients s = []" "sv_open s = base" "sv_opened s = []" "sv_closed s = []" "sv_epoll s = Map.empty"
    by (simp_all add: s_def newServer_def)
  moreover have "flowInv s" "belowPause s" unfolding s_def by (rule newServer_inv [OF assms(1-3)])+
  ultimately show ?thesis unfolding start using registered_inv assms(4-7) r by simp
qed

text \<open>
  The states in which \<open>readClient\<close> calls \<open>recv\<close> for the client \<open>fd\<close>: the first call comes in a
  state of the loop, the next after a batch that was handled without a reason to stop. What the
  sockets deliver later is open.
\<close>

inductive readReach :: "serverFds \<Rightarrow> server \<Rightarrow> int \<Rightarrow> server \<Rightarrow> bool" for fds start fd where
  first: "readReach fds start fd s"
    if "serverReach fds start s" and "\<not> sv_ingressPaused s" and "fd \<in> clientFds s"
| delivery: "readReach fds start fd (s\<lparr>sv_input := i\<rparr>)" if "readReach fds start fd s"
| again: "readReach fds start fd s'"
    if "readReach fds start fd s" and "length received \<le> kReadBufferSize"
      and "handleBytes fd received False s = Some (Again, pause, s')"

lemma readReach_inv:
  assumes "readReach fds start fd s" and "serverInv fds base ep start"
  shows "flowInv s \<and> belowPause s \<and> clientsInv s \<and> fd \<in> clientFds s"
  using assms
proof (induction rule: readReach.induct)
  case (first s)
  then show ?case
    using serverInv_parts(1,3,5) [OF serverReach_inv [OF first(1,4)]] by simp
next
  case (delivery s i)
  then show ?case by (simp add: clientsInv_def clientFds_def)
next
  case (again s received pause s')
  then have i: "flowInv s" "belowPause s" "clientsInv s" "fd \<in> fst ` set (sv_clients s)" by (simp_all add: clientFds_def)
  from handleBytes_result [OF i again(2,3)] have h: "flowInv s'" "pause \<or> belowPause s'"
    "\<not> pause" "\<exists>b. bufferOk b \<and> sv_clients s' = AList.update fd b (sv_clients s)"
    unfolding batchHandled_def by (auto split: if_splits)
  then obtain b where "bufferOk b" "sv_clients s' = AList.update fd b (sv_clients s)" by blast
  with clientsInv_update [OF i(3)] h(1-3) show ?case by (simp add: clientFds_def dom_update)
qed

lemma bufferOk_bounds:
  assumes "bufferOk b" and "length received \<le> kReadBufferSize"
  shows "bufferPending (b\<lparr>b_data := b_data b @ received\<rparr>) \<le> 4127"
    and "length (b_data b) < compactThreshold + kFrameSize"
proof -
  have "unread (b\<lparr>b_data := b_data b @ received\<rparr>) = unread b @ received"
    using assms(1) unread_append by (simp add: bufferOk_def)
  then show "bufferPending (b\<lparr>b_data := b_data b @ received\<rparr>) \<le> 4127"
    using assms by (simp add: bufferOk_def server_consts kFrameSize_def)
  have "length (b_data b) = b_offset b + length (unread b)"
    using assms(1) by (simp add: bufferOk_def bufferInv_def unread_def)
  then show "length (b_data b) < compactThreshold + kFrameSize"
    using assms(1) by (simp add: bufferOk_def)
qed


section \<open>Properties\<close>

text \<open>C9: a call of \<open>readClient\<close> publishes exactly the valid prefix of the client's stream, which is
  what was left of it before followed by what \<open>recv\<close> delivered. A client that stays has sent only
  valid frames and keeps the bytes of the incomplete last frame; a client is dropped only after an
  invalid frame, the end of the stream or a socket error; the call fails only when the
  notification of the reader fails, never because the ring is full.\<close>

theorem readClient_publishes:
  assumes "serverInv fds base ep s" and "\<not> sv_ingressPaused s" and "fd \<in> clientFds s"
    and "readClient fd s = Some (ok, pause, s')"
  shows "\<exists>used. sv_input s fd = used @ sv_input s' fd \<and>
    (let stream = unread (clientBuffer fd s) @ receivedBytes used in
       sv_published s' = sv_published s @ validPrefix stream \<and>
       (ok \<and> fd \<in> clientFds s' \<longrightarrow> allValid stream \<and> unread (clientBuffer fd s') = remainder stream \<and>
          length (remainder stream) < kFrameSize) \<and>
       (ok \<and> fd \<notin> clientFds s' \<longrightarrow> \<not> allValid stream \<or> (\<exists>r \<in> set used. disconnects r)) \<and>
       (\<not> ok \<longrightarrow> notifyFails s))"
proof -
  obtain used where u: "sv_input s fd = used @ sv_input s' fd"
    "clientRead fd (unread (clientBuffer fd s) @ receivedBytes used) (\<exists>r \<in> set used. disconnects r) s ok pause s'"
    using readClient_clientRead [OF assms] by blast
  let ?st = "unread (clientBuffer fd s) @ receivedBytes used"
  have p: "sv_published s' = sv_published s @ validPrefix ?st" using u(2) by (simp add: clientRead_def)
  consider (failed) "\<not> ok" "notifyFails s"
    | (kept) b where ok "sameWorld s s'" "allValid ?st" "unread b = remainder ?st" "sv_clients s' = AList.update fd b (sv_clients s)"
    | (gone) t where ok "\<exists>r \<in> set used. disconnects r" "s' = removeClient fd t"
    | (invalid) t where ok "\<not> allValid ?st" "s' = removeClient fd t"
    using u(2) unfolding clientRead_def by (cases ok) (simp_all, blast)
  then have "(ok \<and> fd \<in> clientFds s' \<longrightarrow> allValid ?st \<and> unread (clientBuffer fd s') = remainder ?st \<and>
        length (remainder ?st) < kFrameSize) \<and>
      (ok \<and> fd \<notin> clientFds s' \<longrightarrow> \<not> allValid ?st \<or> (\<exists>r \<in> set used. disconnects r)) \<and> (\<not> ok \<longrightarrow> notifyFails s)"
  proof cases
    case kept
    then have "clientFds s' = clientFds s" "clientBuffer fd s' = b"
      using sameWorldD(1) by (simp_all add: clientBuffer_def update_conv')
    with kept assms(3) remainder_short show ?thesis by simp
  qed (simp_all add: clientFds_def delete_dom)
  with u(1) p show ?thesis by (intro exI [of _ used]) (simp add: Let_def)
qed

text \<open>C14: the memory of a client is bounded, and the limit of 64 KiB is never what drops it. Whenever
  \<open>readClient\<close> calls \<open>recv\<close> in a run of the event loop, the buffer of the client holds less than
  4128 bytes, and whatever the up to 4096 bytes received are, at most 4127 bytes are pending once
  they are appended. Handling them publishes exactly the valid prefix of the pending bytes, so
  the ring has room for it; drops the client exactly when one of the complete frames is invalid
  (unless the notification of the reader fails, which ends the server); and leaves less than a
  frame pending, in a buffer of less than 4128 bytes again.\<close>

theorem readClient_bounds:
  assumes "ringInv ring" and "\<not> producerClosed ring" and "ringFrames ring = []" and "distinct base" and "0 \<le> l"
    and "l \<notin> set base" and "ep \<notin> set (l # base)"
    and "startServer fds l ep (newServer ring base input accepts signals ctl notify consume reader) = Some start"
    and "readReach fds start fd s" and "length received \<le> kReadBufferSize"
    and "handleBytes fd received False s = Some (step, pause, s')"
  shows "length (b_data (clientBuffer fd s)) < 4128 \<and>
    bufferPending ((clientBuffer fd s)\<lparr>b_data := b_data (clientBuffer fd s) @ received\<rparr>) \<le> 4127 \<and>
    4127 < kMaxClientBuffer \<and>
    (let stream = unread (clientBuffer fd s) @ received in
       sv_published s' = sv_published s @ validPrefix stream \<and>
       length (ringFrames (sv_ring s')) \<le> capacityFrames \<and>
       (step = Return False \<longrightarrow> notifyFails s) \<and>
       (step \<noteq> Return False \<longrightarrow> (fd \<in> clientFds s' \<longleftrightarrow> allValid stream)) \<and>
       (step \<noteq> Return False \<and> fd \<in> clientFds s' \<longrightarrow> unread (clientBuffer fd s') = remainder stream \<and>
          length (remainder stream) < kFrameSize \<and> length (b_data (clientBuffer fd s')) < 4128))"
proof -
  have i: "flowInv s" "belowPause s" "clientsInv s" "fd \<in> fst ` set (sv_clients s)"
    using readReach_inv [OF assms(9) startServer_inv [OF assms(1-7) refl assms(8)]] by (simp_all add: clientFds_def)
  let ?st = "unread (clientBuffer fd s) @ received"
  have ok: "bufferOk (clientBuffer fd s)" using i(3) clientBuffer_map_of [OF i(4)] by (simp add: clientsInv_def)
  have c: "compactThreshold + kFrameSize = 4128" by (simp add: compactThreshold_def kFrameSize_def)
  note bounds = bufferOk_bounds [OF ok assms(10), unfolded c]
  note h = handleBytes_result [OF i assms(10,11), unfolded batchHandled_def]
  have ring: "length (ringFrames (sv_ring s')) \<le> capacityFrames"
    using h ringInv_bounded by (auto simp: flowInv_def)
  have pub: "sv_published s' = sv_published s @ validPrefix ?st" using h by blast
  consider (failed) "step = Return False" "notifyFails s"
    | (kept) b where "step \<noteq> Return False" "allValid ?st" "bufferOk b" "unread b = remainder ?st"
        "sv_clients s' = AList.update fd b (sv_clients s)"
    | (gone) t where "step \<noteq> Return False" "\<not> allValid ?st" "s' = removeClient fd t"
    using h by (cases step; cases "allValid ?st") (auto split: bool.splits)
  then have "(step = Return False \<longrightarrow> notifyFails s) \<and> (step \<noteq> Return False \<longrightarrow> (fd \<in> clientFds s' \<longleftrightarrow> allValid ?st)) \<and>
      (step \<noteq> Return False \<and> fd \<in> clientFds s' \<longrightarrow> unread (clientBuffer fd s') = remainder ?st \<and>
          length (remainder ?st) < kFrameSize \<and> length (b_data (clientBuffer fd s')) < 4128)"
  proof cases
    case kept
    then have "fd \<in> clientFds s'" "clientBuffer fd s' = b"
      by (simp_all add: clientFds_def clientBuffer_def update_conv' dom_update)
    with kept remainder_short bufferOk_bounds(2) [OF kept(3), of "[]", unfolded c] show ?thesis by simp
  qed (simp_all add: clientFds_def delete_dom)
  with bounds pub ring show ?thesis by (simp add: Let_def server_consts)
qed

text \<open>C11: once the three descriptors are registered, whatever the kernel answers, failing
  \<open>epoll_ctl\<close> calls included: in every state from which the event loop goes on, ingress is paused or the ring is below its
  threshold; every client is registered exactly while ingress is not paused; a running server
  listens, a draining one has neither a listening socket nor clients; the open descriptors are
  those from before, the epoll descriptor, the clients and the listening socket, and every other
  descriptor that was opened, such as one that could not be registered, was closed once; each client
  holds less than a frame; and the published frames are valid and are those delivered followed by
  those in the ring.\<close>

theorem server_reachable:
  assumes "ringInv ring" and "\<not> producerClosed ring" and "ringFrames ring = []" and "distinct base" and "0 \<le> l"
    and "l \<notin> set base" and "ep \<notin> set (l # base)"
    and "startServer fds l ep (newServer ring base input accepts signals ctl notify consume reader) = Some start"
    and "serverReach fds start s"
  shows "(sv_ingressPaused s \<or> length (ringFrames (sv_ring s)) * kFrameSize < kPauseIngressBytes) \<and>
    (\<forall>fd \<in> clientFds s. sv_epoll s fd = (if sv_ingressPaused s then None else Some clientMask)) \<and>
    (sv_state s = Running \<longleftrightarrow> sv_listenFd s \<noteq> -1) \<and> (sv_state s = Draining \<longrightarrow> sv_clients s = []) \<and>
    set (sv_open s) = insert ep (set base) \<union> clientFds s \<union> listening s \<and>
    mset (sv_open s) + mset (sv_closed s) = mset base + mset (sv_opened s) \<and>
    (\<forall>fd \<in> clientFds s. length (unread (clientBuffer fd s)) < kFrameSize) \<and>
    list_all validFrame (sv_published s) \<and> sv_published s = sv_delivered s @ ringFrames (sv_ring s)"
proof -
  have i: "serverInv fds base ep s"
    by (rule serverReach_inv [OF assms(9) startServer_inv [OF assms(1-7) refl assms(8)]])
  note p = serverInv_parts [OF i]
  have c: "length (unread (clientBuffer fd s)) < kFrameSize" if "fd \<in> clientFds s" for fd
    using p(3) clientBuffer_map_of [of fd s] that by (auto simp: clientsInv_def clientFds_def bufferOk_def)
  have st: "sv_state s = Running \<longleftrightarrow> sv_listenFd s \<noteq> -1" "sv_state s = Draining \<longrightarrow> sv_clients s = []"
    using p(4) by (auto simp: interestInv_def clientFds_def split: serverState.splits)
  have e: "\<forall>fd \<in> clientFds s. sv_epoll s fd = (if sv_ingressPaused s then None else Some clientMask)"
    using p(4) by (simp add: interestInv_def)
  have f: "set (sv_open s) = insert ep (set base) \<union> clientFds s \<union> listening s"
    "mset (sv_open s) + mset (sv_closed s) = mset base + mset (sv_opened s)"
    using p(2) by (simp_all add: fdInv_def clientFds_def)
  show ?thesis using p(5) c st e f flowInvD [OF p(1)] by (simp add: belowPause_def)
qed

text \<open>C10: whatever the kernel, the clients and the reader do, a run of the server that returns has
  closed every descriptor it opened exactly once and no other; all frames it published are valid
  and are those delivered followed by those in the ring; and it returns with success only when
  every published frame was taken by the reader.\<close>

theorem runServer_finished:
  assumes "ringInv ring" and "\<not> producerClosed ring" and "ringFrames ring = []" and "distinct base" and "eventsOk waits"
    and "runServer su fds waits (newServer ring base input accepts signals ctl notify consume reader) = Some (code, s')"
  shows "mset (sv_closed s') = mset (sv_opened s') \<and> mset (sv_open s') = mset base \<and>
    list_all validFrame (sv_published s') \<and> sv_published s' = sv_delivered s' @ ringFrames (sv_ring s') \<and>
    (code = EXIT_SUCCESS \<longrightarrow> sv_delivered s' = sv_published s' \<and> ringFrames (sv_ring s') = [])"
proof -
  have "serverFinished base code s'"
    by (rule runServer_result [OF newServer_inv [OF assms(1-3)] _ _ _ _ _ assms(4-6)]) (simp_all add: newServer_def)
  then show ?thesis unfolding serverFinished_def by blast
qed

text \<open>C13: a signal event reads the descriptor until it is empty: every answer up to and including
  the first that is neither a whole record nor an interruption, and no answer more. The event is
  handled with success exactly when none of these reads failed or came up short, the reader
  process did not terminate and the descriptor reported no error. The end of the reader and a
  failed read outrank a request to shut down that is in the same batch, before or after them: the
  server does not start to drain. Otherwise \<open>SIGINT\<close> or \<open>SIGTERM\<close> anywhere in the batch leaves a
  draining server without clients and listening socket, and any other signal changes nothing. An
  event without \<open>EPOLLIN\<close> reads nothing.\<close>

theorem handleSignalEvent_outcome:
  assumes "serverInv fds base ep s" and "handleSignalEvent events pid s = (ok, s')"
  defines "used \<equiv> if events AND EPOLLIN \<noteq> 0 then signalBatch (sv_signals s) else []"
  shows "sv_signals s' = (if events AND EPOLLIN \<noteq> 0 then afterBatch (sv_signals s) else sv_signals s) \<and>
    (ok \<longleftrightarrow> \<not> (\<exists>r \<in> set used. signalFailure r \<or> readerEnded pid r) \<and> events AND (EPOLLERR OR EPOLLHUP) = 0) \<and>
    ((\<exists>r \<in> set used. signalFailure r \<or> readerEnded pid r) \<longrightarrow> s' = s\<lparr>sv_signals := sv_signals s'\<rparr>) \<and>
    (\<not> (\<exists>r \<in> set used. signalFailure r \<or> readerEnded pid r) \<and> (\<exists>r \<in> set used. stopSignal r) \<longrightarrow>
       sv_state s' = Draining \<and> sv_clients s' = [] \<and> sv_listenFd s' = -1) \<and>
    (\<not> (\<exists>r \<in> set used. stopSignal r) \<longrightarrow> s' = s\<lparr>sv_signals := sv_signals s'\<rparr>)"
proof (cases "events AND EPOLLIN \<noteq> 0")
  case False
  then have "used = []" "ok \<longleftrightarrow> events AND (EPOLLERR OR EPOLLHUP) = 0" "s' = s"
    using assms(2) by (simp_all add: used_def handleSignalEvent_def)
  then show ?thesis using False by simp
next
  case True
  obtain good st rest where lp: "signalLoop pid (sv_signals s) \<lparr>shutdownRequested = False, readerTerminated = False\<rparr> = (good, st, rest)"
    by (metis prod_cases3)
  have used: "used = signalBatch (sv_signals s)" using True by (simp add: used_def)
  from signalLoop_result [OF lp] have u: "rest = afterBatch (sv_signals s)"
    "shutdownRequested st \<longleftrightarrow> (\<exists>r \<in> set used. stopSignal r)" "readerTerminated st \<longleftrightarrow> (\<exists>r \<in> set used. readerEnded pid r)"
    "good \<longleftrightarrow> \<not> (\<exists>r \<in> set used. signalFailure r)" unfolding used by simp_all
  let ?s = "s\<lparr>sv_signals := rest\<rparr>"
  let ?d = "beginDraining (?s\<lparr>sv_state := Draining\<rparr>)"
  let ?clean = "good \<and> \<not> readerTerminated st"
  have i: "serverInv fds base ep ?s" using assms(1) by simp
  have "handleSignalEvent events pid s = (?clean \<and> events AND (EPOLLERR OR EPOLLHUP) = 0,
      if ?clean \<and> shutdownRequested st \<and> sv_state s = Running then ?d else ?s)"
    using True lp by (simp add: handleSignalEvent_def handleSignalFd_def)
  with assms(2) have ok: "ok \<longleftrightarrow> ?clean \<and> events AND (EPOLLERR OR EPOLLHUP) = 0"
    and s': "s' = (if ?clean \<and> shutdownRequested st \<and> sv_state s = Running then ?d else ?s)" by simp_all
  have clean: "?clean \<longleftrightarrow> \<not> (\<exists>r \<in> set used. signalFailure r \<or> readerEnded pid r)" using u(3,4) by blast
  have sig: "sv_signals s' = rest" by (simp add: s' beginDraining_keeps)
  have dr: "sv_state ?d = Draining \<and> sv_clients ?d = [] \<and> sv_listenFd ?d = -1" if "sv_state s = Running"
    using beginDraining_inv [OF i] serverInv_parts(4) that by (fastforce simp: interestInv_def clientFds_def)
  have idle: "sv_state s = Draining \<and> sv_clients s = [] \<and> sv_listenFd s = -1" if "sv_state s \<noteq> Running"
    using serverInv_parts(4) [OF assms(1)] that by (cases "sv_state s") (simp_all add: interestInv_def clientFds_def)
  have drained: "?clean \<and> shutdownRequested st \<longrightarrow> sv_state s' = Draining \<and> sv_clients s' = [] \<and> sv_listenFd s' = -1"
    using dr idle by (cases "sv_state s = Running") (simp_all add: s')
  have quiet: "\<not> (?clean \<and> shutdownRequested st) \<longrightarrow> s' = s\<lparr>sv_signals := sv_signals s'\<rparr>"
    unfolding sig by (auto simp: s')
  have signals: "sv_signals s' = (if events AND EPOLLIN \<noteq> 0 then afterBatch (sv_signals s) else sv_signals s)"
    using True sig u(1) by simp
  show ?thesis by (intro conjI signals) (insert ok drained quiet clean u(2), blast+)
qed

text \<open>C12: a termination signal leads to an orderly exit: a running server that reads \<open>SIGTERM\<close> stops
  listening, drops its clients and keeps waiting, through interruptions and space notifications,
  until the reader has taken every published frame; then it returns with success. It is enough
  that the reader takes at least one frame between two waits.\<close>

theorem sigterm_drains:
  assumes "serverInv fds base ep s" and "sv_state s = Running" and "sv_signals s = [Ret (Whole SIGTERM)]"
    and "0 \<le> fdSpaceReady fds" and "fdSpaceReady fds \<noteq> fdSignal fds"
    and "\<forall>r \<in> set waits. drainWait fds r" and "\<forall>k \<in> set (sv_reader s). 0 < k"
    and "length (ringFrames (sv_ring s)) \<le> length (sv_reader s)" and "length (ringFrames (sv_ring s)) \<le> length waits"
    and "enough (length waits) P (sv_consume s)"
  shows "\<exists>s'. serverLoop fds (Ret [(fdSignal fds, EPOLLIN)] # waits) s = Some (EXIT_SUCCESS, s') \<and>
    sv_published s' = sv_published s \<and> sv_delivered s' = sv_published s"
proof -
  let ?s = "s\<lparr>sv_signals := []\<rparr>"
  let ?d = "beginDraining (?s\<lparr>sv_state := Draining\<rparr>)"
  have i: "serverInv fds base ep ?s" "sv_state ?s = Running" using assms(1,2) by simp_all
  note d = beginDraining_inv [OF i]
  have h: "handleEvents fds [(fdSignal fds, EPOLLIN)] s = Some (True, ?d)"
    using assms(2,3) EPOLLIN_bits by (simp add: handleSignalEvent_def handleSignalFd_def)
  have "sv_ring ?d = sv_ring s" "sv_reader ?d = sv_reader s" "sv_consume ?d = sv_consume s" "sv_published ?d = sv_published s"
    using beginDraining_keeps [of "?s\<lparr>sv_state := Draining\<rparr>"] by simp_all
  with serverLoop_drains [OF d assms(4-6), of P] assms(7-10) h assms(2) show ?thesis
    by (simp add: drainedExit_def kMaxEvents_def)
qed


section \<open>Concrete runs\<close>

definition demoFds :: serverFds where
  "demoFds = \<lparr>fdSpaceReady = 4, fdSignal = 5, pidReader = 77\<rparr>"

text \<open>
  A server that has \<open>SIGTERM\<close> pending, and the same one after it accepted two clients: the first
  could not be registered and was closed, the second sends a frame.
\<close>

definition demoNew :: server where
  "demoNew = newServer emptyRing [3, 4, 5] (\<lambda>fd. if fd = 8 then [Ret (encode emptyRecord)] else []) [Ret 9, Ret 8]
     [Ret (Whole SIGTERM)] [True, True, True, False] [Ret ()] [Ret 1, Ret 1] [1, 1]"

definition demoServer :: server where
  "demoServer = the (startServer demoFds 6 7 demoNew)"

definition demoClient :: server where
  "demoClient = snd (the (acceptClients demoServer))"

lemma demo_empty: "ringInv emptyRing" "\<not> producerClosed emptyRing" "ringFrames emptyRing = []"
  using emptyRing_facts by simp_all

lemma demo_starts: "startServer demoFds 6 7 demoNew = Some demoServer"
  by (simp add: demoServer_def startServer_def demoNew_def newServer_def demoFds_def openFd_def ctl_defs epollCtl_def)

lemma demoServer_inv: "serverInv demoFds [3, 4, 5] 7 demoServer"
  by (rule startServer_inv [OF demo_empty _ _ _ _ demoNew_def demo_starts]) simp_all

lemma demoServer_fields:
  "sv_state demoServer = Running" "sv_ingressPaused demoServer = False" "sv_accept demoServer = [Ret 9, Ret 8]" "sv_ctl demoServer = [False]"
  "sv_signals demoServer = [Ret (Whole SIGTERM)]" "sv_consume demoServer = [Ret 1, Ret 1]" "sv_reader demoServer = [1, 1]"
  "sv_open demoServer = [7, 6, 3, 4, 5]" "sv_clients demoServer = []" "sv_ring demoServer = emptyRing"
  "sv_notify demoServer = [Ret ()]" "sv_input demoServer 8 = [Ret (encode emptyRecord)]" "sv_published demoServer = []"
  "sv_listenFd demoServer = 6" "sv_closed demoServer = []"
  by (simp_all add: demoServer_def startServer_def demoNew_def newServer_def demoFds_def openFd_def ctl_defs epollCtl_def demo_empty)

lemma demo_accepts: "acceptClients demoServer = Some (True, demoClient)"
  by (simp add: demoClient_def acceptClients_def demoServer_fields openFd_def closeFd_def ctl_defs epollCtl_def Let_def)

lemma demoClient_inv: "serverInv demoFds [3, 4, 5] 7 demoClient"
  using acceptLoop_inv [OF demoServer_inv demoServer_fields(1) _ demo_accepts [unfolded acceptClients_def]]
  by (simp add: demoServer_fields)

lemma demoClient_fields:
  "sv_ingressPaused demoClient = False" "sv_clients demoClient = [(8, emptyBuffer)]"
  "sv_notify demoClient = [Ret ()]" "sv_input demoClient 8 = [Ret (encode emptyRecord)]" "sv_published demoClient = []"
  "sv_closed demoClient = [9]" "sv_listenFd demoClient = 6"
  by (simp_all add: demoClient_def acceptClients_def demoServer_fields openFd_def closeFd_def ctl_defs epollCtl_def Let_def)

lemma demoClient_reached: "serverReach demoFds demoServer demoClient"
proof (rule serverReach.iterate [OF serverReach.initial])
  show "drainedExit demoServer = (False, demoServer)" by (simp add: drainedExit_def demoServer_fields)
  show "\<forall>(fd, m) \<in> set [(6 :: int, EPOLLIN)]. 0 \<le> fd" by simp
  show "handleEvents demoFds (take kMaxEvents [(6, EPOLLIN)]) demoServer = Some (True, demoClient)"
    using EPOLLIN_bits
    by (simp add: kMaxEvents_def demoFds_def handleEvent_def handleListenEvent_def demoServer_fields demo_accepts)
qed

theorem readClient_publishes_witness:
  "\<exists>ok pause s' used. readClient 8 demoClient = Some (ok, pause, s') \<and>
     [Ret (encode emptyRecord)] = used @ sv_input s' 8 \<and> sv_published s' = validPrefix (receivedBytes used)"
proof -
  have "enough (length (sv_input demoClient 8)) (\<lambda>_. True) (sv_notify demoClient)"
    by (simp add: demoClient_fields)
  moreover have "map_of (sv_clients demoClient) 8 \<noteq> None" by (simp add: demoClient_fields)
  ultimately obtain ok pause s' where r: "readClient 8 demoClient = Some (ok, pause, s')"
    using readLoop_returns [of "sv_input demoClient 8" "\<lambda>_. True" demoClient 8 False]
    unfolding readClient_def by auto
  have "\<not> sv_ingressPaused demoClient" "8 \<in> clientFds demoClient" by (simp_all add: demoClient_fields clientFds_def)
  from readClient_publishes [OF demoClient_inv this r] r show ?thesis
    by (auto simp: demoClient_fields Let_def clientBuffer_def)
qed

theorem readClient_bounds_witness:
  "\<exists>step pause s'. handleBytes 8 (encode emptyRecord) False demoClient = Some (step, pause, s') \<and>
     sv_published s' = [encode emptyRecord] \<and> length (ringFrames (sv_ring s')) \<le> capacityFrames"
proof -
  have r: "readReach demoFds demoServer 8 demoClient"
    by (rule readReach.first [OF demoClient_reached]) (simp_all add: demoClient_fields clientFds_def)
  have l: "length (encode emptyRecord) \<le> kReadBufferSize" by (simp add: kReadBufferSize_def kFrameSize_def)
  have "enough (Suc 0) (\<lambda>_. True) (sv_notify demoClient)" by (simp add: demoClient_fields)
  from handleBytes_returns [OF this] obtain step pause s' where
    h: "handleBytes 8 (encode emptyRecord) False demoClient = Some (step, pause, s')" by blast
  have "validPrefix (encode emptyRecord) = [encode emptyRecord]"
    by (simp add: validPrefix_step encode_eq_wire_layout decode_wire_layout dr_ok_def)
  with readClient_bounds [OF demo_empty _ _ _ _ demo_starts [unfolded demoNew_def] r l h] h show ?thesis
    by (auto simp: demoClient_fields Let_def clientBuffer_def)
qed

theorem server_reachable_witness:
  "clientFds demoClient = {8} \<and> set (sv_open demoClient) = {7, 3, 4, 5, 8, 6} \<and> sv_closed demoClient = [9] \<and>
   sv_epoll demoClient 8 = Some clientMask"
  using server_reachable [OF demo_empty _ _ _ _ demo_starts [unfolded demoNew_def] demoClient_reached]
  by (auto simp: demoClient_fields clientFds_def listening_def)

theorem runServer_finished_witness:
  "\<exists>s'. runServer \<lparr>su_socket = Ret 6, su_setsockopt = Ret (), su_bind = Ret (), su_listen = Ret (), su_epoll = Ret 7\<rparr>
      demoFds [Fail EINTR, Fail (EOTHER 5)] demoNew = Some (EXIT_FAILURE, s') \<and> mset (sv_closed s') = mset (sv_opened s')"
proof -
  let ?su = "\<lparr>su_socket = Ret 6, su_setsockopt = Ret (), su_bind = Ret (), su_listen = Ret (), su_epoll = Ret 7\<rparr>"
  have r: "runServer ?su demoFds [Fail EINTR, Fail (EOTHER 5)] demoNew = Some (EXIT_FAILURE, shutdownServer 7 demoServer)"
    by (simp add: runServer_def demoServer_def startServer_def demoNew_def newServer_def completedCall_def openFd_def
        ctl_defs epollCtl_def Let_def drainedExit_def)
  have "distinct [3, 4, 5 :: int]" "eventsOk [Fail EINTR, Fail (EOTHER 5)]" by (simp_all add: eventsOk_def)
  from runServer_finished [OF demo_empty this r [unfolded demoNew_def]] r show ?thesis by blast
qed

theorem handleSignalEvent_outcome_witness:
  "\<exists>s'. handleSignalEvent EPOLLIN 77 demoClient = (True, s') \<and> sv_signals s' = [] \<and> sv_state s' = Draining \<and>
     sv_clients s' = []"
proof -
  obtain ok s' where h: "handleSignalEvent EPOLLIN 77 demoClient = (ok, s')" by fastforce
  have u: "sv_signals demoClient = [Ret (Whole SIGTERM)]"
    by (simp add: demoClient_def acceptClients_def demoServer_fields openFd_def closeFd_def ctl_defs epollCtl_def Let_def)
  have r: "readsOn (Ret (Whole SIGTERM))" by (simp add: readsOn_def)
  have b: "signalBatch [Ret (Whole SIGTERM)] = [Ret (Whole SIGTERM)]" "afterBatch [Ret (Whole SIGTERM)] = []"
    unfolding signalBatch_simps(3,4) [OF r] signalBatch_simps(1,2) by simp_all
  have f: "\<not> signalFailure (Ret (Whole SIGTERM))" "\<not> readerEnded 77 (Ret (Whole SIGTERM))" "stopSignal (Ret (Whole SIGTERM))"
    by (simp_all add: signalFailure_def readerEnded_def stopSignal_def)
  have e: "EPOLLIN \<noteq> 0" using EPOLLIN_bits(1) by auto
  from handleSignalEvent_outcome [OF demoClient_inv h] f h e show ?thesis
    by (simp add: u b EPOLLIN_bits)
qed

theorem sigterm_drains_witness:
  "\<exists>s'. serverLoop demoFds [Ret [(5, EPOLLIN)], Fail EINTR, Ret [(4, EPOLLIN)]] demoServer = Some (EXIT_SUCCESS, s') \<and>
     sv_delivered s' = sv_published s'"
proof -
  let ?w = "[Fail EINTR, Ret [(4, EPOLLIN)]]"
  have "0 \<le> fdSpaceReady demoFds" "fdSpaceReady demoFds \<noteq> fdSignal demoFds" "\<forall>r \<in> set ?w. drainWait demoFds r"
    "\<forall>k \<in> set (sv_reader demoServer). 0 < k"
    "length (ringFrames (sv_ring demoServer)) \<le> length (sv_reader demoServer)"
    "length (ringFrames (sv_ring demoServer)) \<le> length ?w" "enough (length ?w) (\<lambda>_. True) (sv_consume demoServer)"
    by (simp_all add: demoFds_def drainWait_def demoServer_fields(6,7)) (simp_all only: demoServer_fields demo_empty list.size)
  from sigterm_drains [OF demoServer_inv demoServer_fields(1,5) this] show ?thesis by (auto simp: demoFds_def)
qed

end
