(* ===== verification/MainProc.thy ===== *)
theory MainProc
  imports Config ReaderTotal ServerProps
begin

text \<open>
  The main program of \<open>src/main.cpp\<close>: it reads the command line, blocks the signals it manages,
  creates the ring and the event descriptors, forks the reader, runs the server in the parent and
  then shuts the reader down and collects it. \<open>mainAnswers\<close> holds what the system calls answer;
  \<open>fork\<close> answering 0 is the child's side. The calls that the shutdown makes are logged in order in
  \<open>mp_calls\<close>. \<open>mp_child\<close> is set in the process that the fork creates, \<open>mp_mapping\<close> says in which process
  the shared memory of the ring was mapped, \<open>mp_history\<close> holds the calls on the ring that the process
  made or saw, and \<open>mp_reader\<close> how the reader ended. \<open>None\<close> is a process that is blocked, or a descriptor that is in use already.
\<close>

section \<open>Data\<close>

datatype signo = SigInt | SigTerm | SigChld

datatype mainCall = Forked int | CloseProducer | NotifyReader bool | KillReader int | CloseDescriptor int | Reaped "waitStatus sysret"

record mainAnswers =
  ma_sigemptyset :: bool
  ma_sigaddset :: "signo \<Rightarrow> bool"
  ma_sigprocmask :: bool
  ma_setvbuf :: bool
  ma_mmap :: bool
  ma_dataReady :: "int sysret"
  ma_spaceReady :: "int sysret"
  ma_fork :: "int sysret"
  ma_signalfd :: "int sysret"
  ma_notify :: "unit sysret list"
  ma_wait :: "waitStatus sysret list"
  ma_setup :: setupAnswers
  ma_events :: "(int \<times> u32) list sysret list"
  ma_input :: "int \<Rightarrow> bytes sysret list"
  ma_accept :: "int sysret list"
  ma_signals :: "signalRead sysret list"
  ma_ctl :: "bool list"
  ma_space :: "u64 sysret list"
  ma_reader :: "nat list"
  ma_storage :: storageAnswers
  ma_producer :: "bytes qop list list"
  ma_readerNotify :: "unit sysret list"
  ma_readerData :: "u64 sysret list"

record mainState =
  mp_out :: string
  mp_err :: string
  mp_blocked :: "signo list"
  mp_ring :: sharedRing
  mp_opened :: "int list"
  mp_closed :: "int list"
  mp_calls :: "mainCall list"
  mp_published :: "bytes list"
  mp_child :: bool
  mp_mapping :: "bool option"
  mp_history :: "bytes qop list"
  mp_reader :: "readerState option"

definition newMain :: mainState where
  "newMain = \<lparr>mp_out = [], mp_err = [], mp_blocked = [], mp_ring = newRing, mp_opened = [], mp_closed = [],
     mp_calls = [], mp_published = [], mp_child = False, mp_mapping = None, mp_history = [], mp_reader = None\<rparr>"


section \<open>Steps\<close>

definition blockManagedSignals :: "mainAnswers \<Rightarrow> mainState \<Rightarrow> bool \<times> signo list \<times> mainState" where
  "blockManagedSignals env s =
     (if \<not> ma_sigemptyset env then (False, [], s)
      else if \<not> ma_sigaddset env SigInt then (False, [], s)
      else if \<not> ma_sigaddset env SigTerm then (False, [SigInt], s)
      else if \<not> ma_sigaddset env SigChld then (False, [SigInt, SigTerm], s)
      else let signalMask = [SigInt, SigTerm, SigChld]
           in if ma_sigprocmask env then (True, signalMask, s\<lparr>mp_blocked := signalMask\<rparr>) else (False, signalMask, s))"

definition openMain :: "int \<Rightarrow> mainState \<Rightarrow> mainState" where
  "openMain fd s = s\<lparr>mp_opened := mp_opened s @ [fd]\<rparr>"

definition logMain :: "mainCall \<Rightarrow> mainState \<Rightarrow> mainState" where
  "logMain c s = s\<lparr>mp_calls := mp_calls s @ [c]\<rparr>"

definition closeMain :: "int \<Rightarrow> mainState \<Rightarrow> mainState" where
  "closeMain fd s = logMain (CloseDescriptor fd) (s\<lparr>mp_closed := mp_closed s @ [fd]\<rparr>)"

text \<open>Closing the producer's side and waking the reader, which is killed when that fails.\<close>

definition wakeReader :: "unit sysret list \<Rightarrow> int \<Rightarrow> mainState \<Rightarrow> (bool \<times> mainState) option" where
  "wakeReader notify readerPid s =
     (let s1 = logMain CloseProducer (s\<lparr>mp_ring := closeProducer (mp_ring s), mp_history := mp_history s @ [Close]\<rparr>)
      in do {
        (ok, _) \<leftarrow> notifyEvent notify;
        (let s2 = logMain (NotifyReader ok) s1
         in Some (ok, if ok then s2 else logMain (KillReader readerPid) s2))
      })"

text \<open>The loop around \<open>waitpid\<close>.\<close>

fun waitReader :: "waitStatus sysret list \<Rightarrow> (waitStatus sysret \<times> waitStatus sysret list) option" where
  "waitReader [] = None"
| "waitReader (Ret status # rest) = Some (Ret status, rest)"
| "waitReader (Fail e # rest) = (if e = EINTR then waitReader rest else Some (Fail e, rest))"

text \<open>What the parent returns once the reader is collected.\<close>

definition readerVerdict :: "exitCode \<Rightarrow> waitStatus sysret \<Rightarrow> exitCode" where
  "readerVerdict serverResult r =
     (case r of
        Fail _ \<Rightarrow> EXIT_FAILURE
      | Ret (Signaled _) \<Rightarrow> EXIT_FAILURE
      | Ret Stopped \<Rightarrow> EXIT_FAILURE
      | Ret (Exited readerExitCode) \<Rightarrow> if readerExitCode \<noteq> 0 then EXIT_FAILURE else serverResult)"

definition readerConfigOf :: "appConfig \<Rightarrow> readerConfig" where
  "readerConfigOf config =
     \<lparr>rc_dataFilePath = dataFilePath config, rc_maxSegmentBytes = maxSegmentBytes config,
      rc_syncEveryBytes = syncEveryBytes config, rc_quiet = quiet config\<rparr>"

definition serverConfigOf :: "appConfig \<Rightarrow> serverConfig" where
  "serverConfigOf config = \<lparr>sc_port = of_nat (port config), sc_quiet = quiet config\<rparr>"

text \<open>The child: the reader's result is the exit status.\<close>

definition childMain :: "mainAnswers \<Rightarrow> readerConfig \<Rightarrow> int \<Rightarrow> int \<Rightarrow> mainState \<Rightarrow> (exitCode \<times> mainState) option" where
  "childMain env config dataReadyFd spaceReadyFd s =
     do {
       (result, r) \<leftarrow> runReader config (ma_storage env) (mp_ring s) (ma_producer env) (ma_readerNotify env) (ma_readerData env);
       Some (result, closeMain spaceReadyFd (closeMain dataReadyFd
         (s\<lparr>mp_ring := rd_ring r, mp_history := rd_log r, mp_reader := Some r\<rparr>)))
     }"

text \<open>The parent without a signal descriptor.\<close>

definition abandonReader :: "mainAnswers \<Rightarrow> int \<Rightarrow> int \<Rightarrow> int \<Rightarrow> mainState \<Rightarrow> (exitCode \<times> mainState) option" where
  "abandonReader env readerPid dataReadyFd spaceReadyFd s =
     do {
       (_, s1) \<leftarrow> wakeReader (ma_notify env) readerPid s;
       (let s2 = closeMain spaceReadyFd (closeMain dataReadyFd s1)
        in do {
          (r, _) \<leftarrow> waitReader (ma_wait env);
          Some (EXIT_FAILURE, logMain (Reaped r) s2)
        })
     }"

definition serverOf :: "mainAnswers \<Rightarrow> int list \<Rightarrow> sharedRing \<Rightarrow> server" where
  "serverOf env base ring = newServer ring base (ma_input env) (ma_accept env) (ma_signals env) (ma_ctl env)
     (ma_notify env) (ma_space env) (ma_reader env)"

definition parentMain ::
    "mainAnswers \<Rightarrow> int \<Rightarrow> int \<Rightarrow> int \<Rightarrow> int \<Rightarrow> mainState \<Rightarrow> (exitCode \<times> mainState) option" where
  "parentMain env readerPid dataReadyFd spaceReadyFd signalFd s =
     do {
       (serverResult, sv) \<leftarrow>
         runServer (ma_setup env) \<lparr>fdSpaceReady = spaceReadyFd, fdSignal = signalFd, pidReader = readerPid\<rparr> (ma_events env)
           (serverOf env [signalFd, spaceReadyFd, dataReadyFd] (mp_ring s));
       (ok, s1) \<leftarrow> wakeReader (sv_notify sv) readerPid 
         (s\<lparr>mp_ring := sv_ring sv, mp_history := sv_log sv, mp_published := sv_published sv\<rparr>);
       (let serverResult' = (if ok then serverResult else EXIT_FAILURE);
            s2 = closeMain spaceReadyFd (closeMain dataReadyFd (closeMain signalFd s1))
        in do {
          (r, _) \<leftarrow> waitReader (ma_wait env);
          Some (readerVerdict serverResult' r, logMain (Reaped r) s2)
        })
     }"

text \<open>From the fork on.\<close>

definition forkReader :: "mainAnswers \<Rightarrow> appConfig \<Rightarrow> int \<Rightarrow> int \<Rightarrow> mainState \<Rightarrow> (exitCode \<times> mainState) option" where
  "forkReader env config dataReadyFd spaceReadyFd s =
     (case ma_fork env of
        Fail _ \<Rightarrow> Some (EXIT_FAILURE, closeMain spaceReadyFd (closeMain dataReadyFd s))
      | Ret readerPid \<Rightarrow>
          let s1 = logMain (Forked readerPid) s
          in if readerPid = 0 then childMain env (readerConfigOf config) dataReadyFd spaceReadyFd (s1\<lparr>mp_child := True\<rparr>)
             else (case ma_signalfd env of
                     Fail _ \<Rightarrow> abandonReader env readerPid dataReadyFd spaceReadyFd s1
                   | Ret signalFd \<Rightarrow>
                       if signalFd \<in> {dataReadyFd, spaceReadyFd} then None
                       else parentMain env readerPid dataReadyFd spaceReadyFd signalFd (openMain signalFd s1)))"

text \<open>The two event descriptors.\<close>

definition openEvents :: "mainAnswers \<Rightarrow> appConfig \<Rightarrow> mainState \<Rightarrow> (exitCode \<times> mainState) option" where
  "openEvents env config s =
     (case ma_dataReady env of
        Fail _ \<Rightarrow> Some (EXIT_FAILURE, s)
      | Ret dataReadyFd \<Rightarrow>
          let s1 = openMain dataReadyFd s
          in case ma_spaceReady env of
               Fail _ \<Rightarrow> Some (EXIT_FAILURE, closeMain dataReadyFd s1)
             | Ret spaceReadyFd \<Rightarrow>
                 if spaceReadyFd = dataReadyFd then None
                 else forkReader env config dataReadyFd spaceReadyFd (openMain spaceReadyFd s1))"

definition mainProgram :: "string list \<Rightarrow> mainAnswers \<Rightarrow> (exitCode \<times> mainState) option" where
  "mainProgram argv env =
     (case parseArguments argv defaultConfig (mp_err newMain) of
        (HelpRequested, _, err) \<Rightarrow>
          Some (EXIT_SUCCESS, newMain\<lparr>mp_err := err, mp_out := printUsage (mp_out newMain) (hd argv)\<rparr>)
      | (Error, _, err) \<Rightarrow> Some (EXIT_FAILURE, newMain\<lparr>mp_err := printUsage err (hd argv)\<rparr>)
      | (Success, config, err) \<Rightarrow>
          (case blockManagedSignals env (newMain\<lparr>mp_err := err\<rparr>) of
             (False, _, s) \<Rightarrow> Some (EXIT_FAILURE, s)
           | (True, _, s) \<Rightarrow>
               if \<not> ma_setvbuf env then Some (EXIT_FAILURE, s)
               else (case create (ma_mmap env) (mp_ring s) of
                       (False, ring) \<Rightarrow> Some (EXIT_FAILURE, s\<lparr>mp_ring := ring\<rparr>)
                     | (True, ring) \<Rightarrow> 
                         openEvents env config
                           (s\<lparr>mp_ring := ring, mp_mapping := Some (mp_child s), mp_history := ringHistory ring\<rparr>))))"


section \<open>Waking and collecting the reader\<close>

text \<open>Collecting is one more call that is repeated while it is interrupted.\<close>

lemma waitReader_settle: "waitReader script = settle script"
  by (induction script rule: waitReader.induct) simp_all

interpretation reap: eintr_retry "\<lambda>script. map_option (\<lambda>(r, rest). (completedCall r, rest)) (waitReader script)"
  by unfold_locales (simp_all add: completedCall_def)

lemma main_fields [simp]:
  "mp_closed (logMain c s) = mp_closed s" "mp_opened (logMain c s) = mp_opened s" "mp_ring (logMain c s) = mp_ring s"
  "mp_calls (logMain c s) = mp_calls s @ [c]" "mp_published (logMain c s) = mp_published s"
  "mp_closed (closeMain fd s) = mp_closed s @ [fd]" "mp_opened (closeMain fd s) = mp_opened s"
  "mp_ring (closeMain fd s) = mp_ring s" "mp_calls (closeMain fd s) = mp_calls s @ [CloseDescriptor fd]"
  "mp_published (closeMain fd s) = mp_published s"
  "mp_closed (openMain fd s) = mp_closed s" "mp_opened (openMain fd s) = mp_opened s @ [fd]"
  "mp_ring (openMain fd s) = mp_ring s" "mp_calls (openMain fd s) = mp_calls s" "mp_published (openMain fd s) = mp_published s"
  "mp_mapping (logMain c s) = mp_mapping s" "mp_mapping (closeMain fd s) = mp_mapping s" "mp_mapping (openMain fd s) = mp_mapping s"
  "mp_history (logMain c s) = mp_history s" "mp_history (closeMain fd s) = mp_history s" "mp_history (openMain fd s) = mp_history s"
  "mp_reader (logMain c s) = mp_reader s" "mp_reader (closeMain fd s) = mp_reader s" "mp_reader (openMain fd s) = mp_reader s"
  by (simp_all add: logMain_def closeMain_def openMain_def)

lemma main_initial [simp]: "mp_closed newMain = []" "mp_opened newMain = []" "mp_calls newMain = []"
  by (simp_all add: newMain_def)

lemma closeProducer_closed: "producerClosed (closeProducer r)"
  by (simp add: producerClosed_def closeProducer_def split: option.split)

lemma wakeReader_result:
  assumes "wakeReader notify pid s = Some (ok, s')"
  shows "\<exists>rest. notifyEvent notify = Some (ok, rest)" and "mp_ring s' = closeProducer (mp_ring s)"
    and "mp_opened s' = mp_opened s" and "mp_closed s' = mp_closed s" and "mp_published s' = mp_published s"
    and "mp_calls s' = mp_calls s @ [CloseProducer, NotifyReader ok] @ (if ok then [] else [KillReader pid])"
    and "mp_history s' = mp_history s @ [Close]" and "mp_mapping s' = mp_mapping s"
  using assms by (auto simp: wakeReader_def Let_def split: Option.bind_split_asm)

lemma abandonReader_result:
  assumes "abandonReader env pid d sp s = Some (code, s')"
  shows "\<exists>ok r rest. mp_calls s' = mp_calls s @ [CloseProducer, NotifyReader ok] @ (if ok then [] else [KillReader pid]) @
      [CloseDescriptor d, CloseDescriptor sp, Reaped r] \<and> settle (ma_wait env) = Some (r, rest)"
    and "code = EXIT_FAILURE" and "mp_ring s' = closeProducer (mp_ring s)"
    and "mp_opened s' = mp_opened s" and "mp_closed s' = mp_closed s @ [d, sp]"
proof -
  obtain ok s1 r rest where w: "wakeReader (ma_notify env) pid s = Some (ok, s1)" "waitReader (ma_wait env) = Some (r, rest)"
    "code = EXIT_FAILURE" "s' = logMain (Reaped r) (closeMain sp (closeMain d s1))"
    using assms by (auto simp: abandonReader_def Let_def split: Option.bind_split_asm)
  note k = wakeReader_result [OF w(1)]
  show "\<exists>ok r rest. mp_calls s' = mp_calls s @ [CloseProducer, NotifyReader ok] @ (if ok then [] else [KillReader pid]) @
      [CloseDescriptor d, CloseDescriptor sp, Reaped r] \<and> settle (ma_wait env) = Some (r, rest)"
    using w(2,4) k(6) by (intro exI [of _ ok] exI [of _ r] exI [of _ rest]) (simp add: waitReader_settle)
  show "code = EXIT_FAILURE" "mp_ring s' = closeProducer (mp_ring s)" "mp_opened s' = mp_opened s"
    "mp_closed s' = mp_closed s @ [d, sp]"
    using w(3,4) k by simp_all
qed

lemma parentMain_result:
  assumes "parentMain env pid d sp sg s = Some (code, s')"
  obtains ok r rest rest' sresult sv where
    "runServer (ma_setup env) \<lparr>fdSpaceReady = sp, fdSignal = sg, pidReader = pid\<rparr> (ma_events env)
       (serverOf env [sg, sp, d] (mp_ring s)) = Some (sresult, sv)"
    and "notifyEvent (sv_notify sv) = Some (ok, rest)" and "settle (ma_wait env) = Some (r, rest')"
    and "code = readerVerdict (if ok then sresult else EXIT_FAILURE) r"
    and "mp_calls s' = mp_calls s @ [CloseProducer, NotifyReader ok] @ (if ok then [] else [KillReader pid]) @
      [CloseDescriptor sg, CloseDescriptor d, CloseDescriptor sp, Reaped r]"
    and "mp_ring s' = closeProducer (sv_ring sv)" and "mp_opened s' = mp_opened s"
    and "mp_closed s' = mp_closed s @ [sg, d, sp]" and "mp_published s' = sv_published sv"
    and "mp_history s' = sv_log sv @ [Close]" and "mp_mapping s' = mp_mapping s"
proof -
  obtain sresult sv ok s1 r rest' where
    v: "runServer (ma_setup env) \<lparr>fdSpaceReady = sp, fdSignal = sg, pidReader = pid\<rparr> (ma_events env)
       (serverOf env [sg, sp, d] (mp_ring s)) = Some (sresult, sv)"
    and w: "wakeReader (sv_notify sv) pid (s\<lparr>mp_ring := sv_ring sv, mp_history := sv_log sv, mp_published := sv_published sv\<rparr>) = Some (ok, s1)"
    and r: "waitReader (ma_wait env) = Some (r, rest')" "code = readerVerdict (if ok then sresult else EXIT_FAILURE) r"
      "s' = logMain (Reaped r) (closeMain sp (closeMain d (closeMain sg s1)))"
    using assms by (auto simp: parentMain_def Let_def split: Option.bind_split_asm)
  note k = wakeReader_result [OF w]
  show ?thesis using that [OF v _ _ r(2)] k r(1,3) by (auto simp: waitReader_settle)
qed


section \<open>The ways through the program\<close>

definition signalsBlockable :: "mainAnswers \<Rightarrow> bool" where
  "signalsBlockable env \<longleftrightarrow> ma_sigemptyset env \<and> (\<forall>n. ma_sigaddset env n) \<and> ma_sigprocmask env"

lemma blockManagedSignals_cases:
  assumes "blockManagedSignals env s = (ok, m, s')"
  shows "s' = (if ok then s\<lparr>mp_blocked := [SigInt, SigTerm, SigChld]\<rparr> else s)" and "ok \<longleftrightarrow> signalsBlockable env"
proof -
  have "(\<forall>n. ma_sigaddset env n) \<longleftrightarrow> ma_sigaddset env SigInt \<and> ma_sigaddset env SigTerm \<and> ma_sigaddset env SigChld"
    by (metis signo.exhaust)
  then show "ok \<longleftrightarrow> signalsBlockable env"
    using assms by (auto simp: blockManagedSignals_def signalsBlockable_def Let_def split: if_splits)
  show "s' = (if ok then s\<lparr>mp_blocked := [SigInt, SigTerm, SigChld]\<rparr> else s)"
    using assms by (auto simp: blockManagedSignals_def Let_def split: if_splits)
qed

text \<open>The state in which the reader is forked.\<close>

definition readyMain :: "string \<Rightarrow> int \<Rightarrow> int \<Rightarrow> mainState" where
  "readyMain err d sp = newMain\<lparr>mp_err := err, mp_blocked := [SigInt, SigTerm, SigChld], mp_ring := emptyRing,
     mp_mapping := Some False, mp_history := ringHistory emptyRing, mp_opened := [d, sp]\<rparr>"

definition setupWorks :: "mainAnswers \<Rightarrow> int \<Rightarrow> int \<Rightarrow> bool" where
  "setupWorks env d sp \<longleftrightarrow> signalsBlockable env \<and> ma_setvbuf env \<and> ma_mmap env \<and> ma_dataReady env = Ret d \<and> ma_spaceReady env = Ret sp \<and> sp \<noteq> d"

lemma mainProgram_cases:
  assumes "mainProgram argv env = Some (code, s)"
  obtains (usage) c err where "parseArguments argv defaultConfig [] = (HelpRequested, c, err)" "code = EXIT_SUCCESS"
      "s = newMain\<lparr>mp_err := err, mp_out := printUsage [] (hd argv)\<rparr>"
  | (failed) "fst (parseArguments argv defaultConfig []) \<noteq> HelpRequested" "code = EXIT_FAILURE" "mp_calls s = [] \<or> (\<exists>d. mp_calls s = [CloseDescriptor d])"
      "mp_opened s = mp_closed s" "\<nexists>d sp. setupWorks env d sp \<and> fst (parseArguments argv defaultConfig []) = Success"
  | (forking) config err d sp where "parseArguments argv defaultConfig [] = (Success, config, err)" "setupWorks env d sp"
      "forkReader env config d sp (readyMain err d sp) = Some (code, s)"
proof -
  obtain st config err where pa: "parseArguments argv defaultConfig [] = (st, config, err)" by (metis prod_cases3)
  show ?thesis
  proof (cases st)
    case HelpRequested
    with assms pa usage show ?thesis by (auto simp: mainProgram_def newMain_def)
  next
    case Error
    with assms pa failed show ?thesis by (auto simp: mainProgram_def newMain_def)
  next
    case Success
    obtain ok m s0 where b: "blockManagedSignals env (newMain\<lparr>mp_err := err\<rparr>) = (ok, m, s0)" by (metis prod_cases3)
    note b' = blockManagedSignals_cases [OF b]
    have ring: "mp_child newMain = False" "mp_ring newMain = newRing" "mp_err newMain = []" "mp_opened newMain = []" "mp_closed newMain = []" "mp_calls newMain = []"
      by (simp_all add: newMain_def)
    show ?thesis
    proof (cases "ok \<and> ma_setvbuf env \<and> ma_mmap env")
      case False
      with assms pa Success b b' failed ring show ?thesis
        by (auto simp: mainProgram_def setupWorks_def create_def newRing_def split: bool.splits if_splits)
    next
      case True
      then have c: "create (ma_mmap env) newRing = (True, emptyRing)" using created_ring by simp
      let ?s = "newMain\<lparr>mp_err := err, mp_blocked := [SigInt, SigTerm, SigChld], mp_ring := emptyRing,
        mp_mapping := Some False, mp_history := ringHistory emptyRing\<rparr>"
      have o: "openEvents env config ?s = Some (code, s)"
        using assms pa Success b b' True c ring by (simp add: mainProgram_def)
      show ?thesis
      proof (cases "\<exists>d sp. ma_dataReady env = Ret d \<and> ma_spaceReady env = Ret sp")
        case False
        with o failed pa Success ring show ?thesis
          by (auto simp: openEvents_def setupWorks_def Let_def split: sysret.splits if_splits)
      next
        case both: True
        then obtain d sp where e: "ma_dataReady env = Ret d" "ma_spaceReady env = Ret sp" by blast
        have "sp \<noteq> d" using o e by (auto simp: openEvents_def split: if_splits)
        with o e have "forkReader env config d sp (readyMain err d sp) = Some (code, s)"
          by (simp add: openEvents_def readyMain_def openMain_def ring)
        with forking [OF pa [unfolded Success]] e \<open>sp \<noteq> d\<close> True b'(2) show ?thesis by (auto simp: setupWorks_def)
      qed
    qed
  qed
qed


text \<open>The ways on from the fork.\<close>

lemma forkReader_cases:
  assumes "forkReader env config d sp s = Some (code, s')"
  obtains (nofork) e where "ma_fork env = Fail e" "code = EXIT_FAILURE" "s' = closeMain sp (closeMain d s)"
  | (child) r where "ma_fork env = Ret 0"
      "runReader (readerConfigOf config) (ma_storage env) (mp_ring s) (ma_producer env) (ma_readerNotify env) (ma_readerData env) = Some (code, r)"
      "s' = closeMain sp (closeMain d ((logMain (Forked 0) s)\<lparr>mp_child := True, mp_ring := rd_ring r, mp_history := rd_log r, mp_reader := Some r\<rparr>))"
  | (unsignaled) pid e where "ma_fork env = Ret pid" "pid \<noteq> 0" "ma_signalfd env = Fail e"
      "abandonReader env pid d sp (logMain (Forked pid) s) = Some (code, s')"
  | (parent) pid sg where "ma_fork env = Ret pid" "pid \<noteq> 0" "ma_signalfd env = Ret sg" "sg \<notin> {d, sp}"
      "parentMain env pid d sp sg (openMain sg (logMain (Forked pid) s)) = Some (code, s')"
proof (cases "ma_fork env")
  case (Fail e)
  with assms nofork show ?thesis by (simp add: forkReader_def)
next
  case (Ret pid)
  show ?thesis
  proof (cases "pid = 0")
    case True
    with assms Ret child show ?thesis
      by (auto simp: forkReader_def childMain_def Let_def split: Option.bind_split_asm)
  next
    case False
    with assms Ret unsignaled parent show ?thesis
      by (cases "ma_signalfd env") (auto simp: forkReader_def Let_def split: if_splits)
  qed
qed


lemma mainProgram_success:
  assumes "mainProgram argv env = Some (code, s)" and "ma_fork env = Ret pid" and "pid \<noteq> 0"
  shows "code = EXIT_SUCCESS \<longleftrightarrow> fst (parseArguments argv defaultConfig []) = HelpRequested \<or>
    (\<exists>d sp sg sv rest rest'. fst (parseArguments argv defaultConfig []) = Success \<and> setupWorks env d sp \<and>
      ma_signalfd env = Ret sg \<and>
      runServer (ma_setup env) \<lparr>fdSpaceReady = sp, fdSignal = sg, pidReader = pid\<rparr> (ma_events env)
        (serverOf env [sg, sp, d] emptyRing) = Some (EXIT_SUCCESS, sv) \<and>
      notifyEvent (sv_notify sv) = Some (True, rest) \<and> settle (ma_wait env) = Some (Ret (Exited 0), rest'))"
    (is "_ \<longleftrightarrow> ?help \<or> ?orderly")
proof (cases rule: mainProgram_cases [OF assms(1)])
  case (1 c err)
  then show ?thesis by simp
next
  case 2
  then show ?thesis by auto
next
  case (3 config err d sp)
  have only: "d' = d \<and> sp' = sp" if "setupWorks env d' sp'" for d' sp' using that 3(2) by (auto simp: setupWorks_def)
  have ring: "mp_ring (readyMain err d sp) = emptyRing" by (simp add: readyMain_def)
  have verdict: "readerVerdict c r = EXIT_SUCCESS \<longleftrightarrow> c = EXIT_SUCCESS \<and> r = Ret (Exited 0)" for c r
    by (auto simp: readerVerdict_def split: sysret.splits waitStatus.splits)
  from 3(3) show ?thesis
  proof (cases rule: forkReader_cases)
    case (unsignaled pid' e)
    then show ?thesis using abandonReader_result(2) [OF unsignaled(4)] 3(1) by auto
  next
    case (parent pid' sg)
    then have pid: "pid' = pid" using assms(2) by simp
    from parent(5) obtain ok r rest rest' sresult sv where
      p: "runServer (ma_setup env) \<lparr>fdSpaceReady = sp, fdSignal = sg, pidReader = pid\<rparr> (ma_events env)
         (serverOf env [sg, sp, d] emptyRing) = Some (sresult, sv)"
      "notifyEvent (sv_notify sv) = Some (ok, rest)" "settle (ma_wait env) = Some (r, rest')"
      "code = readerVerdict (if ok then sresult else EXIT_FAILURE) r"
      by (rule parentMain_result) (simp add: ring pid)
    have "code = EXIT_SUCCESS \<longleftrightarrow> ok \<and> sresult = EXIT_SUCCESS \<and> r = Ret (Exited 0)"
      unfolding p(4) verdict by auto
    moreover have ?orderly if "ok" "sresult = EXIT_SUCCESS" "r = Ret (Exited 0)"
      using p(1-3) parent(3) 3(1,2) that
      by (intro exI [of _ d] exI [of _ sp] exI [of _ sg] exI [of _ sv] exI [of _ rest] exI [of _ rest']) simp
    moreover have "ok \<and> sresult = EXIT_SUCCESS \<and> r = Ret (Exited 0)" if o: ?orderly
    proof -
      from o obtain d' sp' sg' sv' rst rst' where q: "setupWorks env d' sp'" "ma_signalfd env = Ret sg'"
        "runServer (ma_setup env) \<lparr>fdSpaceReady = sp', fdSignal = sg', pidReader = pid\<rparr> (ma_events env)
          (serverOf env [sg', sp', d'] emptyRing) = Some (EXIT_SUCCESS, sv')"
        "notifyEvent (sv_notify sv') = Some (True, rst)" "settle (ma_wait env) = Some (Ret (Exited 0), rst')" by blast
      with only [OF q(1)] p(1-3) parent(3) show ?thesis by simp
    qed
    ultimately have "code = EXIT_SUCCESS \<longleftrightarrow> ?orderly" by argo
    then show ?thesis using 3(1) by simp
  qed (use assms in simp_all)
qed


section \<open>Properties\<close>

text \<open>C17: every descriptor that the main program opens is closed exactly once on every path, in the
  parent and in the child, and nothing else is closed; after a fork the producer's side of the
  ring is closed before the reader is woken, the reader is killed exactly when waking it fails, all
  descriptors are closed before the parent waits, and the parent never returns before the reader
  is collected with an answer other than an interruption.\<close>

theorem main_shutdown:
  assumes "mainProgram argv env = Some (code, s)"
  shows "mset (mp_closed s) = mset (mp_opened s) \<and>
    (\<forall>pid. pid \<noteq> 0 \<and> Forked pid \<in> set (mp_calls s) \<longrightarrow>
      (\<exists>ok fds r. mp_calls s = [Forked pid, CloseProducer, NotifyReader ok] @ (if ok then [] else [KillReader pid]) @
         map CloseDescriptor fds @ [Reaped r] \<and> mset fds = mset (mp_opened s) \<and> r \<noteq> Fail EINTR \<and>
         producerClosed (mp_ring s)))"
proof (cases rule: mainProgram_cases [OF assms])
  case (1 c err)
  then show ?thesis by simp
next
  case 2
  then show ?thesis by auto
next
  case (3 config err d sp)
  have start: "mp_calls (readyMain err d sp) = []" "mp_opened (readyMain err d sp) = [d, sp]" "mp_closed (readyMain err d sp) = []"
    by (simp_all add: readyMain_def newMain_def)
  from 3(3) show ?thesis
  proof (cases rule: forkReader_cases)
    case nofork
    then show ?thesis by (simp add: start)
  next
    case child
    then show ?thesis by (simp add: start)
  next
    case (unsignaled pid e)
    note a = abandonReader_result [OF unsignaled(4)]
    obtain ok r rest where r: "mp_calls s = [Forked pid] @ [CloseProducer, NotifyReader ok] @ (if ok then [] else [KillReader pid]) @
        [CloseDescriptor d, CloseDescriptor sp, Reaped r]" "settle (ma_wait env) = Some (r, rest)"
      using a(1) by (auto simp: start)
    have "r \<noteq> Fail EINTR" using settle_not_interrupted [OF r(2)] by (simp add: interrupted_def)
    then show ?thesis using r(1) a(3-5)
      by (auto simp: start closeProducer_closed intro!: exI [of _ ok] exI [of _ "[d, sp]"] exI [of _ r])
  next
    case (parent pid sg)
    from parent(5) obtain ok r rest' where
      p: "settle (ma_wait env) = Some (r, rest')"
      "mp_calls s = [Forked pid] @ [CloseProducer, NotifyReader ok] @ (if ok then [] else [KillReader pid]) @
        [CloseDescriptor sg, CloseDescriptor d, CloseDescriptor sp, Reaped r]"
      "producerClosed (mp_ring s)" "mp_opened s = [d, sp, sg]" "mp_closed s = [sg, d, sp]"
      by (rule parentMain_result) (auto simp: start closeProducer_closed)
    have "r \<noteq> Fail EINTR" using settle_not_interrupted [OF p(1)] by (simp add: interrupted_def)
    then show ?thesis using p(2-5)
      by (auto intro!: exI [of _ ok] exI [of _ "[sg, d, sp]"] exI [of _ r])
  qed
qed

text \<open>C18: the exit code of the parent: success means that only the usage was asked for, or that the
  whole setup worked, the server returned success, the reader was woken and the reader exited with
  status 0; every other outcome that returns is a failure.\<close>

theorem main_success_iff:
  assumes "mainProgram argv env = Some (code, s)" and "ma_fork env = Ret pid" and "pid \<noteq> 0"
  shows "code = EXIT_SUCCESS \<longleftrightarrow> fst (parseArguments argv defaultConfig []) = HelpRequested \<or>
    (\<exists>d sp sg sv rest rest'. fst (parseArguments argv defaultConfig []) = Success \<and> setupWorks env d sp \<and>
      ma_signalfd env = Ret sg \<and>
      runServer (ma_setup env) \<lparr>fdSpaceReady = sp, fdSignal = sg, pidReader = pid\<rparr> (ma_events env)
        (serverOf env [sg, sp, d] emptyRing) = Some (EXIT_SUCCESS, sv) \<and>
      notifyEvent (sv_notify sv) = Some (True, rest) \<and> settle (ma_wait env) = Some (Ret (Exited 0), rest'))"
  by (rule mainProgram_success [OF assms])

text \<open>C20: a configuration that the command line accepts is one that the store accepts, with the same
  path and sizes, and the port that the server binds is the accepted one, between 1 and 65535,
  without truncation.\<close>

theorem main_configures:
  assumes "parseArguments argv defaultConfig [] = (Success, config, err)"
  shows "validateStoreConfig (storeConfigOf (readerConfigOf config)) \<and>
    rc_dataFilePath (readerConfigOf config) = dataFilePath config \<and> dataFilePath config \<noteq> [] \<and>
    cfgMaxSegmentBytes (storeConfigOf (readerConfigOf config)) = maxSegmentBytes config \<and>
    cfgSyncEveryBytes (storeConfigOf (readerConfigOf config)) = syncEveryBytes config \<and>
    unat (sc_port (serverConfigOf config)) = port config \<and> 1 \<le> port config \<and> port config \<le> 65535"
proof -
  have l: "parseLoop (drop 1 argv) defaultConfig [] = (Success, config, err)" using assms by (simp add: parseArguments_def)
  have "validConfig config" using parseLoop_outcome [OF l] by simp
  moreover have "configInRange config" using parseLoop_in_range [OF l] defaultConfig_valid(2) by simp
  ultimately show ?thesis
    by (auto simp: validConfig_def configInRange_def portBits_def validateStoreConfig_iff storeConfigOf_def readerConfigOf_def
        serverConfigOf_def unat_of_nat)
qed


section \<open>Concrete runs\<close>

text \<open>
  A run in which a client sends one frame, the reader stores it and \<open>SIGTERM\<close> follows.
\<close>

definition demoMain :: mainAnswers where
  "demoMain =
     \<lparr>ma_sigemptyset = True, ma_sigaddset = (\<lambda>_. True), ma_sigprocmask = True, ma_setvbuf = True, ma_mmap = True,
      ma_dataReady = Ret 3, ma_spaceReady = Ret 4, ma_fork = Ret 77, ma_signalfd = Ret 5, ma_notify = [Ret (), Fail EINTR, Ret ()],
      ma_wait = [Fail EINTR, Ret (Exited 0)],
      ma_setup = \<lparr>su_socket = Ret 6, su_setsockopt = Ret (), su_bind = Ret (), su_listen = Ret (), su_epoll = Ret 7\<rparr>,
      ma_events = [Fail EINTR, Ret [(6, EPOLLIN)], Ret [(8, EPOLLIN)], Ret [(5, EPOLLIN)]],
      ma_input = (\<lambda>fd. if fd = 8 then [Ret (encode emptyRecord)] else []), ma_accept = [Ret 8],
      ma_signals = [Ret (Whole SIGTERM)], ma_ctl = [], ma_space = [], ma_reader = [0, 0, 1], ma_storage = readerSampleAnswers,
      ma_producer = blockScript [[], [[encode emptyRecord]]], ma_readerNotify = replicate 4 (Ret ()),
      ma_readerData = replicate 4 (Ret 1)\<rparr>"

definition demoArgs :: "string list" where "demoArgs = [''telemetry-server'']"

lemma demo_parse: "parseArguments demoArgs defaultConfig [] = (Success, defaultConfig, [])"
  by (simp add: demoArgs_def parseArguments_def parseLoop.simps validate_def defaultConfig_def kFrameSize_def)

text \<open>The ring after the push of the frame.\<close>

definition demoRing :: sharedRing where
  "demoRing = snd (tryPushBatch (encode emptyRecord) emptyRing)"

lemma demo_encode: "encode r \<noteq> []" "take 4096 (encode r) = encode r" "chunks kFrameSize (encode r) = [encode r]"
proof -
  show "encode r \<noteq> []" using length_encode [of r] kFrameSize_pos by (metis list.size(3))
  show "take 4096 (encode r) = encode r" by (simp add: kFrameSize_def)
  show "chunks kFrameSize (encode r) = [encode r]" using chunks_append [of kFrameSize "encode r" "[]"] by simp
qed

lemma demoRing_facts:
  "tryPushBatch (encode emptyRecord) emptyRing = (1, demoRing)" "pendingBytes demoRing = 32"
  "ringEmpty (snd (popFrames 1 demoRing))"
  by (simp_all add: demoRing_def tryPushBatch_def demo_encode producerClosed_def emptyLayout_def newRing_def ring_defs Let_def
      popFrames_def tryPopBatch_def ringEmpty_def pendingBytes_def pendingFrames_def kFrameSize_def)

lemma popFrames_0: "popFrames 0 r = ([], r)"
  by (simp add: popFrames_def tryPopBatch_def split: option.split)

lemma hangup_bits: "EPOLLIN AND (EPOLLRDHUP OR EPOLLHUP OR EPOLLERR) = 0"
  by (simp add: EPOLLIN_def EPOLLRDHUP_def EPOLLHUP_def EPOLLERR_def)

lemma emptyRing_empty: "ringEmpty emptyRing"
  using emptyRing_facts by (simp add: ringEmpty_def pendingFrames_eq)

lemma demo_server:
  "\<exists>sv. runServer (ma_setup demoMain) \<lparr>fdSpaceReady = 4, fdSignal = 5, pidReader = 77\<rparr> (ma_events demoMain)
     (serverOf demoMain [5, 4, 3] emptyRing) = Some (EXIT_SUCCESS, sv) \<and> sv_notify sv = [Fail EINTR, Ret ()] \<and>
     sv_published sv = [encode emptyRecord]"
proof -
  obtain fs r where p: "popFrames (Suc 0) demoRing = (fs, r)" by fastforce
  have e: "ringEmpty r" using demoRing_facts(3) p by simp
  show ?thesis
    using EPOLLIN_bits emptyRing_empty emptyRing_facts e validFrame_encode [of emptyRecord]
    apply (simp add: runServer_def demoMain_def serverOf_def newServer_def completedCall_def openFd_def ctl_defs epollCtl_def
        drainedExit_def handleSignalEvent_def handleSignalFd_def beginDraining_def closeFd_def removeAllClients.simps
        loadEmpty_def readerActs_def shutdownServer_def kMaxEvents_def Let_def handleEvent_def handleListenEvent_def
        acceptClients_def handleClientEvent_def readClient_def kReadBufferSize_def handleBytes_def clientBuffer_def
        emptyBuffer_def setBuffer_def kMaxClientBuffer_def publishFrames_def pushBatch_def loadPendingBytes_def popFrames_0
        demoRing_facts p validFrame_def dr_ok_def kPauseIngressBytes_def demo_encode unread_def hangup_bits handleHangup_def
        removeClient_def notifyPublished_def notifyData_def compact_def bufferEmpty_def)
    apply (simp add: kFrameSize_def)
    done
qed

lemma demo_setup: "setupWorks demoMain 3 4" "setupWorks (demoMain\<lparr>ma_signalfd := Fail (EOTHER 24)\<rparr>) 3 4"
  by (simp_all add: setupWorks_def signalsBlockable_def demoMain_def)

text \<open>Up to the fork the program does what its answers say.\<close>

lemma mainProgram_forks:
  assumes "parseArguments argv defaultConfig [] = (Success, config, err)" and "setupWorks env d sp"
  shows "mainProgram argv env = forkReader env config d sp (readyMain err d sp)"
proof -
  obtain ok m s0 where b: "blockManagedSignals env (newMain\<lparr>mp_err := err\<rparr>) = (ok, m, s0)" by (metis prod_cases3)
  have "ok" "s0 = newMain\<lparr>mp_err := err, mp_blocked := [SigInt, SigTerm, SigChld]\<rparr>"
    using blockManagedSignals_cases [OF b] assms(2) by (simp_all add: setupWorks_def)
  with b assms created_ring show ?thesis
    by (simp add: mainProgram_def setupWorks_def openEvents_def readyMain_def openMain_def newMain_def)
qed

lemma demo_main: "\<exists>s. mainProgram demoArgs demoMain = Some (EXIT_SUCCESS, s) \<and> mp_published s = [encode emptyRecord]"
proof -
  obtain sv where sv: "runServer (ma_setup demoMain) \<lparr>fdSpaceReady = 4, fdSignal = 5, pidReader = 77\<rparr> (ma_events demoMain)
     (serverOf demoMain [5, 4, 3] emptyRing) = Some (EXIT_SUCCESS, sv)" "sv_notify sv = [Fail EINTR, Ret ()]"
    "sv_published sv = [encode emptyRecord]"
    using demo_server by blast
  have e: "ma_fork demoMain = Ret 77" "ma_signalfd demoMain = Ret 5" "ma_wait demoMain = [Fail EINTR, Ret (Exited 0)]"
    by (simp_all add: demoMain_def)
  have "mp_ring (readyMain [] 3 4) = emptyRing" by (simp add: readyMain_def)
  with sv e show ?thesis
    unfolding mainProgram_forks [OF demo_parse demo_setup(1)] forkReader_def parentMain_def
    by (simp add: wakeReader_def Let_def readerVerdict_def)
qed

theorem main_shutdown_witness:
  "\<exists>code s. mainProgram demoArgs (demoMain\<lparr>ma_signalfd := Fail (EOTHER 24)\<rparr>) = Some (code, s) \<and>
     mset (mp_closed s) = mset (mp_opened s) \<and> mp_opened s = [3, 4] \<and> producerClosed (mp_ring s)"
proof -
  let ?env = "demoMain\<lparr>ma_signalfd := Fail (EOTHER 24)\<rparr>"
  have "mp_opened (readyMain [] 3 4) = [3, 4]" "mp_calls (readyMain [] 3 4) = []" by (simp_all add: readyMain_def)
  then obtain code s where r: "mainProgram demoArgs ?env = Some (code, s)" "mp_opened s = [3, 4]" "Forked 77 \<in> set (mp_calls s)"
    unfolding mainProgram_forks [OF demo_parse demo_setup(2)] forkReader_def abandonReader_def
    by (simp add: demoMain_def wakeReader_def Let_def)
  from main_shutdown [OF r(1)] r show ?thesis by (metis zero_neq_numeral)
qed

theorem main_success_iff_witness:
  "\<exists>s. mainProgram demoArgs demoMain = Some (EXIT_SUCCESS, s) \<and>
     (\<exists>sv. runServer (ma_setup demoMain) \<lparr>fdSpaceReady = 4, fdSignal = 5, pidReader = 77\<rparr> (ma_events demoMain)
        (serverOf demoMain [5, 4, 3] emptyRing) = Some (EXIT_SUCCESS, sv))"
proof -
  obtain s where s: "mainProgram demoArgs demoMain = Some (EXIT_SUCCESS, s)" using demo_main by blast
  have f: "ma_fork demoMain = Ret 77" "(77 :: int) \<noteq> 0" "ma_signalfd demoMain = Ret 5"
    "ma_dataReady demoMain = Ret 3" "ma_spaceReady demoMain = Ret 4" by (simp_all add: demoMain_def)
  from main_success_iff [OF s f(1,2)] demo_parse s f show ?thesis by (auto simp: setupWorks_def)
qed

theorem main_configures_witness:
  "validateStoreConfig (storeConfigOf (readerConfigOf defaultConfig)) \<and> unat (sc_port (serverConfigOf defaultConfig)) = 9000"
  using main_configures [OF demo_parse] by (simp add: defaultConfig_def)

end
