(* ===== verification/RingConcurrent.thy ===== *)
theory RingConcurrent
  imports Ring
begin

text \<open>
  The two sides of the ring running concurrently. A batch push is a load of the tail, the copying
  of single bytes in any order and the store of the head; a batch pop is a load of the head, the
  copying and the store of the tail (\<open>tryPushBatch\<close> and \<open>tryPopBatch\<close> of
  \<open>Ipc/src/SharedRingBuffer.cpp\<close>). The steps of the two sides interleave freely. An acquire load may
  return an old value of the other side's counter, but none older than one that this side has read
  before: \<open>co_seenTail\<close> and \<open>co_seenHead\<close> number the last ones read. \<open>co_pushed\<close> and \<open>co_popped\<close>
  are the bytes that went in and out so far; they and the numbers are not part of the program.
\<close>

section \<open>Steps\<close>

datatype producerPc = PIdle | PCopy nat bytes "nat set"

datatype consumerPc = CIdle | CCopy nat "nat set" "nat \<Rightarrow> byte"

record conc =
  co_layout :: layout
  co_producer :: producerPc
  co_consumer :: consumerPc
  co_pushed :: bytes
  co_popped :: bytes
  co_seenTail :: nat
  co_seenHead :: nat

definition emptyConc :: conc where
  "emptyConc = \<lparr>co_layout = emptyLayout, co_producer = PIdle, co_consumer = CIdle, co_pushed = [], co_popped = [],
     co_seenTail = 0, co_seenHead = 0\<rparr>"

text \<open>The address of byte \<open>b\<close> of a batch that starts at counter \<open>h\<close>: the two \<open>memcpy\<close> calls.\<close>

definition batchAddr :: "u64 \<Rightarrow> nat \<Rightarrow> nat" where
  "batchAddr h b =
     (let index = unat h mod capacityFrames;
          firstBytes = (capacityFrames - index) * kFrameSize
      in if b < firstBytes then index * kFrameSize + b else b - firstBytes)"

text \<open>\<open>tryPushBatch\<close> up to the copying; \<open>t\<close> is the number of frames popped at the load of the tail.\<close>

definition pushLoad :: "nat \<Rightarrow> bytes \<Rightarrow> conc \<Rightarrow> conc" where
  "pushLoad t frames s =
     (let l = co_layout s
      in if frames = [] \<or> length frames mod kFrameSize \<noteq> 0 \<or> closedFlag l \<noteq> 0 then s
         else let freeFrames = sub64 capacityFrames (unat (head l - of_nat t));
                  count = min (length frames div kFrameSize) freeFrames
              in s\<lparr>co_seenTail := t, co_producer := if count = 0 then PIdle else PCopy count frames {}\<rparr>)"

definition pushByte :: "nat \<Rightarrow> conc \<Rightarrow> conc" where
  "pushByte b s =
     (case co_producer s of
        PIdle \<Rightarrow> s
      | PCopy count frames copied \<Rightarrow>
          let l = co_layout s
          in s\<lparr>co_layout := l\<lparr>slots := (slots l)(batchAddr (head l) b := frames ! b)\<rparr>,
               co_producer := PCopy count frames (insert b copied)\<rparr>)"

definition pushStore :: "conc \<Rightarrow> conc" where
  "pushStore s =
     (case co_producer s of
        PIdle \<Rightarrow> s
      | PCopy count frames copied \<Rightarrow>
          let l = co_layout s
          in s\<lparr>co_layout := l\<lparr>head := head l + of_nat count\<rparr>, co_producer := PIdle,
               co_pushed := co_pushed s @ take (count * kFrameSize) frames\<rparr>)"

text \<open>\<open>tryPopBatch\<close> into a buffer of \<open>room\<close> bytes; \<open>h\<close> is the number of frames pushed at the load of the head.\<close>

definition popLoad :: "nat \<Rightarrow> nat \<Rightarrow> conc \<Rightarrow> conc" where
  "popLoad h room s =
     (if room = 0 \<or> room mod kFrameSize \<noteq> 0 then s
      else let count = min (room div kFrameSize) (unat (of_nat h - tail (co_layout s)))
           in s\<lparr>co_seenHead := h, co_consumer := if count = 0 then CIdle else CCopy count {} (\<lambda>_. 0)\<rparr>)"

definition popByte :: "nat \<Rightarrow> conc \<Rightarrow> conc" where
  "popByte b s =
     (case co_consumer s of
        CIdle \<Rightarrow> s
      | CCopy count copied buf \<Rightarrow>
          s\<lparr>co_consumer := CCopy count (insert b copied) (buf(b := slots (co_layout s) (batchAddr (tail (co_layout s)) b)))\<rparr>)"

definition popStore :: "conc \<Rightarrow> conc" where
  "popStore s =
     (case co_consumer s of
        CIdle \<Rightarrow> s
      | CCopy count copied buf \<Rightarrow>
          let l = co_layout s
          in s\<lparr>co_layout := l\<lparr>tail := tail l + of_nat count\<rparr>, co_consumer := CIdle,
               co_popped := co_popped s @ map buf [0..<count * kFrameSize]\<rparr>)"

definition closeStore :: "conc \<Rightarrow> conc" where
  "closeStore s = s\<lparr>co_layout := (co_layout s)\<lparr>closedFlag := 1\<rparr>\<rparr>"

definition pushedFrames :: "conc \<Rightarrow> nat" where
  "pushedFrames s = length (co_pushed s) div kFrameSize"

definition poppedCount :: "conc \<Rightarrow> nat" where
  "poppedCount s = length (co_popped s) div kFrameSize"

inductive concReach :: "conc \<Rightarrow> bool" where
  start: "concReach emptyConc"
| load_tail: "concReach s \<Longrightarrow> co_producer s = PIdle \<Longrightarrow> co_seenTail s \<le> t \<Longrightarrow> t \<le> poppedCount s \<Longrightarrow>
    concReach (pushLoad t frames s)"
| copy_in: "concReach s \<Longrightarrow> co_producer s = PCopy count frames copied \<Longrightarrow> b < count * kFrameSize \<Longrightarrow>
    concReach (pushByte b s)"
| store_head: "concReach s \<Longrightarrow> co_producer s = PCopy count frames {..<count * kFrameSize} \<Longrightarrow> concReach (pushStore s)"
| close_producer: "concReach s \<Longrightarrow> co_producer s = PIdle \<Longrightarrow> concReach (closeStore s)"
| load_head: "concReach s \<Longrightarrow> co_consumer s = CIdle \<Longrightarrow> co_seenHead s \<le> h \<Longrightarrow> h \<le> pushedFrames s \<Longrightarrow>
    concReach (popLoad h room s)"
| copy_out: "concReach s \<Longrightarrow> co_consumer s = CCopy count copied buf \<Longrightarrow> b < count * kFrameSize \<Longrightarrow>
    concReach (popByte b s)"
| store_tail: "concReach s \<Longrightarrow> co_consumer s = CCopy count {..<count * kFrameSize} buf \<Longrightarrow> concReach (popStore s)"


section \<open>Addresses\<close>

lemma capacityBytes_frames: "capacityBytes = capacityFrames * kFrameSize"
  by (simp add: capacityFrames_def capacityBytes_def kFrameSize_def)

text \<open>Counters wrap around at a multiple of the capacity, so the address follows the byte's position.\<close>

lemma unat_counter: "unat (of_nat k :: u64) mod capacityFrames = k mod capacityFrames"
  unfolding unat_of_nat by (rule mod_mod_cancel) (use capacityFrames_dvd in simp)

lemma batchAddr_position:
  assumes "b < capacityBytes"
  shows "batchAddr (of_nat k) b = (k * kFrameSize + b) mod capacityBytes"
proof -
  define i where "i = k mod capacityFrames"
  have i: "i < capacityFrames" by (simp add: i_def)
  have p: "(k * kFrameSize + b) mod capacityBytes = (i * kFrameSize + b) mod capacityBytes"
    unfolding i_def capacityBytes_frames by (metis mod_add_left_eq mod_mult_mult2)
  have f: "(capacityFrames - i) * kFrameSize = capacityBytes - i * kFrameSize"
    by (simp add: capacityBytes_frames diff_mult_distrib)
  have le: "i * kFrameSize \<le> capacityBytes" using i by (simp add: capacityBytes_frames)
  show ?thesis
    unfolding batchAddr_def Let_def unat_counter i_def [symmetric] f p
    using assms le by (auto simp: mod_if not_less le_diff_conv)
qed

lemma apart: "p < q \<Longrightarrow> q < p + capacityBytes \<Longrightarrow> p mod capacityBytes \<noteq> q mod capacityBytes"
  by (metis add_diff_cancel_left' dvd_imp_le le_add_diff_inverse less_imp_le linorder_not_le mod_eq_dvd_iff_nat
      nat_add_left_cancel_less zero_less_diff)


text \<open>Positions of the bytes of a batch.\<close>

lemma batch_byte:
  assumes "n * kFrameSize \<le> q" and "q < (n + c) * kFrameSize"
  obtains b where "q = n * kFrameSize + b" and "b < c * kFrameSize"
  using that [of "q - n * kFrameSize"] assms by (simp add: add_mult_distrib)

lemma batch_within:
  assumes "m + c \<le> n" and "b < c * kFrameSize"
  shows "m * kFrameSize + b < n * kFrameSize"
proof -
  have "m * kFrameSize + b < (m + c) * kFrameSize" using assms(2) by (simp add: add_mult_distrib)
  also have "\<dots> \<le> n * kFrameSize" using assms(1) by (rule mult_le_mono1)
  finally show ?thesis .
qed


section \<open>The invariant\<close>

text \<open>
  \<open>n\<close> and \<open>m\<close> are the numbers of frames pushed and popped. Each byte between them is in its place;
  the producer writes behind the newest and less than a round ahead of the oldest byte that it
  knows to be in use, the consumer reads between the two.
\<close>

definition producerInv :: "nat \<Rightarrow> conc \<Rightarrow> bool" where
  "producerInv n s =
     (case co_producer s of
        PIdle \<Rightarrow> True
      | PCopy count frames copied \<Rightarrow> 0 < count \<and> n + count \<le> co_seenTail s + capacityFrames \<and>
          count * kFrameSize \<le> length frames \<and> copied \<subseteq> {..<count * kFrameSize} \<and>
          (\<forall>b \<in> copied. slots (co_layout s) ((n * kFrameSize + b) mod capacityBytes) = frames ! b))"

definition consumerInv :: "nat \<Rightarrow> conc \<Rightarrow> bool" where
  "consumerInv m s =
     (case co_consumer s of
        CIdle \<Rightarrow> True
      | CCopy count copied buf \<Rightarrow> 0 < count \<and> m + count \<le> co_seenHead s \<and> copied \<subseteq> {..<count * kFrameSize} \<and>
          (\<forall>b \<in> copied. buf b = co_pushed s ! (m * kFrameSize + b)))"

definition concInv :: "nat \<Rightarrow> nat \<Rightarrow> conc \<Rightarrow> bool" where
  "concInv n m s \<longleftrightarrow>
     length (co_pushed s) = n * kFrameSize \<and> length (co_popped s) = m * kFrameSize \<and>
     head (co_layout s) = of_nat n \<and> tail (co_layout s) = of_nat m \<and>
     co_seenTail s \<le> m \<and> m \<le> co_seenHead s \<and> co_seenHead s \<le> n \<and> n \<le> co_seenTail s + capacityFrames \<and>
     co_popped s = take (m * kFrameSize) (co_pushed s) \<and>
     (\<forall>p. m * kFrameSize \<le> p \<and> p < n * kFrameSize \<longrightarrow> slots (co_layout s) (p mod capacityBytes) = co_pushed s ! p) \<and>
     producerInv n s \<and> consumerInv m s"

lemma concInvD:
  assumes "concInv n m s"
  shows "length (co_pushed s) = n * kFrameSize" "length (co_popped s) = m * kFrameSize"
    and "head (co_layout s) = of_nat n" "tail (co_layout s) = of_nat m"
    and "co_seenTail s \<le> m" "m \<le> co_seenHead s" "co_seenHead s \<le> n" "n \<le> co_seenTail s + capacityFrames"
    and "co_popped s = take (m * kFrameSize) (co_pushed s)"
    and "\<And>p. m * kFrameSize \<le> p \<Longrightarrow> p < n * kFrameSize \<Longrightarrow> slots (co_layout s) (p mod capacityBytes) = co_pushed s ! p"
    and "producerInv n s" "consumerInv m s"
  using assms by (simp_all add: concInv_def)

lemma counts: "concInv n m s \<Longrightarrow> pushedFrames s = n \<and> poppedCount s = m"
  by (simp add: concInv_def pushedFrames_def poppedCount_def)

text \<open>The distance of two counters is exact while the frames between them fit the ring.\<close>

lemma counter_distance:
  assumes "j \<le> k" and "k \<le> j + capacityFrames"
  shows "unat (of_nat k - of_nat j :: u64) = k - j"
proof -
  have "(of_nat k - of_nat j :: u64) = of_nat (k - j)" using assms(1) by (simp add: of_nat_diff)
  moreover have "k - j < 2 ^ 64" using assms(2) capacityFrames_lt by simp
  ultimately show ?thesis by (simp add: unat_of_nat)
qed

lemma pushLoad_inv:
  assumes "concInv n m s" and "co_producer s = PIdle" and "co_seenTail s \<le> t" and "t \<le> poppedCount s"
  shows "concInv n m (pushLoad t frames s)"
proof -
  note i = concInvD [OF assms(1)]
  have t: "t \<le> m" "n \<le> t + capacityFrames" using assms(3,4) counts [OF assms(1)] i(8) by simp_all
  then have d: "unat (head (co_layout s) - of_nat t) = n - t"
    using i(3,6,7) counter_distance [of t n] by simp
  then have fr: "sub64 capacityFrames (unat (head (co_layout s) - of_nat t)) = capacityFrames - (n - t)" using t(2) by simp
  show ?thesis
  proof (cases "frames = [] \<or> length frames mod kFrameSize \<noteq> 0 \<or> closedFlag (co_layout s) \<noteq> 0")
    case True
    then show ?thesis using assms(1) by (simp add: pushLoad_def Let_def)
  next
    case False
    define count where "count = min (length frames div kFrameSize) (capacityFrames - (n - t))"
    have eq: "pushLoad t frames s = s\<lparr>co_seenTail := t, co_producer := if count = 0 then PIdle else PCopy count frames {}\<rparr>"
      using False by (simp add: pushLoad_def Let_def fr count_def)
    have "count * kFrameSize \<le> length frames"
      by (metis count_def div_times_less_eq_dividend le_trans min.cobounded1 mult_le_mono1)
    moreover have "n + count \<le> t + capacityFrames" using t i(6,7) by (simp add: count_def)
    ultimately show ?thesis
      unfolding eq using i t by (simp add: concInv_def producerInv_def consumerInv_def split: consumerPc.splits)
  qed
qed

lemma pushByte_inv:
  assumes "concInv n m s" and "co_producer s = PCopy count frames copied" and "b < count * kFrameSize"
  shows "concInv n m (pushByte b s)"
proof -
  note i = concInvD [OF assms(1)]
  have p: "n + count \<le> co_seenTail s + capacityFrames" "count * kFrameSize \<le> length frames" "copied \<subseteq> {..<count * kFrameSize}"
    "0 < count" "\<forall>b \<in> copied. slots (co_layout s) ((n * kFrameSize + b) mod capacityBytes) = frames ! b"
    using i(11) assms(2) by (simp_all add: producerInv_def)
  have far: "n * kFrameSize + b < m * kFrameSize + capacityBytes"
  proof -
    have "n * kFrameSize + b < (n + count) * kFrameSize" using assms(3) by (simp add: add_mult_distrib)
    also have "\<dots> \<le> (m + capacityFrames) * kFrameSize" using p(1) i(5) by (intro mult_le_mono1) simp
    finally show ?thesis by (simp add: add_mult_distrib capacityBytes_frames)
  qed
  have "count \<le> capacityFrames" using p(1) i(5-7) by simp
  then have "b < capacityBytes" using assms(3) unfolding capacityBytes_frames by (meson less_le_trans mult_le_mono1)
  then have a: "batchAddr (head (co_layout s)) b = (n * kFrameSize + b) mod capacityBytes"
    using batchAddr_position i(3) by simp
  let ?l = "(co_layout s)\<lparr>slots := (slots (co_layout s))((n * kFrameSize + b) mod capacityBytes := frames ! b)\<rparr>"
  have eq: "pushByte b s = s\<lparr>co_layout := ?l, co_producer := PCopy count frames (insert b copied)\<rparr>"
    by (simp add: pushByte_def assms(2) Let_def a)
  have keep: "slots ?l (q mod capacityBytes) = co_pushed s ! q" if "m * kFrameSize \<le> q" "q < n * kFrameSize" for q
    using i(10) [OF that] apart [of q "n * kFrameSize + b"] that far by auto
  have same: "(n * kFrameSize + c) mod capacityBytes \<noteq> (n * kFrameSize + b) mod capacityBytes" if "c \<in> copied" "c \<noteq> b" for c
  proof -
    have "c < capacityBytes"
      using that p(3) \<open>count \<le> capacityFrames\<close> unfolding capacityBytes_frames by (meson lessThan_iff less_le_trans mult_le_mono1 subsetD)
    then show ?thesis
      using apart [of "n * kFrameSize + c" "n * kFrameSize + b"] apart [of "n * kFrameSize + b" "n * kFrameSize + c"]
        \<open>b < capacityBytes\<close> that(2) by (cases "c < b") auto
  qed
  have "producerInv n (pushByte b s)"
    unfolding eq using p assms(3) same by (auto simp: producerInv_def)
  moreover have "consumerInv m (pushByte b s)"
    unfolding eq using i(12) by (simp add: consumerInv_def split: consumerPc.splits)
  ultimately show ?thesis
    unfolding eq concInv_def using i(1-9) keep by simp
qed


lemma pushStore_inv:
  assumes "concInv n m s" and "co_producer s = PCopy count frames {..<count * kFrameSize}"
  shows "concInv (n + count) m (pushStore s)"
proof -
  note i = concInvD [OF assms(1)]
  have p: "n + count \<le> co_seenTail s + capacityFrames" "count * kFrameSize \<le> length frames"
    "\<forall>b < count * kFrameSize. slots (co_layout s) ((n * kFrameSize + b) mod capacityBytes) = frames ! b"
    using i(11) assms(2) by (simp_all add: producerInv_def)
  let ?l = "(co_layout s)\<lparr>head := of_nat n + of_nat count\<rparr>" and ?new = "take (count * kFrameSize) frames"
  have eq: "pushStore s = s\<lparr>co_layout := ?l, co_producer := PIdle, co_pushed := co_pushed s @ ?new\<rparr>"
    by (simp add: pushStore_def assms(2) Let_def i(3))
  have len: "length (co_pushed s @ ?new) = (n + count) * kFrameSize" using i(1) p(2) by (simp add: add_mult_distrib)
  have mem: "slots (co_layout s) (q mod capacityBytes) = (co_pushed s @ ?new) ! q"
    if "m * kFrameSize \<le> q" "q < (n + count) * kFrameSize" for q
  proof (cases "q < n * kFrameSize")
    case True
    then show ?thesis using i(1,10) that by (simp add: nth_append)
  next
    case False
    then have "n * kFrameSize \<le> q" by simp
    from batch_byte [OF this that(2)] obtain b where b: "q = n * kFrameSize + b" "b < count * kFrameSize" .
    then show ?thesis using p(3) i(1) by (simp add: nth_append)
  qed
  have mn: "m * kFrameSize \<le> n * kFrameSize" using i(6,7) by (intro mult_le_mono1) simp
  have "co_pushed s ! (m * kFrameSize + b) = (co_pushed s @ ?new) ! (m * kFrameSize + b)"
    if "co_consumer s = CCopy c copied buf" "b \<in> copied" for b c copied buf
  proof -
    have "m + c \<le> n" "b < c * kFrameSize" using that i(7,12) by (auto simp: consumerInv_def)
    from batch_within [OF this] show ?thesis using i(1) by (simp add: nth_append)
  qed
  then have "consumerInv m (pushStore s)"
    unfolding eq using i(7,12) by (simp add: consumerInv_def split: consumerPc.splits)
  then show ?thesis
    unfolding eq concInv_def using i(1-9) p(1) len mem mn by (simp add: producerInv_def take_append)
qed

lemma closeStore_inv: "concInv n m s \<Longrightarrow> concInv n m (closeStore s)"
  unfolding concInv_def closeStore_def producerInv_def consumerInv_def
  by (simp split: producerPc.splits consumerPc.splits)

lemma popLoad_inv:
  assumes "concInv n m s" and "co_consumer s = CIdle" and "co_seenHead s \<le> h" and "h \<le> pushedFrames s"
  shows "concInv n m (popLoad h room s)"
proof -
  note i = concInvD [OF assms(1)]
  have h: "m \<le> h" "h \<le> n" using assms(3,4) counts [OF assms(1)] i(6) by simp_all
  then have "unat (of_nat h - tail (co_layout s)) = h - m"
    using i(4,5,8) counter_distance [of m h] by simp
  then show ?thesis
    using i h by (auto simp: popLoad_def Let_def concInv_def producerInv_def consumerInv_def split: producerPc.splits)
qed

lemma popByte_inv:
  assumes "concInv n m s" and "co_consumer s = CCopy count copied buf" and "b < count * kFrameSize"
  shows "concInv n m (popByte b s)"
proof -
  note i = concInvD [OF assms(1)]
  have c: "0 < count" "m + count \<le> co_seenHead s" "copied \<subseteq> {..<count * kFrameSize}"
    "\<forall>b \<in> copied. buf b = co_pushed s ! (m * kFrameSize + b)"
    using i(12) assms(2) by (simp_all add: consumerInv_def)
  have "count \<le> capacityFrames" using c(2) i(5,7,8) by simp
  then have "b < capacityBytes" using assms(3) unfolding capacityBytes_frames by (meson less_le_trans mult_le_mono1)
  then have a: "batchAddr (tail (co_layout s)) b = (m * kFrameSize + b) mod capacityBytes"
    using batchAddr_position i(4) by simp
  have "m * kFrameSize + b < n * kFrameSize"
    using batch_within [of m count n b] assms(3) c(2) i(7) by simp
  then have "slots (co_layout s) (batchAddr (tail (co_layout s)) b) = co_pushed s ! (m * kFrameSize + b)"
    unfolding a by (intro i(10)) simp_all
  then have "consumerInv m (popByte b s)"
    using c assms(2,3) by (auto simp: popByte_def consumerInv_def)
  moreover have "producerInv n (popByte b s)"
    using i(11) assms(2) by (simp add: popByte_def producerInv_def split: producerPc.splits)
  ultimately show ?thesis using i assms(2) by (simp add: concInv_def popByte_def)
qed

lemma popStore_inv:
  assumes "concInv n m s" and "co_consumer s = CCopy count {..<count * kFrameSize} buf"
  shows "concInv n (m + count) (popStore s)"
proof -
  note i = concInvD [OF assms(1)]
  have c: "m + count \<le> co_seenHead s" "\<forall>b < count * kFrameSize. buf b = co_pushed s ! (m * kFrameSize + b)"
    using i(12) assms(2) by (simp_all add: consumerInv_def)
  let ?l = "(co_layout s)\<lparr>tail := of_nat m + of_nat count\<rparr>"
  let ?new = "map buf [0..<count * kFrameSize]"
  have eq: "popStore s = s\<lparr>co_layout := ?l, co_consumer := CIdle, co_popped := co_popped s @ ?new\<rparr>"
    by (simp add: popStore_def assms(2) Let_def i(4))
  have le: "(m + count) * kFrameSize \<le> length (co_pushed s)"
    unfolding i(1) using c(1) i(7) by (intro mult_le_mono1) simp
  have "co_popped s @ ?new = take ((m + count) * kFrameSize) (co_pushed s)"
  proof (rule nth_equalityI)
    show "length (co_popped s @ ?new) = length (take ((m + count) * kFrameSize) (co_pushed s))"
      using le i(2) by (simp add: add_mult_distrib)
    fix q assume "q < length (co_popped s @ ?new)"
    then have q: "q < (m + count) * kFrameSize" using i(2) by (simp add: add_mult_distrib)
    show "(co_popped s @ ?new) ! q = take ((m + count) * kFrameSize) (co_pushed s) ! q"
    proof (cases "q < m * kFrameSize")
      case True
      then have "(co_popped s @ ?new) ! q = take (m * kFrameSize) (co_pushed s) ! q"
        using i(2,9) by (simp add: nth_append)
      with True q show ?thesis by simp
    next
      case False
      then obtain b where b: "q = m * kFrameSize + b" "b < count * kFrameSize"
        using q batch_byte [of m q count] by (metis not_less)
      then show ?thesis using c(2) i(2) q by (simp add: nth_append)
    qed
  qed
  moreover have "(m + count) * kFrameSize \<le> p \<Longrightarrow> m * kFrameSize \<le> p" for p by (simp add: add_mult_distrib)
  moreover have "producerInv n (popStore s)"
    using i(11) unfolding eq by (simp add: producerInv_def split: producerPc.splits)
  ultimately show ?thesis
    unfolding eq concInv_def using i(1-8,10) c(1) le by (simp add: consumerInv_def add_mult_distrib)
qed

lemma concReach_inv: "concReach s \<Longrightarrow> \<exists>n m. concInv n m s"
proof (induction rule: concReach.induct)
  case start
  have "concInv 0 0 emptyConc"
    by (simp add: concInv_def emptyConc_def emptyLayout_def producerInv_def consumerInv_def)
  then show ?case by blast
next
  case (load_tail s t frames)
  then show ?case using pushLoad_inv by blast
next
  case (copy_in s count frames copied b)
  then show ?case using pushByte_inv by blast
next
  case (store_head s count frames)
  then show ?case using pushStore_inv by blast
next
  case (close_producer s)
  then show ?case using closeStore_inv by blast
next
  case (load_head s h room)
  then show ?case using popLoad_inv by blast
next
  case (copy_out s count copied buf b)
  then show ?case using popByte_inv by blast
next
  case (store_tail s count buf)
  then show ?case using popStore_inv by blast
qed


text \<open>The frames in shared memory are the bytes that were pushed and not popped.\<close>

lemma contents_pending:
  assumes "concInv n m s"
  shows "contents (co_layout s) = chunks kFrameSize (drop (m * kFrameSize) (co_pushed s))" (is "?a = ?b")
proof (rule nth_equalityI)
  note i = concInvD [OF assms]
  have q: "queued (co_layout s) = n - m"
    using i(3-8) counter_distance [of m n] by (simp add: queued_def)
  show "length ?a = length ?b" using i(1) by (simp add: q length_chunks diff_mult_distrib [symmetric])
  fix k assume "k < length ?a"
  then have k: "m + k < n" by (simp add: q)
  have u: "(unat (tail (co_layout s)) + k) mod capacityFrames = (m + k) mod capacityFrames"
    using unat_counter [of m] unfolding i(4) by (metis mod_add_left_eq)
  have "slot_at (slots (co_layout s)) ((m + k) mod capacityFrames) = take kFrameSize (drop ((m + k) * kFrameSize) (co_pushed s))"
    (is "?x = ?y")
  proof (rule nth_equalityI)
    have "(m + k) * kFrameSize + kFrameSize \<le> n * kFrameSize" using mult_le_mono1 [of "Suc (m + k)" n kFrameSize] k by simp
    then show "length ?x = length ?y" by (simp add: i(1))
    fix j assume "j < length ?x"
    then have j: "j < kFrameSize" by simp
    have p: "(m + k) * kFrameSize + j < n * kFrameSize" using batch_within [of "m + k" 1 n j] k j by simp
    have "((m + k) * kFrameSize + j) mod capacityBytes = (m + k) mod capacityFrames * kFrameSize + j"
    proof -
      have "(m + k) mod capacityFrames * kFrameSize + j < capacityBytes"
        using batch_within [of "(m + k) mod capacityFrames" 1 capacityFrames j] j by (simp add: capacityBytes_frames Suc_le_eq)
      then show ?thesis
        unfolding capacityBytes_frames by (metis mod_add_left_eq mod_less mod_mult_mult2)
    qed
    with i(10) [OF _ p] have "slots (co_layout s) ((m + k) mod capacityFrames * kFrameSize + j) = co_pushed s ! ((m + k) * kFrameSize + j)"
      by (simp add: add_mult_distrib)
    moreover have "(m + k) * kFrameSize \<le> length (co_pushed s)" using k by (simp add: i(1))
    ultimately show "?x ! j = ?y ! j" using j by (simp add: slot_at_def memcpy_out_def)
  qed
  moreover have "?b ! k = take kFrameSize (drop ((m + k) * kFrameSize) (co_pushed s))"
    using k by (subst nth_chunks) (simp_all add: i(1) diff_mult_distrib [symmetric] add_mult_distrib add.commute)
  moreover have "k < n - m" using k by simp
  ultimately show "?a ! k = ?b ! k" by (simp add: contents_def q u)
qed


section \<open>A batch without interference\<close>

text \<open>Copying the bytes one by one, in any order, leaves the memory of the two \<open>memcpy\<close> calls.\<close>

lemma writeBatch_two:
  defines "first \<equiv> \<lambda>h. capacityFrames - unat h mod capacityFrames"
  shows "writeBatch mem h count frames =
    (if count \<le> first h then memcpy_in mem (unat h mod capacityFrames * kFrameSize) (take (count * kFrameSize) frames)
     else memcpy_in (memcpy_in mem (unat h mod capacityFrames * kFrameSize) (take (first h * kFrameSize) frames)) 0
       (take ((count - first h) * kFrameSize) (drop (first h * kFrameSize) frames)))"
  by (auto simp: writeBatch_def first_def Let_def min_def)

lemma writeBatch_byte:
  assumes "count \<le> capacityFrames" and "count * kFrameSize \<le> length frames" and "b < count * kFrameSize"
  shows "writeBatch mem h count frames (batchAddr h b) = frames ! b"
proof -
  define index where "index = unat h mod capacityFrames"
  define first where "first = capacityFrames - index"
  have i: "index < capacityFrames" by (simp add: index_def)
  note w = writeBatch_two [of mem h count frames, folded index_def, folded first_def]
  have a: "batchAddr h b = (if b < first * kFrameSize then index * kFrameSize + b else b - first * kFrameSize)"
    by (simp add: batchAddr_def Let_def index_def first_def)
  show ?thesis
  proof (cases "count \<le> first")
    case True
    then have "b < first * kFrameSize" using assms(3) by (meson less_le_trans mult_le_mono1)
    with True assms show ?thesis by (simp add: w a memcpy_in_def)
  next
    case False
    then have "first * kFrameSize \<le> count * kFrameSize" by simp
    then have le: "first * kFrameSize \<le> length frames" using assms(2) by (rule le_trans)
    have room: "(count - first) * kFrameSize \<le> index * kFrameSize"
      using assms(1) i by (intro mult_le_mono1) (simp add: first_def)
    have len: "length (take (first * kFrameSize) frames) = first * kFrameSize"
      "length (take ((count - first) * kFrameSize) (drop (first * kFrameSize) frames)) = (count - first) * kFrameSize"
      using assms(2) le by (simp_all add: diff_mult_distrib)
    show ?thesis
    proof (cases "b < first * kFrameSize")
      case True
      moreover have "\<not> index * kFrameSize + b < (count - first) * kFrameSize" using room by linarith
      ultimately show ?thesis using False len by (simp add: w a memcpy_in_def)
    next
      case b: False
      then have "b - first * kFrameSize < (count - first) * kFrameSize"
        using assms(3) by (simp add: diff_mult_distrib)
      with False b len assms le show ?thesis by (simp add: w a memcpy_in_def)
    qed
  qed
qed

lemma writeBatch_elsewhere:
  assumes "count \<le> capacityFrames" and "count * kFrameSize \<le> length frames" and "a \<notin> batchAddr h ` {..<count * kFrameSize}"
  shows "writeBatch mem h count frames a = mem a"
proof (rule ccontr)
  define index where "index = unat h mod capacityFrames"
  define first where "first = capacityFrames - index"
  note w = writeBatch_two [of mem h count frames, folded index_def, folded first_def]
  have addr: "batchAddr h b = (if b < first * kFrameSize then index * kFrameSize + b else b - first * kFrameSize)" for b
    by (simp add: batchAddr_def Let_def index_def first_def)
  assume "writeBatch mem h count frames a \<noteq> mem a"
  then consider (one) "index * kFrameSize \<le> a" "a < index * kFrameSize + min count first * kFrameSize"
    | (two) "first < count" "a < (count - first) * kFrameSize"
    using assms(2) by (fastforce simp: w memcpy_in_def min_def diff_mult_distrib split: if_splits)
  then show False
  proof cases
    case one
    let ?b = "a - index * kFrameSize"
    have "?b < min count first * kFrameSize" using one by simp
    then have "?b < count * kFrameSize" "?b < first * kFrameSize"
      by (meson less_le_trans min.cobounded1 min.cobounded2 mult_le_mono1)+
    moreover have "batchAddr h ?b = a" using one calculation(2) by (simp add: addr)
    ultimately show False using assms(3) by (metis imageI lessThan_iff)
  next
    case two
    let ?b = "a + first * kFrameSize"
    have "?b < count * kFrameSize" using two by (simp add: diff_mult_distrib)
    moreover have "batchAddr h ?b = a" by (simp add: addr)
    ultimately show False using assms(3) by (metis imageI lessThan_iff)
  qed
qed


text \<open>The order in which the bytes are copied does not matter.\<close>

lemma pushBytes_result:
  assumes "co_producer s = PCopy count frames copied"
  shows "fold pushByte order s = s\<lparr>co_layout := (co_layout s)\<lparr>slots := fold (\<lambda>b mem. mem(batchAddr (head (co_layout s)) b := frames ! b)) order
      (slots (co_layout s))\<rparr>, co_producer := PCopy count frames (set order \<union> copied)\<rparr>"
  using assms
proof (induction order arbitrary: s copied)
  case (Cons b order)
  let ?s = "pushByte b s"
  have "co_producer ?s = PCopy count frames (insert b copied)" using Cons.prems by (simp add: pushByte_def Let_def)
  from Cons.IH [OF this] show ?case using Cons.prems by (simp add: pushByte_def Let_def)
qed simp

lemma fold_update_off: "a \<notin> f ` set order \<Longrightarrow> fold (\<lambda>b mem. mem(f b := g b)) order mem a = mem a"
  by (induction order arbitrary: mem) auto

lemma fold_update_at:
  "(\<And>b. b \<in> set order \<Longrightarrow> f b = a \<Longrightarrow> g b = v) \<Longrightarrow> a \<in> f ` set order \<Longrightarrow> fold (\<lambda>b mem. mem(f b := g b)) order mem a = v"
proof (induction order arbitrary: mem)
  case (Cons b order)
  have step: "fold (\<lambda>b mem. mem(f b := g b)) (b # order) mem = fold (\<lambda>b mem. mem(f b := g b)) order (mem(f b := g b))"
    by simp
  show ?case
  proof (cases "a \<in> f ` set order")
    case True
    show ?thesis unfolding step by (rule Cons.IH) (use Cons.prems True in auto)
  next
    case False
    then show ?thesis unfolding step fold_update_off [OF False] using Cons.prems by auto
  qed
qed simp

lemma pushBytes_writeBatch:
  assumes "set order = {..<count * kFrameSize}" and "count \<le> capacityFrames" and "count * kFrameSize \<le> length frames"
  shows "fold (\<lambda>b mem. mem(batchAddr h b := frames ! b)) order mem = writeBatch mem h count frames"
proof
  fix a
  show "fold (\<lambda>b mem. mem(batchAddr h b := frames ! b)) order mem a = writeBatch mem h count frames a"
  proof (cases "a \<in> batchAddr h ` set order")
    case True
    show ?thesis
    proof (rule fold_update_at [OF _ True])
      fix b assume "b \<in> set order" "batchAddr h b = a"
      then show "frames ! b = writeBatch mem h count frames a" using writeBatch_byte [OF assms(2,3)] assms(1) by auto
    qed
  next
    case False
    then show ?thesis using fold_update_off [OF False] writeBatch_elsewhere [OF assms(2,3)] assms(1) by metis
  qed
qed

lemma popBytes_result:
  assumes "co_consumer s = CCopy count copied buf"
  shows "fold popByte order s = s\<lparr>co_consumer := CCopy count (set order \<union> copied)
      (\<lambda>b. if b \<in> set order then slots (co_layout s) (batchAddr (tail (co_layout s)) b) else buf b)\<rparr>"
  using assms
proof (induction order arbitrary: s copied buf)
  case (Cons b order)
  let ?s = "popByte b s" and ?buf = "buf(b := slots (co_layout s) (batchAddr (tail (co_layout s)) b))"
  have "co_consumer ?s = CCopy count (insert b copied) ?buf" using Cons.prems by (simp add: popByte_def)
  from Cons.IH [OF this] show ?case using Cons.prems by (auto simp: popByte_def fun_eq_iff)
qed simp

lemma readBatch_byte:
  assumes "count \<le> capacityFrames" and "count * kFrameSize \<le> length frames" and "b < count * kFrameSize"
  shows "readBatch mem t count frames ! b = mem (batchAddr t b)"
proof -
  define index where "index = unat t mod capacityFrames"
  define first where "first = capacityFrames - index"
  have r: "readBatch mem t count frames =
      (let buf = overwrite frames 0 (memcpy_out mem (index * kFrameSize) (min count first * kFrameSize))
       in if count \<le> first then buf else overwrite buf (first * kFrameSize) (memcpy_out mem 0 ((count - first) * kFrameSize)))"
    by (auto simp: readBatch_def index_def first_def Let_def min_def)
  have a: "batchAddr t b = (if b < first * kFrameSize then index * kFrameSize + b else b - first * kFrameSize)"
    by (simp add: batchAddr_def Let_def index_def first_def)
  show ?thesis
  proof (cases "count \<le> first")
    case True
    then have "b < first * kFrameSize" using assms(3) by (meson less_le_trans mult_le_mono1)
    with True assms show ?thesis by (simp add: r a overwrite_def memcpy_out_def min_def nth_append)
  next
    case False
    then have "first * kFrameSize \<le> count * kFrameSize" by simp
    then have le: "first * kFrameSize \<le> length frames" using assms(2) by (rule le_trans)
    have "min count first = first" using False by simp
    with False le assms show ?thesis
      by (auto simp: r a overwrite_def memcpy_out_def nth_append Let_def diff_mult_distrib not_less)
  qed
qed


lemma push_steps:
  assumes "concInv n m s" and "m_layout ring = Some (co_layout s)" and "co_producer s = PIdle"
    and "tryPushBatch frames ring = (pushed, ring1)" and "set order = {..<pushed * kFrameSize}"
  shows "m_layout ring1 = Some (co_layout (pushStore (fold pushByte order (pushLoad m frames s))))"
proof (cases "frames = [] \<or> length frames mod kFrameSize \<noteq> 0 \<or> closedFlag (co_layout s) \<noteq> 0")
  case True
  with assms show ?thesis
    by (auto simp: tryPushBatch_def producerClosed_def pushLoad_def pushStore_def)
next
  case False
  let ?l = "co_layout s"
  note i = concInvD [OF assms(1)]
  define count where "count = min (length frames div kFrameSize) (sub64 capacityFrames (unat (head ?l - of_nat m)))"
  have d: "unat (head ?l - of_nat m) = n - m" using i(3,5-8) counter_distance [of m n] by simp
  have count: "count \<le> capacityFrames" "count * kFrameSize \<le> length frames"
    unfolding count_def using i(5-8) d by (simp, metis div_times_less_eq_dividend le_trans min.cobounded1 mult_le_mono1)
  have t: "(pushed, ring1) = (if count = 0 then (0, ring) else (count, ring\<lparr>m_layout := Some
      (?l\<lparr>slots := writeBatch (slots ?l) (head ?l) count frames, head := head ?l + of_nat count\<rparr>)\<rparr>))"
    using assms(2,4) False i(4) by (simp add: tryPushBatch_def producerClosed_def Let_def cong: if_cong flip: count_def)
  have l: "pushLoad m frames s = s\<lparr>co_seenTail := m, co_producer := if count = 0 then PIdle else PCopy count frames {}\<rparr>"
    using False by (simp add: pushLoad_def Let_def count_def)
  show ?thesis
  proof (cases "count = 0")
    case True
    with t l assms(2,3,5) show ?thesis by (simp add: pushStore_def)
  next
    case False
    then have p: "pushed = count" using t by simp
    have "co_producer (pushLoad m frames s) = PCopy count frames {}" using l False by simp
    from pushBytes_result [OF this, of order]
      pushBytes_writeBatch [OF assms(5) [unfolded p] count, of "head ?l" "slots ?l"]
    show ?thesis using t l False by (simp add: pushStore_def Let_def)
  qed
qed

lemma length_readBatch:
  assumes "count \<le> capacityFrames" and "count * kFrameSize \<le> length buf"
  shows "length (readBatch mem t count buf) = length buf"
proof -
  have "length (concat (map (\<lambda>i. slot_at mem ((unat t + i) mod capacityFrames)) [0..<count])) = count * kFrameSize"
    using length_concat_frames [of "map (\<lambda>i. slot_at mem ((unat t + i) mod capacityFrames)) [0..<count]"]
    by (simp add: isFrame_def)
  then show ?thesis using assms by (simp add: readBatch_eq [OF assms])
qed

lemma pop_steps:
  assumes "concInv n m s" and "m_layout ring = Some (co_layout s)" and "co_consumer s = CIdle"
    and "tryPopBatch buf ring = (popped, buf2, ring2)" and "set order = {..<popped * kFrameSize}"
  defines "s2 \<equiv> popStore (fold popByte order (popLoad n (length buf) s))"
  shows "m_layout ring2 = Some (co_layout s2) \<and> co_popped s2 = co_popped s @ take (popped * kFrameSize) buf2"
proof (cases "buf = [] \<or> length buf mod kFrameSize \<noteq> 0")
  case True
  with assms show ?thesis by (auto simp: tryPopBatch_def popLoad_def popStore_def)
next
  case False
  let ?l = "co_layout s"
  note i = concInvD [OF assms(1)]
  define count where "count = min (length buf div kFrameSize) (unat (of_nat n - tail ?l))"
  have d: "unat (of_nat n - tail ?l) = n - m" using i(4-8) counter_distance [of m n] by simp
  have count: "count \<le> capacityFrames" "count * kFrameSize \<le> length buf"
    unfolding count_def using i(5-8) d by (simp, metis div_times_less_eq_dividend le_trans min.cobounded1 mult_le_mono1)
  have t: "(popped, buf2, ring2) = (if count = 0 then (0, buf, ring) else (count, readBatch (slots ?l) (tail ?l) count buf,
      ring\<lparr>m_layout := Some (?l\<lparr>tail := tail ?l + of_nat count\<rparr>)\<rparr>))"
    using assms(2,4) False i(3) by (simp add: tryPopBatch_def Let_def cong: if_cong flip: count_def)
  have l: "popLoad n (length buf) s = s\<lparr>co_seenHead := n, co_consumer := if count = 0 then CIdle else CCopy count {} (\<lambda>_. 0)\<rparr>"
    using False by (simp add: popLoad_def Let_def count_def)
  show ?thesis
  proof (cases "count = 0")
    case True
    with t l assms(2,3,5) show ?thesis by (simp add: s2_def popStore_def)
  next
    case False
    then have p: "popped = count" using t by simp
    let ?f = "\<lambda>b. if b \<in> set order then slots ?l (batchAddr (tail ?l) b) else 0"
    have "co_consumer (popLoad n (length buf) s) = CCopy count {} (\<lambda>_. 0)" using l False by simp
    from popBytes_result [OF this, of order] have s2: "s2 = popStore (s\<lparr>co_seenHead := n, co_consumer := CCopy count (set order) ?f\<rparr>)"
      unfolding s2_def l using False by (simp cong: if_cong)
    have "map ?f [0..<count * kFrameSize] = take (count * kFrameSize) (readBatch (slots ?l) (tail ?l) count buf)"
    proof (rule nth_equalityI)
      show "length (map ?f [0..<count * kFrameSize]) = length (take (count * kFrameSize) (readBatch (slots ?l) (tail ?l) count buf))"
        using length_readBatch [OF count] count(2) by simp
      fix b assume "b < length (map ?f [0..<count * kFrameSize])"
      then have "b < count * kFrameSize" by simp
      then show "map ?f [0..<count * kFrameSize] ! b = take (count * kFrameSize) (readBatch (slots ?l) (tail ?l) count buf) ! b"
        using readBatch_byte [OF count] assms(5) p by simp
    qed
    then show ?thesis using t False p by (simp add: s2 popStore_def Let_def)
  qed
qed


section \<open>Properties\<close>

text \<open>C2: the ring is a first-in first-out queue under every interleaving of a producer and a
  consumer, down to single bytes and with loads that return old counters: the bytes popped so far
  followed by the frames in shared memory are the bytes pushed so far, and the memory never holds
  more than its capacity, also when the 64-bit counters have wrapped around.\<close>

theorem conc_fifo:
  assumes "concReach s"
  shows "co_pushed s = co_popped s @ concat (contents (co_layout s)) \<and>
    length (contents (co_layout s)) \<le> capacityFrames \<and>
    queued (co_layout s) + poppedCount s = pushedFrames s"
proof -
  obtain n m where inv: "concInv n m s" using concReach_inv [OF assms] by blast
  note i = concInvD [OF inv]
  have "length (drop (m * kFrameSize) (co_pushed s)) = (n - m) * kFrameSize" by (simp add: i(1) diff_mult_distrib)
  then have "concat (chunks kFrameSize (drop (m * kFrameSize) (co_pushed s))) = drop (m * kFrameSize) (co_pushed s)"
    by (intro concat_chunks_whole) simp_all
  moreover have "queued (co_layout s) = n - m" using i(3-8) counter_distance [of m n] by (simp add: queued_def)
  moreover have "length (contents (co_layout s)) \<le> capacityFrames" using calculation(2) i(5-8) by simp
  ultimately show ?thesis using i(5-9) counts [OF inv] contents_pending [OF inv] by simp
qed

text \<open>C3: while both sides copy, the bytes that the producer may write and those that the consumer may
  read are disjoint and lie within the slots, so there is no data race on them and no frame is
  read half written; every byte the consumer has copied is the one pushed at its position.\<close>

theorem conc_race_free:
  assumes "concReach s" and "co_producer s = PCopy count frames copied" and "co_consumer s = CCopy count' copied' buf"
  shows "batchAddr (head (co_layout s)) ` {..<count * kFrameSize} \<inter> batchAddr (tail (co_layout s)) ` {..<count' * kFrameSize} = {} \<and>
    batchAddr (head (co_layout s)) ` {..<count * kFrameSize} \<union> batchAddr (tail (co_layout s)) ` {..<count' * kFrameSize} \<subseteq> {..<capacityBytes} \<and>
    (\<forall>b \<in> copied'. buf b = co_pushed s ! (length (co_popped s) + b))"
proof -
  obtain n m where inv: "concInv n m s" using concReach_inv [OF assms(1)] by blast
  note i = concInvD [OF inv]
  have p: "n + count \<le> co_seenTail s + capacityFrames" using i(11) assms(2) by (simp add: producerInv_def)
  have c: "m + count' \<le> n" "\<forall>b \<in> copied'. buf b = co_pushed s ! (m * kFrameSize + b)"
    using i(7,12) assms(3) by (simp_all add: consumerInv_def)
  have small: "b < capacityBytes" if "b < k * kFrameSize" "k \<le> capacityFrames" for b k
    using that unfolding capacityBytes_frames by (meson less_le_trans mult_le_mono1)
  have le: "count \<le> capacityFrames" "count' \<le> capacityFrames" using p c(1) i(5-8) by simp_all
  have w: "batchAddr (head (co_layout s)) b = (n * kFrameSize + b) mod capacityBytes" if "b < count * kFrameSize" for b
    using batchAddr_position [OF small [OF that le(1)]] i(3) by simp
  have r: "batchAddr (tail (co_layout s)) b = (m * kFrameSize + b) mod capacityBytes" if "b < count' * kFrameSize" for b
    using batchAddr_position [OF small [OF that le(2)]] i(4) by simp
  have "(n * kFrameSize + b) mod capacityBytes \<noteq> (m * kFrameSize + b') mod capacityBytes"
    if "b < count * kFrameSize" "b' < count' * kFrameSize" for b b'
  proof -
    have "m * kFrameSize + b' < n * kFrameSize + b" using batch_within [OF c(1) that(2)] by simp
    moreover have "n * kFrameSize + b < (m + capacityFrames) * kFrameSize"
      using batch_within [of n count "m + capacityFrames" b] p i(5) that(1) by simp
    then have "n * kFrameSize + b < m * kFrameSize + b' + capacityBytes" by (simp add: add_mult_distrib capacityBytes_frames)
    ultimately show ?thesis using apart by metis
  qed
  then show ?thesis using w r c(2) i(2) by (auto simp: capacityBytes_def)
qed

text \<open>C16: the steps implement the batch operations: the steps of a push that is not interfered with,
  its bytes copied in any order, leave exactly the shared memory that \<open>tryPushBatch\<close> leaves, and
  the steps of such a pop leave the memory of \<open>tryPopBatch\<close> and take out the bytes that it copies
  to its argument.\<close>

theorem conc_steps_are_batches:
  assumes "concReach s" and "m_layout ring = Some (co_layout s)" and "co_producer s = PIdle" and "co_consumer s = CIdle"
    and "tryPushBatch frames ring = (pushed, ring1)" and "set order = {..<pushed * kFrameSize}"
    and "tryPopBatch buf ring = (popped, buf2, ring2)" and "set order2 = {..<popped * kFrameSize}"
  shows "m_layout ring1 = Some (co_layout (pushStore (fold pushByte order (pushLoad (poppedCount s) frames s)))) \<and>
    (let s2 = popStore (fold popByte order2 (popLoad (pushedFrames s) (length buf) s))
     in m_layout ring2 = Some (co_layout s2) \<and> co_popped s2 = co_popped s @ take (popped * kFrameSize) buf2)"
proof -
  obtain n m where inv: "concInv n m s" using concReach_inv [OF assms(1)] by blast
  show ?thesis
    using push_steps [OF inv assms(2,3,5,6)] pop_steps [OF inv assms(2,4,7,8)] counts [OF inv] by simp
qed


section \<open>A concrete interleaving\<close>

text \<open>One frame pushed, a second push and a pop under way at the same time.\<close>

lemma concReach_pushBytes:
  "concReach s \<Longrightarrow> co_producer s = PCopy count frames copied \<Longrightarrow> \<forall>b \<in> set order. b < count * kFrameSize \<Longrightarrow>
   concReach (fold pushByte order s)"
proof (induction order arbitrary: s copied)
  case (Cons b order)
  have "concReach (pushByte b s)" using concReach.copy_in [OF Cons.prems(1,2)] Cons.prems(3) by simp
  moreover have "co_producer (pushByte b s) = PCopy count frames (insert b copied)"
    using Cons.prems(2) by (simp add: pushByte_def Let_def)
  ultimately show ?case using Cons.IH Cons.prems(3) by simp
qed simp

lemma encode_nonempty [simp]: "encode r \<noteq> []"
  using length_encode [of r] kFrameSize_pos by (metis list.size(3))

definition demoLoaded :: conc where
  "demoLoaded = pushLoad 0 (encode emptyRecord) emptyConc"

definition demoPushed :: conc where
  "demoPushed = pushStore (fold pushByte [0..<kFrameSize] demoLoaded)"

definition demoBusy :: conc where
  "demoBusy = popLoad 1 kFrameSize (pushLoad 0 (encode emptyRecord) demoPushed)"

lemma demoLoaded_fields: "co_producer demoLoaded = PCopy 1 (encode emptyRecord) {}" "co_consumer demoLoaded = CIdle"
  "head (co_layout demoLoaded) = 0" "tail (co_layout demoLoaded) = 0" "closedFlag (co_layout demoLoaded) = 0"
  "co_pushed demoLoaded = []" "co_popped demoLoaded = []" "co_seenTail demoLoaded = 0" "co_seenHead demoLoaded = 0"
  by (simp_all add: demoLoaded_def pushLoad_def emptyConc_def emptyLayout_def Let_def ring_defs)

lemma demoPushed_fields: "co_producer demoPushed = PIdle" "co_consumer demoPushed = CIdle"
  "head (co_layout demoPushed) = 1" "tail (co_layout demoPushed) = 0" "closedFlag (co_layout demoPushed) = 0"
  "length (co_pushed demoPushed) = kFrameSize" "co_popped demoPushed = []" "co_seenTail demoPushed = 0" "co_seenHead demoPushed = 0"
  unfolding demoPushed_def pushBytes_result [OF demoLoaded_fields(1)]
  by (simp_all add: pushStore_def Let_def demoLoaded_fields)

lemma demoPushed_reach: "concReach demoPushed"
proof -
  have "concReach demoLoaded" unfolding demoLoaded_def
    by (rule concReach.load_tail [OF concReach.start]) (simp_all add: emptyConc_def)
  then have "concReach (fold pushByte [0..<kFrameSize] demoLoaded)"
    by (rule concReach_pushBytes [OF _ demoLoaded_fields(1)]) simp
  moreover have "co_producer (fold pushByte [0..<kFrameSize] demoLoaded) = PCopy 1 (encode emptyRecord) {..<1 * kFrameSize}"
    unfolding pushBytes_result [OF demoLoaded_fields(1)] by auto
  ultimately show ?thesis unfolding demoPushed_def by (rule concReach.store_head)
qed

lemma demoBusy_fields: "co_producer demoBusy = PCopy 1 (encode emptyRecord) {}" "co_consumer demoBusy = CCopy 1 {} (\<lambda>_. 0)"
  "head (co_layout demoBusy) = 1" "tail (co_layout demoBusy) = 0"
  by (simp_all add: demoBusy_def popLoad_def pushLoad_def Let_def demoPushed_fields ring_defs)

lemma demoBusy_reach: "concReach demoBusy"
proof -
  have "concReach (pushLoad 0 (encode emptyRecord) demoPushed)"
    by (rule concReach.load_tail [OF demoPushed_reach]) (simp_all add: demoPushed_fields)
  then show ?thesis unfolding demoBusy_def
    by (rule concReach.load_head)
      (simp_all add: pushLoad_def Let_def demoPushed_fields pushedFrames_def)
qed

theorem conc_fifo_witness:
  "co_pushed demoPushed = concat (contents (co_layout demoPushed)) \<and> queued (co_layout demoPushed) = 1"
  using conc_fifo [OF demoPushed_reach] by (simp add: demoPushed_fields poppedCount_def pushedFrames_def)

theorem conc_race_free_witness:
  "batchAddr 1 ` {..<kFrameSize} \<inter> batchAddr 0 ` {..<kFrameSize} = {}"
  using conc_race_free [OF demoBusy_reach demoBusy_fields(1,2)] by (simp add: demoBusy_fields)

theorem conc_steps_are_batches_witness:
  "\<exists>pushed popped ring1 ring2 buf2. let ring = \<lparr>m_layout = Some (co_layout demoPushed), m_mappingSize = 0\<rparr> in
     tryPushBatch (encode emptyRecord) ring = (pushed, ring1) \<and> tryPopBatch (replicate kFrameSize 0) ring = (popped, buf2, ring2) \<and>
     m_layout ring1 = Some (co_layout (pushStore (fold pushByte [0..<pushed * kFrameSize]
       (pushLoad (poppedCount demoPushed) (encode emptyRecord) demoPushed))))"
proof -
  let ?r = "\<lparr>m_layout = Some (co_layout demoPushed), m_mappingSize = 0\<rparr>"
  obtain pushed ring1 where p: "tryPushBatch (encode emptyRecord) ?r = (pushed, ring1)" by fastforce
  obtain popped buf2 ring2 where q: "tryPopBatch (replicate kFrameSize 0) ?r = (popped, buf2, ring2)" by (metis prod_cases3)
  have "m_layout ?r = Some (co_layout demoPushed)" "set [0..<pushed * kFrameSize] = {..<pushed * kFrameSize}"
    "set [0..<popped * kFrameSize] = {..<popped * kFrameSize}" by auto
  from conc_steps_are_batches [OF demoPushed_reach this(1) demoPushed_fields(1,2) p this(2) q this(3)] p q
  show ?thesis by (auto simp: Let_def)
qed

end
