(* ===== verification/LoadGen.thy ===== *)
theory LoadGen
  imports Config Ring
begin

text \<open>
  The load generator of \<open>bench/telemetry_load.cpp\<close>: its command line, the loop around \<open>send\<close> and
  the main loop that fills a buffer with encoded records and sends it. The answers of \<open>send\<close> are
  a script, an answer \<open>n\<close> takes up to \<open>n\<close> of the bytes offered; \<open>ls_wire\<close> are the bytes taken so
  far. \<open>None\<close> is a call that blocks, or a loop that does not end. The printed statistics are not
  modelled.
\<close>

section \<open>Command line\<close>

record loadOptions =
  lo_frames :: nat
  lo_batchFrames :: nat
  lo_port :: nat

definition defaultLoad :: loadOptions where
  "defaultLoad = \<lparr>lo_frames = 100000, lo_batchFrames = 128, lo_port = 19000\<rparr>"

definition parseNumber :: "string \<Rightarrow> nat \<Rightarrow> bool \<times> nat" where
  "parseNumber text dest =
     (if text = [] then (False, dest)
      else case from_chars sizeBits text dest of
        (v, ptr, ec) \<Rightarrow> (ec = NoErrc \<and> ptr = length text, v))"

text \<open>\<open>--help\<close> leaves the program with success; otherwise the result is whether the options are valid.\<close>

datatype loadParse = LoadHelp | LoadRejected | LoadAccepted loadOptions

definition loadInRange :: "loadOptions \<Rightarrow> bool" where
  "loadInRange o' \<longleftrightarrow> 1 \<le> lo_frames o' \<and> lo_frames o' \<le> 1000000 \<and> 1 \<le> lo_batchFrames o' \<and> lo_batchFrames o' \<le> 4096 \<and>
     1 \<le> lo_port o'"

fun parseOptions :: "string list \<Rightarrow> loadOptions \<Rightarrow> loadParse" where
  "parseOptions [] o' = (if loadInRange o' then LoadAccepted o' else LoadRejected)"
| "parseOptions [key] o' = (if key = ''--help'' then LoadHelp else LoadRejected)"
| "parseOptions (key # text # rest) o' =
     (if key = ''--help'' then LoadHelp
      else if key \<noteq> ''--frames'' \<and> key \<noteq> ''--batch-frames'' \<and> key \<noteq> ''--port'' then LoadRejected
      else case parseNumber text 0 of
        (False, _) \<Rightarrow> LoadRejected
      | (True, v) \<Rightarrow>
          if key = ''--frames'' then parseOptions rest (o'\<lparr>lo_frames := v\<rparr>)
          else if key = ''--batch-frames'' then parseOptions rest (o'\<lparr>lo_batchFrames := v\<rparr>)
          else if 65535 < v then LoadRejected
          else parseOptions rest (o'\<lparr>lo_port := v\<rparr>))"


section \<open>Sending\<close>

fun sendAll :: "nat sysret list \<Rightarrow> bytes \<Rightarrow> nat \<Rightarrow> bytes \<Rightarrow> (bool \<times> nat sysret list \<times> bytes) option" where
  "sendAll [] data offset wire = (if offset < length data then None else Some (True, [], wire))"
| "sendAll (r # script) data offset wire =
     (if offset < length data
      then case r of
        Ret w \<Rightarrow>
          (let n = min w (length data - offset)
           in if 0 < n then sendAll script data (offset + n) (wire @ take n (drop offset data))
              else Some (False, script, wire))
      | Fail e \<Rightarrow> if e = EINTR then sendAll script data offset wire else Some (False, script, wire)
      else Some (True, r # script, wire))"

text \<open>The bits of the double 1.0.\<close>

definition oneD :: double where "oneD = 0x3FF0000000000000"

definition loadRecord :: "nat \<Rightarrow> telemetryRecord" where
  "loadRecord k = \<lparr>sensorId = 1, metricId = 2, timestampNs = of_nat k, valueD = oneD\<rparr>"

text \<open>The loop that fills the buffer: \<open>std::copy\<close> of frame \<open>i\<close> to its place.\<close>

fun fillBatch :: "nat \<Rightarrow> nat \<Rightarrow> nat \<Rightarrow> bytes \<Rightarrow> bytes" where
  "fillBatch sent i 0 buf = buf"
| "fillBatch sent i (Suc n) buf =
     fillBatch sent (Suc i) n (overwrite buf (i * kFrameSize) (encode (loadRecord (sent + i + 1))))"

record loadState =
  ls_buffer :: bytes
  ls_send :: "nat sysret list"
  ls_wire :: bytes
  ls_closed :: bool

text \<open>The main loop; with a batch of zero frames it would not end.\<close>

function loadLoop :: "loadOptions \<Rightarrow> nat \<Rightarrow> loadState \<Rightarrow> (bool \<times> nat \<times> loadState) option" where
  "loadLoop opts sent s =
     (if \<not> sent < lo_frames opts then Some (True, sent, s)
      else
        let count = min (lo_batchFrames opts) (lo_frames opts - sent);
            buf = fillBatch sent 0 count (ls_buffer s)
        in if count = 0 then None
           else case sendAll (ls_send s) (take (count * kFrameSize) buf) 0 (ls_wire s) of
             None \<Rightarrow> None
           | Some (ok, script, wire) \<Rightarrow>
               let s1 = s\<lparr>ls_buffer := buf, ls_send := script, ls_wire := wire\<rparr>
               in if \<not> ok then Some (False, sent, s1) else loadLoop opts (sent + count) s1)"
  by pat_completeness auto
termination
  by (relation "measure (\<lambda>(opts, sent, _). lo_frames opts - sent)") auto

declare loadLoop.simps [simp del]

record loadAnswers =
  la_socket :: "int sysret"
  la_connect :: "unit sysret"
  la_send :: "nat sysret list"
  la_shutdown :: "unit sysret"

definition newLoad :: "loadOptions \<Rightarrow> nat sysret list \<Rightarrow> loadState" where
  "newLoad opts script = \<lparr>ls_buffer = replicate (lo_batchFrames opts * kFrameSize) 0, ls_send = script, ls_wire = [], ls_closed = False\<rparr>"

definition loadMain :: "string list \<Rightarrow> loadAnswers \<Rightarrow> (exitCode \<times> loadState) option" where
  "loadMain args env =
     (case parseOptions args defaultLoad of
        LoadHelp \<Rightarrow> Some (EXIT_SUCCESS, newLoad defaultLoad [])
      | LoadRejected \<Rightarrow> Some (EXIT_FAILURE, newLoad defaultLoad [])
      | LoadAccepted opts \<Rightarrow>
          (case la_socket env of
             Fail _ \<Rightarrow> Some (EXIT_FAILURE, newLoad opts [])
           | Ret _ \<Rightarrow>
               (case la_connect env of
                  Fail _ \<Rightarrow> Some (EXIT_FAILURE, (newLoad opts [])\<lparr>ls_closed := True\<rparr>)
                | Ret _ \<Rightarrow>
                    (case loadLoop opts 0 (newLoad opts (la_send env)) of
                       None \<Rightarrow> None
                     | Some (ok, sent, s) \<Rightarrow>
                         if \<not> ok then Some (EXIT_FAILURE, s\<lparr>ls_closed := True\<rparr>)
                         else (case la_shutdown env of
                                 Fail _ \<Rightarrow> Some (EXIT_FAILURE, s\<lparr>ls_closed := True\<rparr>)
                               | Ret _ \<Rightarrow> Some (EXIT_SUCCESS, s\<lparr>ls_closed := True\<rparr>))))))"


section \<open>What is sent\<close>

lemma sendAll_result:
  "sendAll script data offset wire = Some (ok, script', wire') \<Longrightarrow> offset \<le> length data \<Longrightarrow>
   \<exists>k. wire' = wire @ take k (drop offset data) \<and> (ok \<longrightarrow> offset + k = length data) \<and> offset + k \<le> length data"
proof (induction script data offset wire rule: sendAll.induct)
  case (1 data offset wire)
  then show ?case by (intro exI [of _ 0]) (auto split: if_splits)
next
  case (2 r script data offset wire)
  show ?case
  proof (cases "offset < length data")
    case False
    with 2 show ?thesis by (intro exI [of _ 0]) auto
  next
    case True
    show ?thesis
    proof (cases r)
      case (Fail e)
      with 2 True show ?thesis by (cases "e = EINTR") (auto intro!: exI [of _ 0])
    next
      case (Ret w)
      let ?n = "min w (length data - offset)"
      show ?thesis
      proof (cases "0 < ?n")
        case n: True
        then have "sendAll script data (offset + ?n) (wire @ take ?n (drop offset data)) = Some (ok, script', wire')"
          using 2(3) True Ret by (simp add: Let_def)
        moreover have "offset + ?n \<le> length data" using True by simp
        ultimately obtain k where
          k: "wire' = (wire @ take ?n (drop offset data)) @ take k (drop (offset + ?n) data)"
          "ok \<longrightarrow> offset + ?n + k = length data" "offset + ?n + k \<le> length data"
          using 2(1) [OF True Ret refl n] by blast
        have "take (?n + k) (drop offset data) = take ?n (drop offset data) @ take k (drop (offset + ?n) data)"
          unfolding take_add by (simp add: add.commute)
        with k show ?thesis by (intro exI [of _ "?n + k"]) auto
      next
        case False
        with 2(3) True Ret show ?thesis by (auto simp: Let_def intro!: exI [of _ 0])
      qed
    qed
  qed
qed

text \<open>The frames of a run of records.\<close>

definition loadFrames :: "nat \<Rightarrow> nat \<Rightarrow> bytes list" where
  "loadFrames sent n = map (\<lambda>i. encode (loadRecord (sent + i + 1))) [0..<n]"

lemma length_concat_loadFrames: "length (concat (loadFrames sent n)) = n * kFrameSize"
  by (simp add: loadFrames_def length_concat comp_def sum_list_triv)

lemma loadFrames_add: "loadFrames sent (m + n) = loadFrames sent m @ loadFrames (sent + m) n"
  unfolding loadFrames_def by (intro nth_equalityI) (auto simp: nth_append add.assoc)

lemma fillBatch_result:
  assumes "(i + n) * kFrameSize \<le> length buf" and "take (i * kFrameSize) buf = concat (loadFrames sent i)"
  shows "length (fillBatch sent i n buf) = length buf \<and>
    take ((i + n) * kFrameSize) (fillBatch sent i n buf) = concat (loadFrames sent (i + n))"
  using assms
proof (induction n arbitrary: i buf)
  case (Suc n)
  let ?f = "encode (loadRecord (sent + i + 1))"
  let ?b = "overwrite buf (i * kFrameSize) ?f"
  have le: "i * kFrameSize + kFrameSize \<le> length buf" using Suc.prems(1) by (simp add: add_mult_distrib)
  have len: "length ?b = length buf" using le by simp
  have "take (Suc i * kFrameSize) ?b = concat (loadFrames sent (Suc i))"
  proof -
    have "?b = (concat (loadFrames sent i) @ ?f) @ drop (i * kFrameSize + kFrameSize) buf"
      using Suc.prems(2) by (simp add: overwrite_def)
    moreover have "length (concat (loadFrames sent i) @ ?f) = Suc i * kFrameSize" by (simp add: length_concat_loadFrames)
    moreover have "concat (loadFrames sent (Suc i)) = concat (loadFrames sent i) @ ?f" by (simp add: loadFrames_def)
    ultimately show ?thesis by (metis append_eq_conv_conj)
  qed
  with Suc.IH [of "Suc i" ?b] Suc.prems(1) len show ?case by simp
qed simp

lemma loadLoop_result:
  assumes "loadLoop opts sent s = Some (ok, sent', s')" and "length (ls_buffer s) = lo_batchFrames opts * kFrameSize"
    and "sent \<le> lo_frames opts"
  shows "\<exists>k. ls_wire s' = ls_wire s @ take k (concat (loadFrames sent (lo_frames opts - sent))) \<and>
    (ok \<longrightarrow> sent' = lo_frames opts \<and> k = (lo_frames opts - sent) * kFrameSize)"
  using assms
proof (induction opts sent s rule: loadLoop.induct)
  case (1 opts sent s)
  show ?case
  proof (cases "sent < lo_frames opts")
    case False
    with 1(2,4) show ?thesis by (auto simp: loadLoop.simps [of opts sent s] loadFrames_def)
  next
    case True
    define count where "count = min (lo_batchFrames opts) (lo_frames opts - sent)"
    define buf where "buf = fillBatch sent 0 count (ls_buffer s)"
    define todo where "todo = lo_frames opts - (sent + count)"
    have c: "sent + count \<le> lo_frames opts" using True by (simp add: count_def)
    have room: "(0 + count) * kFrameSize \<le> length (ls_buffer s)" using 1(3) by (simp add: count_def)
    have b: "length buf = length (ls_buffer s)" "take (count * kFrameSize) buf = concat (loadFrames sent count)"
      using fillBatch_result [OF room] by (simp_all add: buf_def loadFrames_def)
    have pos: "count \<noteq> 0" using 1(2) True by (auto simp: loadLoop.simps [of opts sent s] Let_def count_def split: if_splits)
    have all: "lo_frames opts - sent = count + todo" using c by (simp add: todo_def)
    note fr = loadFrames_add [of sent count todo]
    obtain ok1 script wire where sa: "sendAll (ls_send s) (concat (loadFrames sent count)) 0 (ls_wire s) = Some (ok1, script, wire)"
      and rest: "(if \<not> ok1 then Some (False, sent, s\<lparr>ls_buffer := buf, ls_send := script, ls_wire := wire\<rparr>)
        else loadLoop opts (sent + count) (s\<lparr>ls_buffer := buf, ls_send := script, ls_wire := wire\<rparr>)) = Some (ok, sent', s')"
      using 1(2) True pos b(2)
      by (auto simp: loadLoop.simps [of opts sent s] Let_def buf_def [symmetric] count_def [symmetric] split: option.splits)
    from sendAll_result [OF sa] obtain k where k: "wire = ls_wire s @ take k (concat (loadFrames sent count))"
      "ok1 \<longrightarrow> k = count * kFrameSize" "k \<le> count * kFrameSize" by (auto simp: length_concat_loadFrames)
    show ?thesis
    proof (cases ok1)
      case False
      with rest k show ?thesis
        unfolding all fr by (intro exI [of _ k]) (auto simp: length_concat_loadFrames)
    next
      case ok1: True
      let ?s = "s\<lparr>ls_buffer := buf, ls_send := script, ls_wire := wire\<rparr>"
      have lp: "loadLoop opts (sent + count) ?s = Some (ok, sent', s')" using rest ok1 by simp
      have "\<exists>k. ls_wire s' = ls_wire ?s @ take k (concat (loadFrames (sent + count) todo)) \<and>
          (ok \<longrightarrow> sent' = lo_frames opts \<and> k = todo * kFrameSize)"
        using 1(1) [of count buf "(ok1, script, wire)" ok1 "(script, wire)" script wire ?s] True pos sa b ok1 lp c 1(3)
        by (simp add: count_def [symmetric] buf_def [symmetric] todo_def)
      then obtain j where j: "ls_wire s' = wire @ take j (concat (loadFrames (sent + count) todo))"
        "ok \<longrightarrow> sent' = lo_frames opts \<and> j = todo * kFrameSize" by auto
      show ?thesis
        unfolding all fr using j k ok1
        by (intro exI [of _ "count * kFrameSize + j"]) (auto simp: length_concat_loadFrames add_mult_distrib)
    qed
  qed
qed


section \<open>The sender finishes\<close>

text \<open>
  Every answer of \<open>send\<close> takes at least a byte, and there is one per byte.
\<close>

lemma sendAll_works:
  "enough n (\<lambda>w. 0 < w) script \<Longrightarrow> offset \<le> length data \<Longrightarrow> length data - offset \<le> n \<Longrightarrow>
   \<exists>script' wire'. sendAll script data offset wire = Some (True, script', wire') \<and>
     enough (n - (length data - offset)) (\<lambda>w. 0 < w) script'"
proof (induction script arbitrary: n offset wire)
  case Nil
  then show ?case by simp
next
  case (Cons r script)
  show ?case
  proof (cases "offset < length data")
    case False
    with Cons.prems show ?thesis by simp
  next
    case True
    show ?thesis
    proof (cases r)
      case (Fail e)
      with Cons True show ?thesis by simp
    next
      case (Ret w)
      let ?k = "min w (length data - offset)"
      have w: "0 < w" "enough (n - 1) (\<lambda>w. 0 < w) script" using Cons.prems(1) Ret by simp_all
      then have k: "0 < ?k" "offset + ?k \<le> length data" using True by simp_all
      have "length data - (offset + ?k) \<le> n - 1" using Cons.prems(3) k by linarith
      from Cons.IH [OF w(2) k(2) this, of "wire @ take ?k (drop offset data)"] obtain script' wire' where
        i: "sendAll script data (offset + ?k) (wire @ take ?k (drop offset data)) = Some (True, script', wire')"
        "enough (n - 1 - (length data - (offset + ?k))) (\<lambda>w. 0 < w) script'" by blast
      have "n - (length data - offset) \<le> n - 1 - (length data - (offset + ?k))" using k True by linarith
      with i k(1) Ret True show ?thesis using enough_mono [OF i(2)] by (simp add: Let_def)
    qed
  qed
qed

lemma loadLoop_works:
  "length (ls_buffer s) = lo_batchFrames opts * kFrameSize \<Longrightarrow> 0 < lo_batchFrames opts \<Longrightarrow> sent \<le> lo_frames opts \<Longrightarrow>
   enough ((lo_frames opts - sent) * kFrameSize) (\<lambda>w. 0 < w) (ls_send s) \<Longrightarrow>
   \<exists>sent' s'. loadLoop opts sent s = Some (True, sent', s')"
proof (induction opts sent s rule: loadLoop.induct)
  case (1 opts sent s)
  show ?case
  proof (cases "sent < lo_frames opts")
    case False
    then show ?thesis by (simp add: loadLoop.simps [of opts sent s])
  next
    case True
    define count where "count = min (lo_batchFrames opts) (lo_frames opts - sent)"
    define buf where "buf = fillBatch sent 0 count (ls_buffer s)"
    have c: "0 < count" "sent + count \<le> lo_frames opts" using True 1(3) by (simp_all add: count_def)
    have room: "(0 + count) * kFrameSize \<le> length (ls_buffer s)" using 1(2) by (simp add: count_def)
    have b: "length buf = length (ls_buffer s)" "length (take (count * kFrameSize) buf) = count * kFrameSize"
      using conjunct1 [OF fillBatch_result [OF room]] room by (simp_all add: buf_def loadFrames_def)
    have "count * kFrameSize \<le> (lo_frames opts - sent) * kFrameSize" using c by (intro mult_le_mono1) simp
    with sendAll_works [OF 1(5), of 0 "take (count * kFrameSize) buf" "ls_wire s"] b(2) obtain script wire where
      sa: "sendAll (ls_send s) (take (count * kFrameSize) buf) 0 (ls_wire s) = Some (True, script, wire)"
      "enough ((lo_frames opts - sent) * kFrameSize - count * kFrameSize) (\<lambda>w. 0 < w) script" by auto
    let ?s = "s\<lparr>ls_buffer := buf, ls_send := script, ls_wire := wire\<rparr>"
    have "enough ((lo_frames opts - (sent + count)) * kFrameSize) (\<lambda>w. 0 < w) (ls_send ?s)"
      using sa(2) by (simp add: diff_mult_distrib add_mult_distrib)
    then have "\<exists>sent' s'. loadLoop opts (sent + count) ?s = Some (True, sent', s')"
      using 1(1) [of count buf "(True, script, wire)" True "(script, wire)" script wire ?s] True c sa(1) b(1) 1(2,3)
      by (simp add: count_def [symmetric] buf_def [symmetric])
    then show ?thesis
      using sa(1) True c(1)
      by (simp add: loadLoop.simps [of opts sent s] Let_def buf_def [symmetric] count_def [symmetric])
  qed
qed


section \<open>Properties\<close>

lemma parseOptions_accepts: "parseOptions args o' = LoadAccepted opts \<Longrightarrow> lo_port o' \<le> 65535 \<Longrightarrow> loadInRange opts \<and> lo_port opts \<le> 65535"
  by (induction args o' rule: parseOptions.induct) (auto split: if_splits prod.splits bool.splits)

text \<open>The load generator sends what it announces: with success the bytes on the wire are the
  frames with timestamps 1 to N, encoded one after the other, for an N between 1 and 1000000
  given by the options, whatever the size of the batches and of the pieces that \<open>send\<close> takes; on
  every failure they are a prefix of these.\<close>

lemma loadMain_result:
  assumes "parseOptions args defaultLoad = LoadAccepted opts" and "loadMain args env = Some (code, s)"
  shows "(\<exists>k. ls_wire s = take k (concat (loadFrames 0 (lo_frames opts)))) \<and>
    (code = EXIT_SUCCESS \<longrightarrow> ls_wire s = concat (loadFrames 0 (lo_frames opts)) \<and> ls_closed s) \<and>
    1 \<le> lo_frames opts \<and> lo_frames opts \<le> 1000000"
proof -
  have r: "loadInRange opts" using parseOptions_accepts [OF assms(1)] by (simp add: defaultLoad_def)
  consider (early) "code = EXIT_FAILURE" "ls_wire s = ls_wire (newLoad opts [])"
    | (sent) ok n s1 where "loadLoop opts 0 (newLoad opts (la_send env)) = Some (ok, n, s1)" "s = s1\<lparr>ls_closed := True\<rparr>"
      "code = EXIT_SUCCESS \<longrightarrow> ok"
    using assms by (auto simp: loadMain_def split: sysret.splits option.splits if_splits)
  then have "(\<exists>k. ls_wire s = take k (concat (loadFrames 0 (lo_frames opts)))) \<and>
    (code = EXIT_SUCCESS \<longrightarrow> ls_wire s = concat (loadFrames 0 (lo_frames opts)) \<and> ls_closed s)"
  proof cases
    case early
    then show ?thesis by (intro conjI exI [of _ 0]) (simp_all add: newLoad_def)
  next
    case sent
    from loadLoop_result [OF sent(1)] obtain k where "ls_wire s1 = take k (concat (loadFrames 0 (lo_frames opts)))"
      "ok \<longrightarrow> k = lo_frames opts * kFrameSize" by (auto simp: newLoad_def)
    with sent(2,3) show ?thesis by (auto simp: length_concat_loadFrames)
  qed
  with r show ?thesis by (simp add: loadInRange_def)
qed

lemma loadMain_works:
  assumes "parseOptions args defaultLoad = LoadAccepted opts" and "la_socket env = Ret fd" and "la_connect env = Ret ()"
    and "la_shutdown env = Ret ()" and "enough (lo_frames opts * kFrameSize) (\<lambda>w. 0 < w) (la_send env)"
  shows "\<exists>s. loadMain args env = Some (EXIT_SUCCESS, s)"
proof -
  have "0 < lo_batchFrames opts" using parseOptions_accepts [OF assms(1)] by (simp add: defaultLoad_def loadInRange_def)
  then obtain n s where "loadLoop opts 0 (newLoad opts (la_send env)) = Some (True, n, s)"
    using loadLoop_works [of "newLoad opts (la_send env)" opts 0] assms(5) by (auto simp: newLoad_def)
  then show ?thesis using assms(1-4) by (simp add: loadMain_def)
qed

text \<open>The load generator finishes: with valid options, a connection and a kernel that takes at
  least one byte per call of \<open>send\<close>, interruptions aside, it returns with success after at most
  one answer per byte.\<close>

theorem load_finishes:
  assumes "parseOptions args defaultLoad = LoadAccepted opts" and "la_socket env = Ret fd" and "la_connect env = Ret ()"
    and "la_shutdown env = Ret ()" and "enough (lo_frames opts * kFrameSize) (\<lambda>w. 0 < w) (la_send env)"
  shows "\<exists>s. loadMain args env = Some (EXIT_SUCCESS, s)"
  by (rule loadMain_works [OF assms])

definition demoLoadArgs :: "string list" where
  "demoLoadArgs = [''--frames'', ''3'', ''--batch-frames'', ''2'', ''--port'', ''9000'']"

definition demoLoad :: loadAnswers where
  "demoLoad = \<lparr>la_socket = Ret 3, la_connect = Ret (), la_send = replicate 96 (Ret 40), la_shutdown = Ret ()\<rparr>"

lemma demoLoad_options: "parseOptions demoLoadArgs defaultLoad = LoadAccepted \<lparr>lo_frames = 3, lo_batchFrames = 2, lo_port = 9000\<rparr>"
  by (simp add: demoLoadArgs_def defaultLoad_def parseNumber_def from_chars_def sizeBits_def is_digit_def dec_value_def
      digit_value_def loadInRange_def Let_def)

lemma demoLoad_runs: "\<exists>s. loadMain demoLoadArgs demoLoad = Some (EXIT_SUCCESS, s)"
  by (rule loadMain_works [OF demoLoad_options]) (simp_all add: demoLoad_def kFrameSize_def)

theorem load_finishes_witness: "\<exists>s. loadMain demoLoadArgs demoLoad = Some (EXIT_SUCCESS, s)"
  by (rule load_finishes [OF demoLoad_options]) (simp_all add: demoLoad_def kFrameSize_def)

end
