(* ===== verification/Profiler.thy ===== *)
theory Profiler
  imports Config EventFd
begin

text \<open>
  The controller of \<open>bench/profile_cpu.cpp\<close>: its command line, the check of the benchmark's CSV file,
  the check of the report, and \<open>runCommand\<close>, which starts a process, waits for it with a deadline
  and cleans up after it. An exception is \<open>Inl\<close> of its message. Files are given by their text;
  \<open>None\<close> is a file that cannot be opened.
\<close>

type_synonym 'a throws = "string + 'a"

section \<open>Command line\<close>

record profileOptions =
  po_frames :: nat
  po_batch :: nat
  po_port :: nat
  po_repeat :: nat
  po_timeout :: nat
  po_mode :: string
  po_output :: string
  po_perf :: string
  po_python :: string
  po_check :: bool
  po_selfTest :: bool
  po_checkWorkload :: bool

definition defaultProfile :: profileOptions where
  "defaultProfile = \<lparr>po_frames = 1000000, po_batch = 128, po_port = 19000, po_repeat = 20, po_timeout = 300,
     po_mode = ''record'', po_output = ''build-perf/cpu-profile'', po_perf = ''perf'', po_python = ''python3'',
     po_check = False, po_selfTest = False, po_checkWorkload = False\<rparr>"

definition unsignedBits :: nat where "unsignedBits = 32"

definition parseNumber_profile :: "string \<Rightarrow> nat \<Rightarrow> nat \<Rightarrow> string \<Rightarrow> nat throws" where
  "parseNumber_profile text lo hi name =
     (case from_chars unsignedBits text 0 of
        (number, ptr, ec) \<Rightarrow>
          if ec \<noteq> NoErrc \<or> ptr \<noteq> length text \<or> number < lo \<or> hi < number
          then Inl (''invalid --'' @ name @ '' (expected '' @ dec_string lo @ ''..'' @ dec_string hi @ '')'')
          else Inr number)"

text \<open>
  The options; \<open>Inr None\<close> is \<open>--help\<close>, which leaves the program.
\<close>

definition setOption :: "string \<Rightarrow> string \<Rightarrow> profileOptions \<Rightarrow> profileOptions throws" where
  "setOption key text opts =
     (if key = ''--frames'' then map_sum id (\<lambda>v. opts\<lparr>po_frames := v\<rparr>) (parseNumber_profile text 1 1000000 ''frames'')
      else if key = ''--batch'' then map_sum id (\<lambda>v. opts\<lparr>po_batch := v\<rparr>) (parseNumber_profile text 1 4096 ''batch'')
      else if key = ''--repeat'' then map_sum id (\<lambda>v. opts\<lparr>po_repeat := v\<rparr>) (parseNumber_profile text 1 20 ''repeat'')
      else if key = ''--port'' then map_sum id (\<lambda>v. opts\<lparr>po_port := v\<rparr>) (parseNumber_profile text 1 65535 ''port'')
      else if key = ''--timeout'' then map_sum id (\<lambda>v. opts\<lparr>po_timeout := v\<rparr>) (parseNumber_profile text 1 3600 ''timeout'')
      else if key = ''--mode''
      then (if text \<noteq> ''record'' \<and> text \<noteq> ''stat'' \<and> text \<noteq> ''both'' then Inl ''--mode must be record, stat or both''
            else Inr (opts\<lparr>po_mode := text\<rparr>))
      else if key = ''--output'' then Inr (opts\<lparr>po_output := text\<rparr>)
      else if key = ''--perf'' then Inr (opts\<lparr>po_perf := text\<rparr>)
      else if key = ''--python'' then Inr (opts\<lparr>po_python := text\<rparr>)
      else Inl (''unknown option: '' @ key))"

function parseOptions_profile :: "string list \<Rightarrow> profileOptions \<Rightarrow> profileOptions option throws" where
  "parseOptions_profile [] opts = Inr (Some opts)"
| "parseOptions_profile (key # rest) opts =
     (if key = ''--help'' \<or> key = ''-h'' then Inr None
      else if key = ''--check'' then parseOptions_profile rest (opts\<lparr>po_check := True\<rparr>)
      else if key = ''--self-test'' then parseOptions_profile rest (opts\<lparr>po_selfTest := True\<rparr>)
      else if key = ''--self-check-workload'' then parseOptions_profile rest (opts\<lparr>po_checkWorkload := True\<rparr>)
      else case rest of
        [] \<Rightarrow> Inl (''missing value for '' @ key)
      | text # rest' \<Rightarrow>
          (case setOption key text opts of
             Inl e \<Rightarrow> Inl e
           | Inr opts' \<Rightarrow> parseOptions_profile rest' opts'))"
  by pat_completeness auto
termination by (relation "measure (\<lambda>(args, _). length args)") auto

declare parseOptions_profile.simps [simp del]


section \<open>Lines and fields\<close>

text \<open>The lines that \<open>std::getline\<close> delivers: a last line without a newline counts unless it is empty.\<close>

function getlines :: "string \<Rightarrow> string list" where
  "getlines text =
     (if text = [] then []
      else takeWhile (\<lambda>c. c \<noteq> CHR 0x0A) text #
        (case dropWhile (\<lambda>c. c \<noteq> CHR 0x0A) text of [] \<Rightarrow> [] | _ # rest \<Rightarrow> getlines rest))"
  by pat_completeness auto
termination
proof (relation "measure length")
  fix t :: string and c rest
  assume "dropWhile (\<lambda>c. c \<noteq> CHR 0x0A) t = c # rest"
  then have "length (c # rest) \<le> length t" by (metis length_dropWhile_le)
  then show "(rest, t) \<in> measure length" by simp
qed simp

declare getlines.simps [simp del]

abbreviation cr :: char where "cr \<equiv> CHR 0x0D"

definition stripCr :: "string \<Rightarrow> string" where
  "stripCr line = (if line \<noteq> [] \<and> last line = cr then butlast line else line)"

function splitFields :: "string \<Rightarrow> string list" where
  "splitFields line =
     takeWhile (\<lambda>c. c \<noteq> CHR '','') line #
       (case dropWhile (\<lambda>c. c \<noteq> CHR '','') line of [] \<Rightarrow> [] | _ # rest \<Rightarrow> splitFields rest)"
  by pat_completeness auto
termination
proof (relation "measure length")
  fix line :: string and c rest
  assume "dropWhile (\<lambda>c. c \<noteq> CHR '','') line = c # rest"
  then have "length (c # rest) \<le> length line" by (metis length_dropWhile_le)
  then show "(rest, line) \<in> measure length" by simp
qed simp

declare splitFields.simps [simp del]

definition split_csv :: "string \<Rightarrow> string list" where
  "split_csv line = splitFields (stripCr line)"


section \<open>The benchmark's CSV file\<close>

text \<open>The lambda \<open>column\<close>.\<close>

fun findColumn :: "string \<Rightarrow> string list \<Rightarrow> nat \<Rightarrow> nat option" where
  "findColumn name [] i = None"
| "findColumn name (x # xs) i = (if x = name then Some i else findColumn name xs (Suc i))"

definition columnOf :: "string list \<Rightarrow> string \<Rightarrow> nat throws" where
  "columnOf names name =
     (case findColumn name names 0 of None \<Rightarrow> Inl (''CSV missing column '' @ name) | Some i \<Rightarrow> Inr i)"

record csvColumns =
  runCol :: nat
  batchCol :: nat
  framesCol :: nat
  bytesCol :: nat
  verifiedCol :: nat

definition csvColumnsOf :: "string list \<Rightarrow> csvColumns throws" where
  "csvColumnsOf names =
     (case columnOf names ''run'' of Inl e \<Rightarrow> Inl e
      | Inr r \<Rightarrow> (case columnOf names ''batch_frames'' of Inl e \<Rightarrow> Inl e
      | Inr b \<Rightarrow> (case columnOf names ''frames'' of Inl e \<Rightarrow> Inl e
      | Inr f \<Rightarrow> (case columnOf names ''bytes'' of Inl e \<Rightarrow> Inl e
      | Inr y \<Rightarrow> (case columnOf names ''verified_frames'' of Inl e \<Rightarrow> Inl e
      | Inr v \<Rightarrow> Inr \<lparr>runCol = r, batchCol = b, framesCol = f, bytesCol = y, verifiedCol = v\<rparr>)))))"

definition rowOk :: "csvColumns \<Rightarrow> nat \<Rightarrow> nat \<Rightarrow> nat \<Rightarrow> nat \<Rightarrow> string list \<Rightarrow> bool" where
  "rowOk c frames batch rep n vals \<longleftrightarrow>
     \<not> (rep < n \<or> vals ! runCol c \<noteq> dec_string n \<or> vals ! batchCol c \<noteq> dec_string batch \<or>
        vals ! framesCol c \<noteq> dec_string frames \<or> vals ! bytesCol c \<noteq> dec_string (frames * 32) \<or>
        vals ! verifiedCol c \<noteq> dec_string frames)"

text \<open>The loop over the rows; \<open>n\<close> rows were read so far.\<close>

fun verifyRows :: "string list \<Rightarrow> csvColumns \<Rightarrow> nat \<Rightarrow> nat \<Rightarrow> nat \<Rightarrow> nat \<Rightarrow> string list \<Rightarrow> nat throws" where
  "verifyRows names c frames batch rep n [] = Inr n"
| "verifyRows names c frames batch rep n (line # rest) =
     (if line = [] then verifyRows names c frames batch rep n rest
      else let vals = split_csv line
           in if length vals \<noteq> length names then Inl ''malformed benchmark CSV row''
              else if \<not> rowOk c frames batch rep (n + 1) vals
              then Inl (''benchmark CSV verification failed on run '' @ dec_string (n + 1))
              else verifyRows names c frames batch rep (n + 1) rest)"

definition verifyCsv :: "string \<Rightarrow> string option \<Rightarrow> nat \<Rightarrow> nat \<Rightarrow> nat \<Rightarrow> unit throws" where
  "verifyCsv path file frames batch rep =
     (case file of
        None \<Rightarrow> Inl (''benchmark did not create '' @ path)
      | Some text \<Rightarrow>
          (case getlines text of
             [] \<Rightarrow> Inl ''empty benchmark CSV''
           | header # rows \<Rightarrow>
               let names = split_csv header
               in case csvColumnsOf names of
                    Inl e \<Rightarrow> Inl e
                  | Inr c \<Rightarrow>
                      (case verifyRows names c frames batch rep 0 rows of
                         Inl e \<Rightarrow> Inl e
                       | Inr n \<Rightarrow>
                           if n \<noteq> rep
                           then Inl (''benchmark completed only '' @ dec_string n @ ''/'' @ dec_string rep @ '' runs'')
                           else Inr ())))"


section \<open>Reports and logs\<close>

text \<open>\<open>std::string::find\<close>: the position of the first occurrence.\<close>

fun isPrefix :: "string \<Rightarrow> string \<Rightarrow> bool" where
  "isPrefix [] text = True"
| "isPrefix (p # ps) [] = False"
| "isPrefix (p # ps) (c # cs) = (p = c \<and> isPrefix ps cs)"

fun findSub :: "string \<Rightarrow> string \<Rightarrow> nat option" where
  "findSub pat [] = (if pat = [] then Some 0 else None)"
| "findSub pat (c # cs) = (if isPrefix pat (c # cs) then Some 0 else map_option Suc (findSub pat cs))"

datatype reportRow = Skipped | Unresolved | Resolved

definition isBlank :: "char \<Rightarrow> bool" where
  "isBlank c \<longleftrightarrow> c = CHR '' '' \<or> c = CHR 0x09"

text \<open>
  One line of the report. The symbol is what follows the marker without leading blanks, and empty
  when there are only blanks (\<open>erase(0, npos)\<close>).
\<close>

definition reportLine :: "string \<Rightarrow> reportRow" where
  "reportLine line =
     (if findSub ''telemetry-server'' line = None then Skipped
      else case findSub ''[.]'' line of
        None \<Rightarrow> Skipped
      | Some marker \<Rightarrow>
          let symbol = dropWhile isBlank (drop (marker + 3) line)
          in if isPrefix ''0x'' symbol \<or> isPrefix ''[unknown]'' symbol then Unresolved else Resolved)"

definition countRows :: "reportRow \<Rightarrow> string list \<Rightarrow> nat" where
  "countRows k lines = length (filter (\<lambda>l. reportLine l = k) lines)"

text \<open>The lines shown are the first twelve resolved ones.\<close>

definition validateReport :: "string \<Rightarrow> string option \<Rightarrow> (nat \<times> nat \<times> string list) throws" where
  "validateReport path file =
     (case file of
        None \<Rightarrow> Inl (''cannot open '' @ path)
      | Some text \<Rightarrow>
          let lines = getlines text; resolved = countRows Resolved lines; unresolved = countRows Unresolved lines
          in if resolved = 0
             then Inl (''perf recorded no resolved telemetry-server C++ symbols. '' @
                       ''Check report.txt, perf buildid-list and the native executable copies. '' @
                       ''Docker Desktop VirtioFS may hide build IDs.'')
             else Inr (resolved, unresolved, take 12 (filter (\<lambda>l. reportLine l = Resolved) lines)))"

fun tailLines :: "string list \<Rightarrow> string list \<Rightarrow> string list" where
  "tailLines kept [] = kept"
| "tailLines kept (l # ls) = tailLines ((if length kept = 30 then drop 1 kept else kept) @ [l]) ls"

definition tail_log :: "string option \<Rightarrow> string" where
  "tail_log file =
     (case file of
        None \<Rightarrow> ''(log not created)''
      | Some text \<Rightarrow> concat (map (\<lambda>entry. entry @ nl) (tailLines [] (getlines text))))"


section \<open>Running a command\<close>

text \<open>
  What the calls of \<open>runCommand\<close> answer: \<open>None\<close> is the value 0 of a \<open>posix_spawn\<close> call. Each entry
  of \<open>sp_polls\<close> is an answer of \<open>waitpid\<close> with \<open>WNOHANG\<close> and the time in milliseconds that is read
  after it; \<open>sp_kill\<close> is the error of \<open>kill\<close>, if any, and \<open>sp_reap\<close> answers the \<open>waitpid\<close> calls after
  a timeout. The result is \<open>None\<close> while the command is still running. The error of a failed
  \<open>waitpid\<close> is read from \<open>errno\<close> after \<open>kill\<close>, which may have replaced it.
\<close>

datatype waitPoll = StillRunning | Ended waitStatus | PollFailed errno

record spawnAnswers =
  sp_actionsInit :: bool
  sp_attrInit :: bool
  sp_addopen :: "errno option"
  sp_adddup2 :: "errno option"
  sp_setflags :: "errno option"
  sp_setpgroup :: "errno option"
  sp_spawn :: "errno option"
  sp_pid :: int
  sp_start :: nat
  sp_polls :: "(waitPoll \<times> nat) list"
  sp_kill :: "errno option"
  sp_reap :: "waitStatus sysret list"

datatype commandError = SpawnInit | SpawnSetup errno | CannotStart errno | WaitError errno | TimedOut | CommandFailed string string

datatype commandCall = DestroyActions | DestroyAttr | KillGroup int | ReapedChild waitStatus | Slept

text \<open>The loop that collects the killed process.\<close>

fun reapLoop :: "waitStatus sysret list \<Rightarrow> commandCall list option" where
  "reapLoop [] = None"
| "reapLoop (Ret status # rest) = Some [ReapedChild status]"
| "reapLoop (Fail e # rest) = (if e = EINTR then reapLoop rest else Some [])"

fun waitLoop :: "spawnAnswers \<Rightarrow> nat \<Rightarrow> (waitPoll \<times> nat) list \<Rightarrow> commandCall list \<Rightarrow>
    ((commandError + waitStatus) \<times> commandCall list) option" where
  "waitLoop env deadline [] trace = None"
| "waitLoop env deadline ((poll, now) # rest) trace =
     (case poll of
        Ended status \<Rightarrow> Some (Inr status, trace @ [ReapedChild status])
      | _ \<Rightarrow>
          (case (case poll of PollFailed e \<Rightarrow> if e \<noteq> EINTR then Some e else None | _ \<Rightarrow> None) of
             Some e \<Rightarrow> Some (Inl (WaitError (case sp_kill env of None \<Rightarrow> e | Some e' \<Rightarrow> e')), trace @ [KillGroup (sp_pid env)])
           | None \<Rightarrow>
               if deadline \<le> now
               then (case reapLoop (sp_reap env) of
                       None \<Rightarrow> None
                     | Some reaped \<Rightarrow> Some (Inl TimedOut, trace @ [KillGroup (sp_pid env)] @ reaped))
               else waitLoop env deadline rest (trace @ [Slept])))"

definition commandHint :: "string \<Rightarrow> string" where
  "commandHint details =
     (if findSub ''Permission'' details \<noteq> None \<or> findSub ''permitted'' details \<noteq> None \<or>
         findSub ''perf_event'' details \<noteq> None \<or> findSub ''No permission'' details \<noteq> None
      then ''perf_event_open is restricted by the Linux kernel. Docker Desktop '' @
           ''may block it even for root. Check /proc/sys/kernel/perf_event_paranoid '' @
           ''or run on native Linux; do not add privileges to production.''
      else ''See the log above and inspect the command'' @ [CHR 0x27] @ ''s output.'')"

text \<open>The setup calls: the first one that fails decides.\<close>

definition spawnSetup :: "spawnAnswers \<Rightarrow> errno option" where
  "spawnSetup env =
     (case sp_addopen env of Some e \<Rightarrow> Some e
      | None \<Rightarrow> (case sp_adddup2 env of Some e \<Rightarrow> Some e
      | None \<Rightarrow> (case sp_setflags env of Some e \<Rightarrow> Some e
      | None \<Rightarrow> sp_setpgroup env)))"

text \<open>\<open>logFile\<close> is the log of the command as it is when the command has ended.\<close>

definition runCommand :: "spawnAnswers \<Rightarrow> string option \<Rightarrow> nat \<Rightarrow> ((commandError + unit) \<times> commandCall list) option" where
  "runCommand env logFile timeoutSeconds =
     (if \<not> sp_actionsInit env \<or> \<not> sp_attrInit env then Some (Inl SpawnInit, [])
      else
        let destroyed = [DestroyActions, DestroyAttr]
        in case spawnSetup env of
             Some e \<Rightarrow> Some (Inl (SpawnSetup e), destroyed)
           | None \<Rightarrow>
               (case sp_spawn env of
                  Some e \<Rightarrow> Some (Inl (CannotStart e), destroyed)
                | None \<Rightarrow>
                    (case waitLoop env (sp_start env + 1000 * timeoutSeconds) (sp_polls env) destroyed of
                       None \<Rightarrow> None
                     | Some (Inl e, trace) \<Rightarrow> Some (Inl e, trace)
                     | Some (Inr status, trace) \<Rightarrow>
                         if status \<noteq> Exited 0
                         then let details = tail_log logFile
                              in Some (Inl (CommandFailed details (commandHint details)), trace @ [KillGroup (sp_pid env)])
                         else Some (Inr (), trace))))"


section \<open>Fields and lines of printed files\<close>

lemma splitFields_plain: "CHR '','' \<notin> set f \<Longrightarrow> splitFields f = [f]"
proof -
  assume "CHR '','' \<notin> set f"
  then have "takeWhile (\<lambda>c. c \<noteq> CHR '','') f = f" "dropWhile (\<lambda>c. c \<noteq> CHR '','') f = []" by auto
  then show ?thesis by (subst splitFields.simps) (simp only: list.case)
qed

lemma splitFields_comma: "CHR '','' \<notin> set f \<Longrightarrow> splitFields (f @ CHR '','' # rest) = f # splitFields rest"
proof -
  assume "CHR '','' \<notin> set f"
  then have "takeWhile (\<lambda>c. c \<noteq> CHR '','') (f @ CHR '','' # rest) = f"
    "dropWhile (\<lambda>c. c \<noteq> CHR '','') (f @ CHR '','' # rest) = CHR '','' # rest"
    by (simp_all add: takeWhile_append dropWhile_append takeWhile_eq_all_conv dropWhile_eq_Nil_conv; auto)+
  then show ?thesis by (subst splitFields.simps) simp
qed

lemma getlines_line: "CHR 0x0A \<notin> set l \<Longrightarrow> getlines (l @ CHR 0x0A # rest) = l # getlines rest"
proof -
  assume "CHR 0x0A \<notin> set l"
  then have "takeWhile (\<lambda>c. c \<noteq> CHR 0x0A) (l @ CHR 0x0A # rest) = l"
    "dropWhile (\<lambda>c. c \<noteq> CHR 0x0A) (l @ CHR 0x0A # rest) = CHR 0x0A # rest"
    by (simp_all add: takeWhile_append dropWhile_append takeWhile_eq_all_conv dropWhile_eq_Nil_conv; auto)+
  then show ?thesis by (subst getlines.simps) simp
qed

text \<open>A CSV file as it is printed: fields without separators, every line ended by \<open>eol\<close>.\<close>

fun joinFields :: "string list \<Rightarrow> string" where
  "joinFields [] = []"
| "joinFields [f] = f"
| "joinFields (f # g # fs) = f @ CHR '','' # joinFields (g # fs)"

definition plainField :: "string \<Rightarrow> bool" where
  "plainField f \<longleftrightarrow> CHR '','' \<notin> set f \<and> CHR 0x0A \<notin> set f \<and> cr \<notin> set f"

definition printCsv :: "string \<Rightarrow> string list list \<Rightarrow> string" where
  "printCsv eol rows = concat (map (\<lambda>r. joinFields r @ eol) rows)"

definition isEol :: "string \<Rightarrow> bool" where
  "isEol eol \<longleftrightarrow> eol = nl \<or> eol = cr # nl"

lemma splitFields_joinFields: "fs \<noteq> [] \<Longrightarrow> list_all plainField fs \<Longrightarrow> splitFields (joinFields fs) = fs"
  by (induction fs rule: joinFields.induct) (auto simp: plainField_def splitFields_plain splitFields_comma)

lemma joinFields_chars: "list_all plainField fs \<Longrightarrow> CHR 0x0A \<notin> set (joinFields fs) \<and> cr \<notin> set (joinFields fs)"
  by (induction fs rule: joinFields.induct) (auto simp: plainField_def)

lemma stripCr_simps: "cr \<notin> set l \<Longrightarrow> stripCr l = l" "stripCr (l @ [cr]) = l"
  by (metis last_in_set stripCr_def) (simp add: stripCr_def)

text \<open>The line that \<open>getline\<close> delivers for a printed row.\<close>

definition rowLine :: "string \<Rightarrow> string list \<Rightarrow> string" where
  "rowLine eol r = joinFields r @ butlast eol"

lemma getlines_printCsv: "isEol eol \<Longrightarrow> list_all (list_all plainField) rows \<Longrightarrow> getlines (printCsv eol rows) = map (rowLine eol) rows"
proof (induction rows)
  case Nil
  show ?case by (simp add: printCsv_def getlines.simps)
next
  case (Cons r rows)
  have e: "eol = butlast eol @ nl" "CHR 0x0A \<notin> set (butlast eol)" using Cons.prems(1) by (auto simp: isEol_def)
  have n: "CHR 0x0A \<notin> set (rowLine eol r)" using Cons.prems(2) e(2) joinFields_chars by (simp add: rowLine_def)
  have "printCsv eol (r # rows) = rowLine eol r @ CHR 0x0A # printCsv eol rows"
    by (subst e(1)) (simp add: printCsv_def rowLine_def flip: e(1))
  with Cons n show ?case by (simp add: getlines_line)
qed

lemma split_rowLine: "isEol eol \<Longrightarrow> r \<noteq> [] \<Longrightarrow> list_all plainField r \<Longrightarrow> split_csv (rowLine eol r) = r"
  using joinFields_chars [of r]
  by (auto simp: split_csv_def rowLine_def isEol_def stripCr_simps splitFields_joinFields)

lemma rowLine_nonempty: "2 \<le> length r \<Longrightarrow> rowLine eol r \<noteq> []"
  by (cases r rule: joinFields.cases) (auto simp: rowLine_def)


section \<open>Columns by name\<close>

lemma findColumn_nth: "findColumn name names i = Some k \<Longrightarrow> i \<le> k \<and> k - i < length names \<and> names ! (k - i) = name"
proof (induction names arbitrary: i)
  case (Cons x xs)
  show ?case
  proof (cases "x = name")
    case False
    then have "findColumn name xs (Suc i) = Some k" using Cons.prems by simp
    from Cons.IH [OF this] have k: "k - i = Suc (k - Suc i)" "i \<le> k" "k - Suc i < length xs" "xs ! (k - Suc i) = name" by auto
    then show ?thesis by (simp only: k(1)) auto
  qed (use Cons.prems in simp)
qed simp

lemma findColumn_None: "findColumn name names i = None \<longleftrightarrow> name \<notin> set names"
  by (induction names arbitrary: i) auto

lemma findColumn_map_of:
  "findColumn name names i = Some k \<Longrightarrow> length vals = length names \<Longrightarrow> map_of (zip names vals) name = Some (vals ! (k - i))"
proof (induction names arbitrary: i vals)
  case (Cons x xs)
  obtain v vs where v: "vals = v # vs" using Cons.prems(2) by (cases vals) auto
  show ?case
  proof (cases "x = name")
    case False
    then have c: "findColumn name xs (Suc i) = Some k" using Cons.prems(1) by simp
    have "k - i = Suc (k - Suc i)" using findColumn_nth [OF c] by auto
    with Cons.IH [OF c, of vs] Cons.prems(2) False v show ?thesis by simp
  qed (use Cons.prems v in simp)
qed simp

text \<open>What a row of a complete run says, read by the names of the columns.\<close>

definition expectedFields :: "nat \<Rightarrow> nat \<Rightarrow> nat \<Rightarrow> (string \<times> string) list" where
  "expectedFields frames batch n =
     [(''run'', dec_string n), (''batch_frames'', dec_string batch), (''frames'', dec_string frames),
      (''bytes'', dec_string (frames * 32)), (''verified_frames'', dec_string frames)]"

definition goodRow :: "string list \<Rightarrow> nat \<Rightarrow> nat \<Rightarrow> nat \<Rightarrow> string list \<Rightarrow> bool" where
  "goodRow names frames batch n vals \<longleftrightarrow>
     (\<forall>(name, v) \<in> set (expectedFields frames batch n). map_of (zip names vals) name = Some v)"

lemma csvColumnsOf_iff:
  "(\<exists>c. csvColumnsOf names = Inr c) \<longleftrightarrow> {''run'', ''batch_frames'', ''frames'', ''bytes'', ''verified_frames''} \<subseteq> set names"
  by (auto simp: csvColumnsOf_def columnOf_def findColumn_None split: option.splits sum.splits)
    (metis findColumn_None option.distinct(1))+

lemma rowOk_goodRow:
  assumes "csvColumnsOf names = Inr c" and "length vals = length names"
  shows "rowOk c frames batch rep n vals \<longleftrightarrow> n \<le> rep \<and> goodRow names frames batch n vals"
proof -
  have "map_of (zip names vals) ''run'' = Some (vals ! runCol c)"
    "map_of (zip names vals) ''batch_frames'' = Some (vals ! batchCol c)"
    "map_of (zip names vals) ''frames'' = Some (vals ! framesCol c)"
    "map_of (zip names vals) ''bytes'' = Some (vals ! bytesCol c)"
    "map_of (zip names vals) ''verified_frames'' = Some (vals ! verifiedCol c)"
    using assms by (auto simp: csvColumnsOf_def columnOf_def findColumn_map_of split: option.splits sum.splits)
  then show ?thesis by (auto simp: rowOk_def goodRow_def expectedFields_def)
qed

text \<open>The rows of a file that are not blank.\<close>

definition dataRows :: "string list \<Rightarrow> string list list" where
  "dataRows lines = map split_csv (filter (\<lambda>l. l \<noteq> []) lines)"

definition goodRows :: "string list \<Rightarrow> nat \<Rightarrow> nat \<Rightarrow> nat \<Rightarrow> string list list \<Rightarrow> bool" where
  "goodRows names frames batch n rows \<longleftrightarrow>
     (\<forall>i < length rows. length (rows ! i) = length names \<and> goodRow names frames batch (n + i + 1) (rows ! i))"

lemma goodRows_Cons:
  "goodRows names frames batch n (r # rows) \<longleftrightarrow>
     length r = length names \<and> goodRow names frames batch (n + 1) r \<and> goodRows names frames batch (n + 1) rows"
  unfolding goodRows_def by (force simp: All_less_Suc2)

lemma verifyRows_iff:
  assumes "csvColumnsOf names = Inr c" and "n \<le> rep"
  shows "verifyRows names c frames batch rep n lines = Inr m \<longleftrightarrow>
    m = n + length (dataRows lines) \<and> m \<le> rep \<and> goodRows names frames batch n (dataRows lines)"
  using assms(2)
proof (induction lines arbitrary: n)
  case Nil
  then show ?case by (auto simp: dataRows_def goodRows_def)
next
  case (Cons line rest)
  let ?r = "split_csv line"
  show ?case
  proof (cases "line = [] \<or> length ?r \<noteq> length names \<or> rep < n + 1")
    case True
    then show ?thesis using Cons by (auto simp: dataRows_def goodRows_Cons rowOk_def Let_def)
  next
    case False
    then have d: "dataRows (line # rest) = ?r # dataRows rest" and "n + 1 \<le> rep" by (simp_all add: dataRows_def)
    with Cons.IH [of "n + 1"] False rowOk_goodRow [OF assms(1), of ?r] show ?thesis
      by (auto simp: goodRows_Cons)
  qed
qed

definition csvColumnNames :: "string set" where
  "csvColumnNames = {''run'', ''batch_frames'', ''frames'', ''bytes'', ''verified_frames''}"

lemma verifyCsv_iff:
  "verifyCsv path file frames batch rep = Inr () \<longleftrightarrow>
     (\<exists>text header rows. file = Some text \<and> getlines text = header # rows \<and> csvColumnNames \<subseteq> set (split_csv header) \<and>
        length (dataRows rows) = rep \<and> goodRows (split_csv header) frames batch 0 (dataRows rows))"
proof (cases "file")
  case (Some t)
  show ?thesis
  proof (cases "getlines t")
    case (Cons header rows)
    let ?names = "split_csv header"
    show ?thesis
    proof (cases "csvColumnsOf ?names")
      case (Inl e)
      then have "\<not> csvColumnNames \<subseteq> set ?names" using csvColumnsOf_iff [of ?names] by (auto simp: csvColumnNames_def)
      then show ?thesis using Some Cons Inl by (simp add: verifyCsv_def Let_def)
    next
      case (Inr c)
      then have "csvColumnNames \<subseteq> set ?names" using csvColumnsOf_iff [of ?names] unfolding csvColumnNames_def by blast
      moreover have "verifyCsv path file frames batch rep = Inr () \<longleftrightarrow> verifyRows ?names c frames batch rep 0 rows = Inr rep"
        using Some Cons Inr by (auto simp: verifyCsv_def Let_def split: sum.splits if_splits)
      ultimately show ?thesis using Some Cons verifyRows_iff [OF Inr, of 0 rep] by auto
    qed
  qed (simp add: verifyCsv_def Some)
qed (simp add: verifyCsv_def)

lemma length_columns: "csvColumnNames \<subseteq> set names \<Longrightarrow> 5 \<le> length names"
proof -
  assume "csvColumnNames \<subseteq> set names"
  then have "card csvColumnNames \<le> card (set names)" by (simp add: card_mono)
  moreover have "card csvColumnNames = 5" by (simp add: csvColumnNames_def)
  ultimately show ?thesis using card_length [of names] by linarith
qed

lemma dataRows_printed:
  assumes "isEol eol" and "list_all (list_all plainField) rows" and "list_all (\<lambda>r. 2 \<le> length r) rows"
  shows "dataRows (map (rowLine eol) rows) = rows"
  using assms(2,3)
proof (induction rows)
  case (Cons r rows)
  then have "r \<noteq> []" "rowLine eol r \<noteq> []" using rowLine_nonempty [of r eol] by auto
  then show ?case using Cons split_rowLine [OF assms(1), of r] by (simp add: dataRows_def)
qed (simp add: dataRows_def)

lemma verifyCsv_printed:
  assumes "isEol eol" and "list_all (list_all plainField) (names # rows)" and "csvColumnNames \<subseteq> set names"
    and "list_all (\<lambda>r. length r = length names) rows"
  shows "verifyCsv path (Some (printCsv eol (names # rows))) frames batch rep = Inr () \<longleftrightarrow>
    length rows = rep \<and> (\<forall>i < rep. goodRow names frames batch (i + 1) (rows ! i))"
proof -
  have n: "5 \<le> length names" using assms(3) by (rule length_columns)
  have h: "split_csv (rowLine eol names) = names" using n assms(2) by (intro split_rowLine [OF assms(1)]) auto
  have "list_all (\<lambda>r. 2 \<le> length r) rows" using assms(4) n by (auto simp: list_all_iff)
  with assms have d: "dataRows (map (rowLine eol) rows) = rows" by (intro dataRows_printed) auto
  have g: "getlines (printCsv eol (names # rows)) = rowLine eol names # map (rowLine eol) rows"
    using getlines_printCsv [OF assms(1,2)] by simp
  have "goodRows names frames batch 0 rows \<longleftrightarrow> (\<forall>i < length rows. goodRow names frames batch (i + 1) (rows ! i))"
    using assms(4) by (auto simp: goodRows_def list_all_length)
  then show ?thesis unfolding verifyCsv_iff using g h d assms(3) by auto
qed


section \<open>Every way out of a command\<close>

lemma reapLoop_settle:
  "reapLoop s = map_option (\<lambda>(r, rest). case r of Ret status \<Rightarrow> [ReapedChild status] | Fail e \<Rightarrow> []) (settle s)"
  by (induction s rule: reapLoop.induct) (auto simp: interrupted_def)

text \<open>The calls of the wait loop: sleeps, and then what its outcome says.\<close>

definition waitEnd :: "spawnAnswers \<Rightarrow> commandError + waitStatus \<Rightarrow> commandCall list \<Rightarrow> bool" where
  "waitEnd env r suffix \<longleftrightarrow>
     (case r of
        Inr status \<Rightarrow> suffix = [ReapedChild status]
      | Inl e \<Rightarrow> (e = TimedOut \<and> (\<exists>reaped. reapLoop (sp_reap env) = Some reaped \<and> suffix = KillGroup (sp_pid env) # reaped)) \<or>
          (\<exists>n. e = WaitError n) \<and> suffix = [KillGroup (sp_pid env)])"

lemma waitLoop_shape:
  "waitLoop env deadline polls trace = Some (r, trace') \<Longrightarrow>
     \<exists>k suffix. trace' = trace @ replicate k Slept @ suffix \<and> waitEnd env r suffix \<and> k < length polls \<and>
       (\<forall>i < k. snd (polls ! i) < deadline)"
proof (induction polls arbitrary: trace)
  case (Cons x rest)
  obtain poll now where x: "x = (poll, now)" by fastforce
  show ?case
  proof (cases "(poll = StillRunning \<or> poll = PollFailed EINTR) \<and> now < deadline")
    case True
    then have "waitLoop env deadline rest (trace @ [Slept]) = Some (r, trace')" using Cons.prems x by auto
    from Cons.IH [OF this] obtain k suffix where k: "trace' = (trace @ [Slept]) @ replicate k Slept @ suffix"
      "waitEnd env r suffix" "k < length rest" "\<forall>i < k. snd (rest ! i) < deadline" by blast
    then have "trace' = trace @ replicate (Suc k) Slept @ suffix" "Suc k < length (x # rest)" by simp_all
    moreover have "\<forall>i < Suc k. snd ((x # rest) ! i) < deadline" using k(4) True x by (simp add: All_less_Suc2)
    ultimately show ?thesis using k(2) by blast
  next
    case False
    then have "\<exists>suffix. trace' = trace @ suffix \<and> waitEnd env r suffix"
      using Cons.prems x by (auto simp: waitEnd_def split: waitPoll.splits if_splits option.splits)
    then obtain suffix where "trace' = trace @ replicate 0 Slept @ suffix" "waitEnd env r suffix" by auto
    then show ?thesis by fastforce
  qed
qed simp

lemma waitLoop_returns:
  assumes "\<exists>x \<in> set polls. deadline \<le> snd x" and "\<exists>r \<in> set (sp_reap env). \<not> interrupted r"
  shows "\<exists>x. waitLoop env deadline polls trace = Some x"
  using assms(1)
proof (induction polls arbitrary: trace)
  case (Cons x rest)
  obtain reaped where "reapLoop (sp_reap env) = Some reaped"
    using assms(2) unfolding settle_Some_iff [symmetric] by (auto simp: reapLoop_settle)
  with Cons show ?case by (cases x) (auto split: waitPoll.splits)
qed simp

text \<open>The command was started.\<close>

definition spawned :: "spawnAnswers \<Rightarrow> bool" where
  "spawned env \<longleftrightarrow> sp_actionsInit env \<and> sp_attrInit env \<and> spawnSetup env = None \<and> sp_spawn env = None"

lemma runCommand_spawned:
  assumes "spawned env" and "runCommand env logFile timeoutSeconds = Some (r, trace)"
  obtains k suffix w where "waitEnd env w suffix" and "k < length (sp_polls env)"
    and "\<forall>i < k. snd (sp_polls env ! i) < sp_start env + 1000 * timeoutSeconds"
    and "trace = [DestroyActions, DestroyAttr] @ replicate k Slept @ suffix @ (case w of
      Inr status \<Rightarrow> if status = Exited 0 then [] else [KillGroup (sp_pid env)] | Inl e \<Rightarrow> [])"
    and "r = (case w of Inl e \<Rightarrow> Inl e | Inr status \<Rightarrow>
      if status = Exited 0 then Inr () else Inl (CommandFailed (tail_log logFile) (commandHint (tail_log logFile))))"
proof -
  let ?d = "sp_start env + 1000 * timeoutSeconds"
  obtain w t where w: "waitLoop env ?d (sp_polls env) [DestroyActions, DestroyAttr] = Some (w, t)"
    using assms by (auto simp: runCommand_def spawned_def split: option.splits)
  from waitLoop_shape [OF this] assms w show ?thesis
    by (auto simp: runCommand_def spawned_def Let_def split: sum.splits if_splits intro: that)
qed

lemma runCommand_not_spawned:
  assumes "\<not> spawned env" and "runCommand env logFile timeoutSeconds = Some (r, trace)"
  shows "r \<noteq> Inr () \<and> trace = (if sp_actionsInit env \<and> sp_attrInit env then [DestroyActions, DestroyAttr] else [])"
  using assms by (auto simp: runCommand_def spawned_def Let_def split: option.splits)

lemma reapLoop_calls: "reapLoop s = Some reaped \<Longrightarrow> set reaped \<subseteq> range ReapedChild"
  by (induction s rule: reapLoop.induct) (auto split: if_splits)

lemma waitEnd_calls:
  assumes "waitEnd env w suffix"
  shows "DestroyActions \<notin> set suffix" "DestroyAttr \<notin> set suffix" "Slept \<notin> set suffix"
    and "KillGroup p \<in> set suffix \<longleftrightarrow> (\<exists>e. w = Inl e) \<and> p = sp_pid env"
    and "w = Inr status \<Longrightarrow> suffix = [ReapedChild status]"
proof -
  show "DestroyActions \<notin> set suffix" "DestroyAttr \<notin> set suffix" "Slept \<notin> set suffix"
    "KillGroup p \<in> set suffix \<longleftrightarrow> (\<exists>e. w = Inl e) \<and> p = sp_pid env"
    "w = Inr status \<Longrightarrow> suffix = [ReapedChild status]"
    using assms reapLoop_calls by (fastforce simp: waitEnd_def split: sum.splits)+
qed

lemma count_replicate_list: "count_list (replicate n x) y = (if x = y then n else 0)"
  by (induction n) auto

text \<open>Everything a command leaves behind, whatever the calls answer.\<close>

lemma runCommand_calls:
  assumes "runCommand env logFile timeoutSeconds = Some (r, trace)"
  shows "KillGroup p \<in> set trace \<longleftrightarrow> spawned env \<and> r \<noteq> Inr () \<and> p = sp_pid env"
    and "r = Inr () \<Longrightarrow> spawned env \<and> (\<exists>k. trace = [DestroyActions, DestroyAttr] @ replicate k Slept @ [ReapedChild (Exited 0)])"
    and "count_list trace DestroyActions = (if sp_actionsInit env \<and> sp_attrInit env then 1 else 0)"
    and "count_list trace DestroyAttr = (if sp_actionsInit env \<and> sp_attrInit env then 1 else 0)"
    and "ReapedChild (Exited 0) \<in> set trace \<Longrightarrow> r = Inr () \<or> r = Inl TimedOut"
proof -
  have "(KillGroup p \<in> set trace \<longleftrightarrow> spawned env \<and> r \<noteq> Inr () \<and> p = sp_pid env) \<and>
    (r = Inr () \<longrightarrow> spawned env \<and> (\<exists>k. trace = [DestroyActions, DestroyAttr] @ replicate k Slept @ [ReapedChild (Exited 0)])) \<and>
    count_list trace DestroyActions = (if sp_actionsInit env \<and> sp_attrInit env then 1 else 0) \<and>
    count_list trace DestroyAttr = (if sp_actionsInit env \<and> sp_attrInit env then 1 else 0) \<and>
    (ReapedChild (Exited 0) \<in> set trace \<longrightarrow> r = Inr () \<or> r = Inl TimedOut)"
  proof (cases "spawned env")
    case True
    then obtain k suffix w where w: "waitEnd env w suffix"
      "trace = [DestroyActions, DestroyAttr] @ replicate k Slept @ suffix @ (case w of
        Inr status \<Rightarrow> if status = Exited 0 then [] else [KillGroup (sp_pid env)] | Inl e \<Rightarrow> [])"
      "r = (case w of Inl e \<Rightarrow> Inl e | Inr status \<Rightarrow>
        if status = Exited 0 then Inr () else Inl (CommandFailed (tail_log logFile) (commandHint (tail_log logFile))))"
      using runCommand_spawned [OF _ assms] by metis
    have i: "sp_actionsInit env" "sp_attrInit env" using True by (simp_all add: spawned_def)
    have c: "count_list suffix DestroyActions = 0" "count_list suffix DestroyAttr = 0"
      using waitEnd_calls [OF w(1)] by (simp_all add: count_list_0_iff)
    show ?thesis
    proof (cases w)
      case (Inl e)
      then show ?thesis using True i c w(2,3) waitEnd_calls(4) [OF w(1), of p] w(1)
        by (auto simp: count_replicate_list waitEnd_def)
    next
      case (Inr status)
      then show ?thesis using True i c w(2,3) waitEnd_calls(5) [OF w(1) Inr]
        by (auto simp: count_replicate_list)
    qed
  next
    case False
    then show ?thesis using runCommand_not_spawned [OF False assms] by (auto simp: spawned_def)
  qed
  then show "KillGroup p \<in> set trace \<longleftrightarrow> spawned env \<and> r \<noteq> Inr () \<and> p = sp_pid env"
    "r = Inr () \<Longrightarrow> spawned env \<and> (\<exists>k. trace = [DestroyActions, DestroyAttr] @ replicate k Slept @ [ReapedChild (Exited 0)])"
    "count_list trace DestroyActions = (if sp_actionsInit env \<and> sp_attrInit env then 1 else 0)"
    "count_list trace DestroyAttr = (if sp_actionsInit env \<and> sp_attrInit env then 1 else 0)"
    "ReapedChild (Exited 0) \<in> set trace \<Longrightarrow> r = Inr () \<or> r = Inl TimedOut" by simp_all
qed

text \<open>The clock is read at least 20 milliseconds apart, which is what the sleep between two polls gives.\<close>

definition paced :: "nat \<Rightarrow> (waitPoll \<times> nat) list \<Rightarrow> bool" where
  "paced start polls \<longleftrightarrow> (\<forall>i < length polls. start + 20 * i \<le> snd (polls ! i))"

lemma runCommand_total:
  assumes "paced (sp_start env) (sp_polls env)" and "50 * timeoutSeconds < length (sp_polls env)"
    and "\<exists>r \<in> set (sp_reap env). \<not> interrupted r"
  shows "\<exists>r trace. runCommand env logFile timeoutSeconds = Some (r, trace) \<and> count_list trace Slept \<le> 50 * timeoutSeconds"
proof (cases "spawned env")
  case True
  let ?d = "sp_start env + 1000 * timeoutSeconds"
  have "?d \<le> snd (sp_polls env ! (50 * timeoutSeconds))" using assms(1,2) by (force simp: paced_def)
  then have "\<exists>x \<in> set (sp_polls env). ?d \<le> snd x" using assms(2) nth_mem by blast
  from waitLoop_returns [OF this assms(3), of "[DestroyActions, DestroyAttr]"] obtain w' t
    where "waitLoop env ?d (sp_polls env) [DestroyActions, DestroyAttr] = Some (w', t)" by auto
  with True have "\<exists>x. runCommand env logFile timeoutSeconds = Some x"
    by (cases w') (simp_all add: runCommand_def spawned_def Let_def)
  then obtain r trace where r: "runCommand env logFile timeoutSeconds = Some (r, trace)" by auto
  from runCommand_spawned [OF True this] obtain k suffix w where w: "waitEnd env w suffix" "k < length (sp_polls env)"
    "\<forall>i < k. snd (sp_polls env ! i) < ?d"
    "trace = [DestroyActions, DestroyAttr] @ replicate k Slept @ suffix @ (case w of
      Inr status \<Rightarrow> if status = Exited 0 then [] else [KillGroup (sp_pid env)] | Inl e \<Rightarrow> [])" by metis
  have "count_list suffix Slept = 0" using waitEnd_calls [OF w(1)] by (simp add: count_list_0_iff)
  then have "count_list trace Slept = k" using w(4) by (simp add: count_replicate_list split: sum.splits)
  moreover have "k \<le> 50 * timeoutSeconds"
  proof (rule ccontr)
    assume "\<not> k \<le> 50 * timeoutSeconds"
    then have "snd (sp_polls env ! (50 * timeoutSeconds)) < ?d" using w(3) by simp
    with assms(1,2) show False by (force simp: paced_def)
  qed
  ultimately show ?thesis using r by auto
next
  case False
  then have "\<exists>r trace. runCommand env logFile timeoutSeconds = Some (r, trace)"
    by (auto simp: runCommand_def spawned_def Let_def split: option.splits)
  with runCommand_not_spawned [OF False] show ?thesis by (fastforce split: if_splits)
qed


section \<open>Options within their ranges\<close>

definition profileInRange :: "profileOptions \<Rightarrow> bool" where
  "profileInRange o' \<longleftrightarrow>
     1 \<le> po_frames o' \<and> po_frames o' \<le> 1000000 \<and> 1 \<le> po_batch o' \<and> po_batch o' \<le> 4096 \<and>
     1 \<le> po_port o' \<and> po_port o' \<le> 65535 \<and> 1 \<le> po_repeat o' \<and> po_repeat o' \<le> 20 \<and>
     1 \<le> po_timeout o' \<and> po_timeout o' \<le> 3600 \<and> po_mode o' \<in> {''record'', ''stat'', ''both''}"

lemma defaultProfile_inRange: "profileInRange defaultProfile"
  by (simp add: profileInRange_def defaultProfile_def)

lemma from_chars_dec_string: "n < 2 ^ w \<Longrightarrow> from_chars w (dec_string n) d = (n, length (dec_string n), NoErrc)"
  using dec_string_digits [of n] by (simp add: from_chars_def Let_def takeWhile_all_digits list_all_iff)

lemma parseNumber_profile_bounds: "parseNumber_profile t lo hi name = Inr v \<Longrightarrow> lo \<le> v \<and> v \<le> hi"
  by (auto simp: parseNumber_profile_def split: prod.splits if_splits)

lemma parseNumber_profile_dec_string:
  "hi < 2 ^ 32 \<Longrightarrow> parseNumber_profile (dec_string v) lo hi name =
     (if lo \<le> v \<and> v \<le> hi then Inr v
      else Inl (''invalid --'' @ name @ '' (expected '' @ dec_string lo @ ''..'' @ dec_string hi @ '')''))"
proof (cases "v < 2 ^ 32")
  case True
  then show ?thesis by (auto simp: parseNumber_profile_def unsignedBits_def from_chars_dec_string)
next
  case False
  assume "hi < 2 ^ 32"
  moreover have "snd (snd (from_chars 32 (dec_string v) 0)) = ResultOutOfRange"
    using False dec_string_digits [of v] by (simp add: from_chars_def Let_def takeWhile_all_digits list_all_iff)
  ultimately show ?thesis using False by (auto simp: parseNumber_profile_def unsignedBits_def split: prod.splits)
qed

lemma map_sum_Inr: "map_sum id f x = Inr y \<Longrightarrow> (\<And>v. x = Inr v \<Longrightarrow> P (f v)) \<Longrightarrow> P y"
  by (cases x) auto

lemma setOption_inRange:
  assumes "setOption key t o' = Inr o''" and "profileInRange o'"
  shows "profileInRange o''"
proof -
  have b: "profileInRange o''" if "map_sum id f (parseNumber_profile t lo hi name) = Inr o''"
    "\<And>v. lo \<le> v \<Longrightarrow> v \<le> hi \<Longrightarrow> profileInRange (f v)" for f lo hi name
    by (rule map_sum_Inr [OF that(1), of profileInRange]) (simp add: that(2) parseNumber_profile_bounds)
  have u: "1 \<le> v \<Longrightarrow> v \<le> 1000000 \<Longrightarrow> profileInRange (o'\<lparr>po_frames := v\<rparr>)"
    "1 \<le> v \<Longrightarrow> v \<le> 4096 \<Longrightarrow> profileInRange (o'\<lparr>po_batch := v\<rparr>)"
    "1 \<le> v \<Longrightarrow> v \<le> 20 \<Longrightarrow> profileInRange (o'\<lparr>po_repeat := v\<rparr>)"
    "1 \<le> v \<Longrightarrow> v \<le> 65535 \<Longrightarrow> profileInRange (o'\<lparr>po_port := v\<rparr>)"
    "1 \<le> v \<Longrightarrow> v \<le> 3600 \<Longrightarrow> profileInRange (o'\<lparr>po_timeout := v\<rparr>)"
    "m \<in> {''record'', ''stat'', ''both''} \<Longrightarrow> profileInRange (o'\<lparr>po_mode := m\<rparr>)"
    "profileInRange (o'\<lparr>po_output := x\<rparr>)" "profileInRange (o'\<lparr>po_perf := x\<rparr>)" "profileInRange (o'\<lparr>po_python := x\<rparr>)" for v m x
    using assms(2) by (simp_all add: profileInRange_def)
  show ?thesis
  proof (cases "key \<in> {''--mode'', ''--output'', ''--perf'', ''--python''}")
    case True
    then show ?thesis using assms(1) u(6-9) by (fastforce simp: setOption_def split: if_splits)
  next
    case False
    then consider "key = ''--frames''" | "key = ''--batch''" | "key = ''--repeat''" | "key = ''--port''" | "key = ''--timeout''"
      using assms(1) by (simp add: setOption_def split: if_splits)
    then show ?thesis
      using assms(1) by cases (simp_all add: setOption_def b u)
  qed
qed

lemma parseOptions_profile_inRange:
  "parseOptions_profile args o' = Inr (Some o'') \<Longrightarrow> profileInRange o' \<Longrightarrow> profileInRange o''"
proof (induction args o' rule: parseOptions_profile.induct)
  case (2 key rest opts)
  have f: "profileInRange (opts\<lparr>po_check := True\<rparr>)" "profileInRange (opts\<lparr>po_selfTest := True\<rparr>)"
    "profileInRange (opts\<lparr>po_checkWorkload := True\<rparr>)" using 2(6) by (simp_all add: profileInRange_def)
  note step = 2(5) [unfolded parseOptions_profile.simps(2) [of key]]
  show ?case
  proof (cases "key \<in> {''--help'', ''-h'', ''--check'', ''--self-test'', ''--self-check-workload''}")
    case True
    then show ?thesis using step 2(1-3) f by auto
  next
    case False
    then obtain t rest' opts' where "rest = t # rest'" "setOption key t opts = Inr opts'"
      "parseOptions_profile rest' opts' = Inr (Some o'')"
      using step by (auto split: list.splits sum.splits)
    with 2(4) [OF _ _ _ _ this(1,2)] False setOption_inRange [OF _ 2(6)] show ?thesis by simp
  qed
qed (simp add: parseOptions_profile.simps)

text \<open>Options printed as a command line.\<close>

definition profileCommandLine :: "profileOptions \<Rightarrow> string list" where
  "profileCommandLine o' =
     [''--frames'', dec_string (po_frames o'), ''--batch'', dec_string (po_batch o'), ''--repeat'', dec_string (po_repeat o'),
      ''--port'', dec_string (po_port o'), ''--timeout'', dec_string (po_timeout o'), ''--mode'', po_mode o',
      ''--output'', po_output o', ''--perf'', po_perf o', ''--python'', po_python o'] @
     (if po_check o' then [''--check''] else []) @ (if po_selfTest o' then [''--self-test''] else []) @
     (if po_checkWorkload o' then [''--self-check-workload''] else [])"

lemma parseOptions_profile_setting:
  "setOption key t opts = Inr opts' \<Longrightarrow> parseOptions_profile (key # t # rest) opts = parseOptions_profile rest opts'"
proof -
  assume s: "setOption key t opts = Inr opts'"
  have "key \<notin> {''--help'', ''-h'', ''--check'', ''--self-test'', ''--self-check-workload''}"
    using s by (auto simp: setOption_def)
  then show ?thesis using s by (simp add: parseOptions_profile.simps)
qed

lemma parseOptions_profile_flags:
  "parseOptions_profile ((if c then [''--check''] else []) @ (if t then [''--self-test''] else []) @
     (if w then [''--self-check-workload''] else [])) opts =
   Inr (Some (opts\<lparr>po_check := c \<or> po_check opts, po_selfTest := t \<or> po_selfTest opts, po_checkWorkload := w \<or> po_checkWorkload opts\<rparr>))"
  by (cases c; cases t; cases w; simp add: parseOptions_profile.simps)

lemma parseOptions_profile_printed:
  assumes "profileInRange o'"
  shows "parseOptions_profile (profileCommandLine o') defaultProfile = Inr (Some o')"
proof -
  have n: "setOption ''--frames'' (dec_string (po_frames o')) x = Inr (x\<lparr>po_frames := po_frames o'\<rparr>)"
    "setOption ''--batch'' (dec_string (po_batch o')) x = Inr (x\<lparr>po_batch := po_batch o'\<rparr>)"
    "setOption ''--repeat'' (dec_string (po_repeat o')) x = Inr (x\<lparr>po_repeat := po_repeat o'\<rparr>)"
    "setOption ''--port'' (dec_string (po_port o')) x = Inr (x\<lparr>po_port := po_port o'\<rparr>)"
    "setOption ''--timeout'' (dec_string (po_timeout o')) x = Inr (x\<lparr>po_timeout := po_timeout o'\<rparr>)"
    "setOption ''--mode'' (po_mode o') x = Inr (x\<lparr>po_mode := po_mode o'\<rparr>)"
    "setOption ''--output'' y x = Inr (x\<lparr>po_output := y\<rparr>)" "setOption ''--perf'' y x = Inr (x\<lparr>po_perf := y\<rparr>)"
    "setOption ''--python'' y x = Inr (x\<lparr>po_python := y\<rparr>)" for x y
    using assms by (auto simp: setOption_def parseNumber_profile_dec_string profileInRange_def)
  show ?thesis
    unfolding profileCommandLine_def
    by (simp add: parseOptions_profile_setting [OF n(1)] parseOptions_profile_setting [OF n(2)] parseOptions_profile_setting [OF n(3)]
        parseOptions_profile_setting [OF n(4)] parseOptions_profile_setting [OF n(5)] parseOptions_profile_setting [OF n(6)]
        parseOptions_profile_setting [OF n(7)] parseOptions_profile_setting [OF n(8)] parseOptions_profile_setting [OF n(9)]
        parseOptions_profile_flags) (simp add: defaultProfile_def)
qed


section \<open>Properties\<close>

text \<open>The options that the profiler's command line can produce are exactly those within the documented
  ranges: whatever is accepted is in range, and every combination of values in range, printed as a
  command line, is read back unchanged.\<close>

theorem profile_options:
  assumes "parseOptions_profile args defaultProfile = Inr (Some o1)" and "profileInRange o2"
  shows "profileInRange o1 \<and> parseOptions_profile (profileCommandLine o2) defaultProfile = Inr (Some o2)"
  using parseOptions_profile_inRange [OF assms(1) defaultProfile_inRange] parseOptions_profile_printed [OF assms(2)] by simp

lemma demo_profile_args:
  "parseOptions_profile [''--repeat'', ''3'', ''--check''] defaultProfile = Inr (Some (defaultProfile\<lparr>po_repeat := 3, po_check := True\<rparr>))"
proof -
  have "setOption ''--repeat'' (dec_string 3) defaultProfile = Inr (defaultProfile\<lparr>po_repeat := 3\<rparr>)"
    by (simp add: setOption_def parseNumber_profile_dec_string)
  moreover have "dec_string 3 = ''3''" by code_simp
  ultimately have "setOption ''--repeat'' ''3'' defaultProfile = Inr (defaultProfile\<lparr>po_repeat := 3\<rparr>)" by simp
  from parseOptions_profile_setting [OF this] show ?thesis by (simp add: parseOptions_profile.simps)
qed

theorem profile_options_witness:
  "profileInRange (defaultProfile\<lparr>po_repeat := 3, po_check := True\<rparr>) \<and>
   parseOptions_profile (profileCommandLine defaultProfile) defaultProfile = Inr (Some defaultProfile)"
  by (rule profile_options [OF demo_profile_args defaultProfile_inRange])


text \<open>C35: \<open>verifyCsv\<close> reads a printed CSV file, with Unix or Windows line ends and the columns in any
  order and among others, exactly as the benchmark means it: it accepts the file if and only if there
  are as many rows as runs and row \<open>i\<close> says, under the names of the columns, that it is run \<open>i\<close> with
  the configured batch and frames, 32 bytes for each frame, and every frame verified.\<close>

theorem csv_accepted_iff:
  assumes "isEol eol" and "list_all (list_all plainField) (names # rows)" and "csvColumnNames \<subseteq> set names"
    and "list_all (\<lambda>r. length r = length names) rows"
  shows "verifyCsv path (Some (printCsv eol (names # rows))) frames batch rep = Inr () \<longleftrightarrow>
    length rows = rep \<and> (\<forall>i < rep. goodRow names frames batch (i + 1) (rows ! i))"
  by (rule verifyCsv_printed [OF assms])

theorem csv_accepted_iff_witness:
  "verifyCsv ''runs.csv'' (Some (printCsv (cr # nl) [[''batch_frames'', ''run'', ''frames'', ''bytes'', ''verified_frames''],
     [dec_string 128, dec_string 1, dec_string 100, dec_string 3200, dec_string 100],
     [dec_string 128, dec_string 2, dec_string 100, dec_string 3200, dec_string 100]])) 100 128 2 = Inr ()"
proof -
  have p: "plainField (dec_string n)" for n
    using dec_string_digits [of n] by (auto simp: plainField_def is_digit_def)
  have 1: "isEol (cr # nl)" by (simp add: isEol_def)
  have 2: "list_all (list_all plainField) ([''batch_frames'', ''run'', ''frames'', ''bytes'', ''verified_frames''] #
     [[dec_string 128, dec_string 1, dec_string 100, dec_string 3200, dec_string 100],
     [dec_string 128, dec_string 2, dec_string 100, dec_string 3200, dec_string 100]])"
    using p by (simp add: plainField_def del: dec_string.simps)
  have 3: "csvColumnNames \<subseteq> set [''batch_frames'', ''run'', ''frames'', ''bytes'', ''verified_frames'']"
    by (simp add: csvColumnNames_def)
  show ?thesis
    by (subst csv_accepted_iff [OF 1 2 3])
      (simp_all add: goodRow_def expectedFields_def nth_Cons' All_less_Suc2 numeral_2_eq_2 del: dec_string.simps)
qed


text \<open>C36: whatever the calls answer, \<open>runCommand\<close> kills the process group of the command exactly when the
  command was started and did not succeed, and never any other; it succeeds only after it has
  collected the process with exit status 0 and without having killed anything; the spawn attributes
  are released exactly once when both were initialised.\<close>

theorem runCommand_outcome:
  assumes "runCommand env logFile timeoutSeconds = Some (r, trace)"
  shows "(KillGroup p \<in> set trace \<longleftrightarrow> spawned env \<and> r \<noteq> Inr () \<and> p = sp_pid env) \<and>
    (r = Inr () \<longrightarrow> spawned env \<and> (\<exists>k. trace = [DestroyActions, DestroyAttr] @ replicate k Slept @ [ReapedChild (Exited 0)])) \<and>
    count_list trace DestroyActions = (if sp_actionsInit env \<and> sp_attrInit env then 1 else 0) \<and>
    count_list trace DestroyAttr = (if sp_actionsInit env \<and> sp_attrInit env then 1 else 0) \<and>
    (ReapedChild (Exited 0) \<in> set trace \<longrightarrow> r = Inr () \<or> r = Inl TimedOut)"
  using runCommand_calls [OF assms] by blast

definition demoSpawn :: spawnAnswers where
  "demoSpawn = \<lparr>sp_actionsInit = True, sp_attrInit = True, sp_addopen = None, sp_adddup2 = None, sp_setflags = None,
     sp_setpgroup = None, sp_spawn = None, sp_pid = 42, sp_start = 0,
     sp_polls = map (\<lambda>i. (StillRunning, 20 * i)) [0..<51], sp_kill = None, sp_reap = [Fail EINTR, Ret (Signaled 9)]\<rparr>"

lemma demoSpawn_facts: "spawned demoSpawn" "sp_pid demoSpawn = 42" "sp_start demoSpawn = 0"
  "sp_reap demoSpawn = [Fail EINTR, Ret (Signaled 9)]" "sp_polls demoSpawn = map (\<lambda>i. (StillRunning, 20 * i)) [0..<51]"
  by (simp_all add: demoSpawn_def spawned_def spawnSetup_def)

lemma demoSpawn_quick: "runCommand (demoSpawn\<lparr>sp_polls := [(StillRunning, 5), (PollFailed EINTR, 25), (Ended (Exited 1), 50)]\<rparr>) None 1 =
    Some (Inl (CommandFailed ''(log not created)'' (commandHint ''(log not created)'')),
      [DestroyActions, DestroyAttr, Slept, Slept, ReapedChild (Exited 1), KillGroup 42])"
  by (simp add: demoSpawn_def runCommand_def spawnSetup_def tail_log_def Let_def)

theorem runCommand_outcome_witness:
  "\<exists>r trace. runCommand (demoSpawn\<lparr>sp_polls := [(StillRunning, 5), (PollFailed EINTR, 25), (Ended (Exited 1), 50)]\<rparr>) None 1 = Some (r, trace) \<and>
     r \<noteq> Inr () \<and> KillGroup 42 \<in> set trace \<and> count_list trace DestroyActions = 1"
  using runCommand_outcome [OF demoSpawn_quick, of 42] demoSpawn_quick demoSpawn_facts(1) by (auto simp: demoSpawn_def)


text \<open>C37: \<open>runCommand\<close> always comes back: when the clock advances by the 20 milliseconds of each sleep and
  the killed process is eventually collected, it returns after at most 50 sleeps for each second of
  its timeout, whether the command ends, fails or hangs.\<close>

theorem runCommand_bounded:
  assumes "paced (sp_start env) (sp_polls env)" and "50 * timeoutSeconds < length (sp_polls env)"
    and "\<exists>r \<in> set (sp_reap env). \<not> interrupted r"
  shows "\<exists>r trace. runCommand env logFile timeoutSeconds = Some (r, trace) \<and> count_list trace Slept \<le> 50 * timeoutSeconds"
  by (rule runCommand_total [OF assms])

theorem runCommand_bounded_witness:
  "\<exists>r trace. runCommand demoSpawn None 1 = Some (r, trace) \<and> count_list trace Slept \<le> 50"
proof -
  have "paced (sp_start demoSpawn) (sp_polls demoSpawn)" by (simp add: paced_def demoSpawn_facts del: upt_Suc)
  moreover have "50 * 1 < length (sp_polls demoSpawn)" by (simp add: demoSpawn_facts del: upt_Suc)
  moreover have "\<exists>r \<in> set (sp_reap demoSpawn). \<not> interrupted r" by (simp add: demoSpawn_facts)
  ultimately show ?thesis using runCommand_bounded [of demoSpawn 1 None] by simp
qed

end
