(* ===== verification/ProfilerRun.thy ===== *)
theory ProfilerRun
  imports Profiler FileStore
begin

text \<open>
  The rest of \<open>bench/profile_cpu.cpp\<close>: the staging of the binaries (\<open>NativeBinaries\<close>), \<open>checkPerf\<close>,
  \<open>runProfile\<close> with its two modes, the self test, the workload of the perf check and \<open>main\<close>.

  A function of the source is a program on the state: the files by name, the temporary directories,
  and the calls made so far. Its result is \<open>Inl\<close> of an exception or \<open>Inr\<close> of a value, and \<open>None\<close> while
  a command is still running. The environment says for the \<open>n\<close>-th call, and which one it is, whether it fails, and, for a
  command, how a process with these arguments behaves and what it does to the files, its log among
  them.
\<close>

section \<open>Programs\<close>

type_synonym files = "string \<Rightarrow> string option"

datatype profError = RuntimeError string | MkdtempFailed errno | FilesystemError errno | CommandException commandError

datatype profCall =
    MakeDirectories string
  | RemoveFile string
  | CopyFile string string
  | AddExec string
  | MakeTemp string
  | TempFailed
  | RemoveTree string
  | SetVariable string string
  | CurrentPath
  | TempRoot
  | StatFile string
  | ReadFile string "string option"
  | WriteFile string string
  | Command "string list" string nat "commandError + unit" "commandCall list"

record profState =
  ps_files :: files
  ps_dirs :: "string list"
  ps_calls :: "profCall list"

record profEnv =
  pe_errors :: "nat \<Rightarrow> profCall \<Rightarrow> errno option"
  pe_spawn :: "nat \<Rightarrow> string list \<Rightarrow> spawnAnswers"
  pe_effect :: "nat \<Rightarrow> string list \<Rightarrow> string \<Rightarrow> files \<Rightarrow> files"
  pe_temp :: string
  pe_cwd :: string
  pe_tempRoot :: string
  pe_pid :: nat
  pe_canonical :: "errno + string"
  pe_clock :: "nat list"

type_synonym 'a prog = "profState \<Rightarrow> ((profError + 'a) \<times> profState) option"

definition return_p :: "'a \<Rightarrow> 'a prog" where
  "return_p v s = Some (Inr v, s)"

definition throw_p :: "profError \<Rightarrow> 'a prog" where
  "throw_p e s = Some (Inl e, s)"

definition bind_p :: "'a prog \<Rightarrow> ('a \<Rightarrow> 'b prog) \<Rightarrow> 'b prog" where
  "bind_p m k s =
     (case m s of
        None \<Rightarrow> None
      | Some (r, s') \<Rightarrow> (case r of Inl e \<Rightarrow> Some (Inl e, s') | Inr v \<Rightarrow> k v s'))"

definition seq_p :: "unit prog \<Rightarrow> 'b prog \<Rightarrow> 'b prog" where
  "seq_p m k = bind_p m (\<lambda>_. k)"

text \<open>A handler for every exception, and a destructor that runs on both ways out.\<close>

definition catch_p :: "'a prog \<Rightarrow> (profError \<Rightarrow> 'a prog) \<Rightarrow> 'a prog" where
  "catch_p m h s =
     (case m s of
        None \<Rightarrow> None
      | Some (r, s') \<Rightarrow> (case r of Inl e \<Rightarrow> h e s' | Inr v \<Rightarrow> Some (Inr v, s')))"

definition destroy_p :: "'a prog \<Rightarrow> unit prog \<Rightarrow> 'a prog" where
  "destroy_p m d s =
     (case m s of
        None \<Rightarrow> None
      | Some (r, s') \<Rightarrow> (case d s' of None \<Rightarrow> None | Some (_, s'') \<Rightarrow> Some (r, s'')))"

definition check_p :: "bool \<Rightarrow> string \<Rightarrow> unit prog" where
  "check_p b message = (if b then return_p () else throw_p (RuntimeError message))"

text \<open>An exception of the functions of \<open>Profiler\<close>.\<close>

definition lift_p :: "'a throws \<Rightarrow> 'a prog" where
  "lift_p r = (case r of Inl message \<Rightarrow> throw_p (RuntimeError message) | Inr v \<Rightarrow> return_p v)"


section \<open>Calls\<close>

definition logged :: "profCall \<Rightarrow> profState \<Rightarrow> profState" where
  "logged c s = s\<lparr>ps_calls := ps_calls s @ [c]\<rparr>"

definition errorNow :: "profEnv \<Rightarrow> profCall \<Rightarrow> profState \<Rightarrow> errno option" where
  "errorNow env c s = pe_errors env (length (ps_calls s)) c"

text \<open>A filesystem call that throws on an error and otherwise changes the files.\<close>

definition fsCall :: "profEnv \<Rightarrow> profCall \<Rightarrow> (files \<Rightarrow> files) \<Rightarrow> unit prog" where
  "fsCall env c effect s =
     (case errorNow env c s of
        Some e \<Rightarrow> Some (Inl (FilesystemError e), logged c s)
      | None \<Rightarrow> Some (Inr (), logged c (s\<lparr>ps_files := effect (ps_files s)\<rparr>)))"

definition removeFile :: "profEnv \<Rightarrow> string \<Rightarrow> unit prog" where
  "removeFile env path = fsCall env (RemoveFile path) (\<lambda>fs. fs(path := None))"

definition currentPath :: "profEnv \<Rightarrow> string prog" where
  "currentPath env = bind_p (fsCall env CurrentPath id) (\<lambda>_. return_p (pe_cwd env))"

text \<open>\<open>fs::exists\<close>, \<open>fs::is_regular_file\<close> and \<open>fs::file_size\<close>.\<close>

definition statFile :: "profEnv \<Rightarrow> string \<Rightarrow> string option prog" where
  "statFile env path = bind_p (fsCall env (StatFile path) id) (\<lambda>_ s. return_p (ps_files s path) s)"

text \<open>A stream that is opened for reading; \<open>None\<close> when it cannot be opened.\<close>

definition openRead :: "profEnv \<Rightarrow> string \<Rightarrow> string option prog" where
  "openRead env path s =
     (let content = (if errorNow env (ReadFile path (ps_files s path)) s = None then ps_files s path else None)
      in Some (Inr content, logged (ReadFile path content) s))"

definition readFile :: "profEnv \<Rightarrow> string \<Rightarrow> string prog" where
  "readFile env path =
     bind_p (openRead env path)
       (\<lambda>content. case content of None \<Rightarrow> throw_p (RuntimeError (''cannot open '' @ path)) | Some c \<Rightarrow> return_p c)"

text \<open>A stream that is written; its errors are not looked at.\<close>

definition writeFile :: "profEnv \<Rightarrow> string \<Rightarrow> string \<Rightarrow> unit prog" where
  "writeFile env path content s =
     Some (Inr (), logged (WriteFile path content)
       (case errorNow env (WriteFile path content) s of None \<Rightarrow> s\<lparr>ps_files := (ps_files s)(path \<mapsto> content)\<rparr> | Some _ \<Rightarrow> s))"

definition setenv_p :: "profEnv \<Rightarrow> string \<Rightarrow> string \<Rightarrow> bool prog" where
  "setenv_p env name content s = Some (Inr (errorNow env (SetVariable name content) s = None), logged (SetVariable name content) s)"

text \<open>\<open>operator/\<close> of paths.\<close>

definition pathJoin :: "string \<Rightarrow> string \<Rightarrow> string" where
  "pathJoin a b =
     (if b \<noteq> [] \<and> hd b = CHR ''/'' then b
      else if a = [] \<or> last a = CHR ''/'' then a @ b
      else a @ ''/'' @ b)"

text \<open>\<open>runCommand\<close> with the process and the files of the environment.\<close>

definition command :: "profEnv \<Rightarrow> string list \<Rightarrow> string \<Rightarrow> nat \<Rightarrow> unit prog" where
  "command env arguments log timeoutSeconds s =
     (let n = length (ps_calls s);
          fs = (if spawned (pe_spawn env n arguments) then pe_effect env n arguments log (ps_files s) else ps_files s)
      in case runCommand (pe_spawn env n arguments) (fs log) timeoutSeconds of
           None \<Rightarrow> None
         | Some (r, trace) \<Rightarrow>
             Some (case r of Inl e \<Rightarrow> Inl (CommandException e) | Inr _ \<Rightarrow> Inr (),
               logged (Command arguments log timeoutSeconds r trace) (s\<lparr>ps_files := fs\<rparr>)))"


section \<open>NativeBinaries\<close>

record nativeBinaries =
  m_dir :: string
  m_server :: string
  m_sender :: string

definition mkdtemp :: "profEnv \<Rightarrow> string prog" where
  "mkdtemp env s =
     (case errorNow env (MakeTemp (pe_temp env)) s of
        Some e \<Rightarrow> Some (Inl (MkdtempFailed e), logged TempFailed s)
      | None \<Rightarrow> Some (Inr (pe_temp env), logged (MakeTemp (pe_temp env)) (s\<lparr>ps_dirs := pe_temp env # ps_dirs s\<rparr>)))"

text \<open>\<open>fs::remove_all\<close> with an error code, which nobody reads.\<close>

definition removeAll_p :: "profEnv \<Rightarrow> string \<Rightarrow> unit prog" where
  "removeAll_p env dir s =
     Some (Inr (), logged (RemoveTree dir)
       (case errorNow env (RemoveTree dir) s of
          None \<Rightarrow> s\<lparr>ps_dirs := remove1 dir (ps_dirs s), ps_files := (\<lambda>p. if isPrefix (dir @ ''/'') p then None else ps_files s p)\<rparr>
        | Some _ \<Rightarrow> s))"

text \<open>\<open>fs::copy_file\<close> without options: the source must exist and the destination must not.\<close>

definition copyFile :: "profEnv \<Rightarrow> string \<Rightarrow> string \<Rightarrow> unit prog" where
  "copyFile env source destination s =
     (case errorNow env (CopyFile source destination) s of
        Some e \<Rightarrow> Some (Inl (FilesystemError e), logged (CopyFile source destination) s)
      | None \<Rightarrow>
          (case ps_files s source of
             None \<Rightarrow> Some (Inl (FilesystemError (EOTHER 2)), logged (CopyFile source destination) s)
           | Some content \<Rightarrow>
               if ps_files s destination \<noteq> None
               then Some (Inl (FilesystemError EEXIST), logged (CopyFile source destination) s)
               else Some (Inr (), logged (CopyFile source destination)
                 (s\<lparr>ps_files := (ps_files s)(destination \<mapsto> content)\<rparr>))))"

definition copyExecutable :: "profEnv \<Rightarrow> string \<Rightarrow> string \<Rightarrow> unit prog" where
  "copyExecutable env source destination =
     seq_p (copyFile env source destination) (fsCall env (AddExec destination) id)"

definition nativeAt :: "string \<Rightarrow> nativeBinaries" where
  "nativeAt created =
     \<lparr>m_dir = created, m_server = pathJoin created ''telemetry-server'', m_sender = pathJoin created ''telemetry-load''\<rparr>"

definition newNativeBinaries :: "profEnv \<Rightarrow> string \<Rightarrow> string \<Rightarrow> nativeBinaries prog" where
  "newNativeBinaries env server sender =
     bind_p (mkdtemp env) (\<lambda>created.
       let native = nativeAt created
       in catch_p
            (seq_p (copyExecutable env server (m_server native))
              (seq_p (copyExecutable env sender (m_sender native)) (return_p native)))
            (\<lambda>e. seq_p (removeAll_p env created) (throw_p e)))"

text \<open>The lifetime of a \<open>NativeBinaries\<close> object.\<close>

definition withNativeBinaries :: "profEnv \<Rightarrow> string \<Rightarrow> string \<Rightarrow> (nativeBinaries \<Rightarrow> 'a prog) \<Rightarrow> 'a prog" where
  "withNativeBinaries env server sender body =
     bind_p (newNativeBinaries env server sender) (\<lambda>native. destroy_p (body native) (removeAll_p env (m_dir native)))"


section \<open>checkPerf and runProfile\<close>

definition checkCommand :: "profileOptions \<Rightarrow> string \<Rightarrow> string list" where
  "checkCommand opts executable =
     [po_perf opts, ''record'', ''-e'', ''cpu-clock:u'', ''-F'', ''99'', ''-o'', pathJoin (po_output opts) ''check.data'', ''--'',
      executable, ''--self-check-workload'']"

definition checkPerf :: "profEnv \<Rightarrow> profileOptions \<Rightarrow> string \<Rightarrow> unit prog" where
  "checkPerf env opts executable =
     (let data = pathJoin (po_output opts) ''check.data''; log = pathJoin (po_output opts) ''check.log''
      in seq_p
           (catch_p
             (command env (checkCommand opts executable) log 20)
             (\<lambda>e. seq_p (removeFile env data) (throw_p e)))
           (removeFile env data))"

definition csvPath :: "profileOptions \<Rightarrow> string \<Rightarrow> string" where
  "csvPath opts mode = pathJoin (po_output opts) (mode @ ''_runs.csv'')"

definition dataPath :: "profileOptions \<Rightarrow> string" where
  "dataPath opts = pathJoin (po_output opts) ''perf.data''"

definition statPath :: "profileOptions \<Rightarrow> string" where
  "statPath opts = pathJoin (po_output opts) ''stat.txt''"

definition reportPath :: "profileOptions \<Rightarrow> string" where
  "reportPath opts = pathJoin (po_output opts) ''report.txt''"

text \<open>The command line of a mode.\<close>

definition modeCommand :: "profileOptions \<Rightarrow> string \<Rightarrow> string \<Rightarrow> string list" where
  "modeCommand opts benchmark mode =
     [po_perf opts, mode] @
     (if mode = ''record''
      then [''-e'', ''cpu-clock:u'', ''-F'', ''999'', ''--call-graph'', ''fp'', ''-o'', dataPath opts]
      else [''-e'', ''task-clock,context-switches,page-faults'', ''-o'', statPath opts]) @
     [''--'', po_python opts, benchmark, dec_string (po_frames opts), dec_string (po_batch opts), dec_string (po_port opts),
      ''--repeat'', dec_string (po_repeat opts), ''--csv'', csvPath opts mode]"

definition cacheCommand :: "profileOptions \<Rightarrow> string \<Rightarrow> string list" where
  "cacheCommand opts binary = [po_perf opts, ''buildid-cache'', ''--add'', binary]"

text \<open>The loop over the binaries: a failure to cache symbols is only a warning.\<close>

fun cacheSymbols :: "profEnv \<Rightarrow> profileOptions \<Rightarrow> string list \<Rightarrow> unit prog" where
  "cacheSymbols env opts [] = return_p ()"
| "cacheSymbols env opts (binary # rest) =
     seq_p
       (catch_p
         (command env (cacheCommand opts binary)
            (pathJoin (po_output opts) (pathFilename binary @ ''-buildid.log'')) 30)
         (\<lambda>_. return_p ()))
       (cacheSymbols env opts rest)"

definition checkData :: "profEnv \<Rightarrow> string \<Rightarrow> unit prog" where
  "checkData env data =
     bind_p (statFile env data) (\<lambda>found.
       if found = None then throw_p (RuntimeError ''perf.data missing or empty'')
       else bind_p (statFile env data) (\<lambda>content.
         check_p (content \<noteq> Some []) ''perf.data missing or empty''))"

definition reportCommand :: "profileOptions \<Rightarrow> string list" where
  "reportCommand opts =
     [po_perf opts, ''report'', ''--stdio'', ''--no-children'', ''-g'', ''none'', ''-n'', ''--comms'', ''telemetry-serve'',
      ''--percentage'', ''relative'', ''--sort'', ''dso,symbol'', ''-i'', dataPath opts]"

definition recordReport :: "profEnv \<Rightarrow> profileOptions \<Rightarrow> nativeBinaries \<Rightarrow> unit prog" where
  "recordReport env opts native =
     seq_p (checkData env (dataPath opts))
       (seq_p (cacheSymbols env opts [m_server native, m_sender native])
         (seq_p
           (command env (reportCommand opts) (reportPath opts) 60)
           (bind_p (openRead env (reportPath opts)) (\<lambda>content.
             bind_p (lift_p (validateReport (reportPath opts) content)) (\<lambda>_. return_p ())))))"

definition runMode :: "profEnv \<Rightarrow> profileOptions \<Rightarrow> nativeBinaries \<Rightarrow> string \<Rightarrow> string \<Rightarrow> unit prog" where
  "runMode env opts native benchmark mode =
     seq_p (removeFile env (csvPath opts mode))
       (seq_p (removeFile env (if mode = ''record'' then dataPath opts else statPath opts))
         (seq_p (command env (modeCommand opts benchmark mode) (pathJoin (po_output opts) (mode @ ''.log'')) (po_timeout opts))
           (seq_p
             (bind_p (openRead env (csvPath opts mode)) (\<lambda>content.
               lift_p (verifyCsv (csvPath opts mode) content (po_frames opts) (po_batch opts) (po_repeat opts))))
             (if mode = ''record'' then recordReport env opts native
              else bind_p (openRead env (statPath opts)) (\<lambda>_. return_p ())))))"

definition runModes :: "profEnv \<Rightarrow> profileOptions \<Rightarrow> string \<Rightarrow> nativeBinaries \<Rightarrow> unit prog" where
  "runModes env opts benchmark native =
     bind_p (setenv_p env ''SERVER_BIN'' (m_server native)) (\<lambda>ok.
       bind_p (if ok then setenv_p env ''SENDER_BIN'' (m_sender native) else return_p False) (\<lambda>ok'.
         if \<not> ok' then throw_p (RuntimeError ''setenv for benchmark binaries failed'')
         else seq_p (if po_mode opts \<noteq> ''stat'' then runMode env opts native benchmark ''record'' else return_p ())
                (if po_mode opts \<noteq> ''record'' then runMode env opts native benchmark ''stat'' else return_p ())))"

definition requireFile :: "profEnv \<Rightarrow> string \<Rightarrow> string \<Rightarrow> unit prog" where
  "requireFile env path message = bind_p (statFile env path) (\<lambda>found. check_p (found \<noteq> None) message)"

text \<open>What follows the check of perf.\<close>

definition benchmarkPath :: "profEnv \<Rightarrow> string" where
  "benchmarkPath env = pathJoin (pe_cwd env) ''bench/run_benchmark.py''"

definition profileRest :: "profEnv \<Rightarrow> profileOptions \<Rightarrow> unit prog" where
  "profileRest env opts =
     bind_p (currentPath env) (\<lambda>root.
       let benchmark = pathJoin root ''bench/run_benchmark.py'';
           server = pathJoin root ''build-perf/telemetry-server'';
           sender = pathJoin root ''build-perf/telemetry-load''
       in seq_p (requireFile env benchmark ''run from the repository root (missing bench/run_benchmark.py)'')
            (seq_p (requireFile env server ''missing build-perf binaries; run make profile-cpu-build'')
              (seq_p (requireFile env sender ''missing build-perf binaries; run make profile-cpu-build'')
                (withNativeBinaries env server sender (runModes env opts benchmark)))))"

definition runProfile :: "profEnv \<Rightarrow> profileOptions \<Rightarrow> string \<Rightarrow> unit prog" where
  "runProfile env opts executable =
     seq_p (fsCall env (MakeDirectories (po_output opts)) id)
       (seq_p (checkPerf env opts executable)
         (if po_check opts then return_p () else profileRest env opts))"


section \<open>Self test, workload and main\<close>

text \<open>The try blocks of the self test that expect an exception.\<close>

definition rejects_p :: "'a prog \<Rightarrow> string \<Rightarrow> unit prog" where
  "rejects_p m message =
     bind_p (catch_p (bind_p m (\<lambda>_. return_p False)) (\<lambda>_. return_p True)) (\<lambda>rejected. check_p rejected message)"

definition verifyFile :: "profEnv \<Rightarrow> string \<Rightarrow> nat \<Rightarrow> nat \<Rightarrow> nat \<Rightarrow> unit prog" where
  "verifyFile env path frames batch rep =
     bind_p (openRead env path) (\<lambda>content. lift_p (verifyCsv path content frames batch rep))"

definition validateFile :: "profEnv \<Rightarrow> string \<Rightarrow> unit prog" where
  "validateFile env path =
     bind_p (openRead env path) (\<lambda>content. bind_p (lift_p (validateReport path content)) (\<lambda>_. return_p ()))"

definition selfTestCsv :: "string \<Rightarrow> string" where
  "selfTestCsv newline =
     ''batch_frames,run,frames,bytes,verified_frames'' @ newline @
     ''128,1,100,3200,100'' @ newline @ ''128,2,100,3200,100'' @ newline"

definition selfTestLines :: "profEnv \<Rightarrow> string \<Rightarrow> string \<Rightarrow> unit prog" where
  "selfTestLines env path newline =
     seq_p (writeFile env path (selfTestCsv newline))
       (seq_p (verifyFile env path 100 128 2)
         (seq_p (rejects_p (verifyFile env path 100 128 3) ''partial benchmark was accepted'')
           (rejects_p (verifyFile env path 101 128 2) ''incorrect frame count was accepted'')))"

definition probeText :: string where "probeText = ''test executable'' @ nl"

definition selfTestProbe :: "profEnv \<Rightarrow> nativeBinaries \<Rightarrow> string prog" where
  "selfTestProbe env native =
     bind_p (statFile env (m_server native)) (\<lambda>server.
       if server = None then throw_p (RuntimeError ''native executable staging failed'')
       else bind_p (statFile env (m_sender native)) (\<lambda>sender.
         if sender = None then throw_p (RuntimeError ''native executable staging failed'')
         else bind_p (readFile env (m_server native)) (\<lambda>content.
           if content \<noteq> probeText then throw_p (RuntimeError ''native executable staging failed'')
           else return_p (m_dir native))))"

text \<open>The lifetime of the staged binaries; the result is the directory.\<close>

definition selfTestStaging :: "profEnv \<Rightarrow> string \<Rightarrow> string prog" where
  "selfTestStaging env executable = withNativeBinaries env executable executable (selfTestProbe env)"

definition existsDir :: "profEnv \<Rightarrow> string \<Rightarrow> bool prog" where
  "existsDir env dir = bind_p (fsCall env (StatFile dir) id) (\<lambda>_ s. return_p (dir \<in> set (ps_dirs s)) s)"

definition selfTestBody :: "profEnv \<Rightarrow> string \<Rightarrow> unit prog" where
  "selfTestBody env path =
     (let executable = pathJoin (pathParent path) (''telemetry-profiler-probe-'' @ dec_string (pe_pid env))
      in seq_p (selfTestLines env path nl)
          (seq_p (selfTestLines env path (cr # nl))
           (seq_p (writeFile env executable probeText)
            (bind_p (selfTestStaging env executable) (\<lambda>staged.
             seq_p (removeFile env executable)
              (bind_p (existsDir env staged) (\<lambda>left.
               seq_p (check_p (\<not> left) ''native executable staging was not cleaned up'')
                (seq_p (writeFile env path (''  26.25% 279 telemetry-server [.] SharedRingBuffer::tryPop()'' @ nl))
                 (seq_p (validateFile env path)
                  (seq_p (writeFile env path (''  26.25% 279 telemetry-server [.] 0x00000000005e58'' @ nl))
                   (seq_p (rejects_p (validateFile env path) ''unresolved perf report was accepted'')
                    (removeFile env path))))))))))))"

definition selfTest :: "profEnv \<Rightarrow> unit prog" where
  "selfTest env =
     bind_p (lift_p (parseNumber_profile ''128'' 1 4096 ''batch'')) (\<lambda>v.
       seq_p (check_p (v = 128) ''parse error'')
         (seq_p (rejects_p (lift_p (parseNumber_profile ''0'' 1 4096 ''batch'')) ''invalid number was accepted'')
           (seq_p (fsCall env TempRoot id)
             (let path = pathJoin (pe_tempRoot env) (''telemetry-profiler-test-'' @ dec_string (pe_pid env) @ ''.csv'')
              in catch_p (selfTestBody env path) (\<lambda>e. seq_p (removeFile env path) (throw_p e))))))"

text \<open>The arithmetic of the workload wraps at 64 bits.\<close>

definition workRound :: "u64 \<Rightarrow> u64" where
  "workRound accumulator =
     foldl (\<lambda>a i. a + ((of_nat i * 31) XOR drop_bit 3 a)) accumulator [0..<5000]"

fun workLoop :: "nat \<Rightarrow> nat list \<Rightarrow> u64 \<Rightarrow> u64 option" where
  "workLoop deadline [] accumulator = None"
| "workLoop deadline (now # clock) accumulator =
     (if now < deadline then workLoop deadline clock (workRound accumulator) else Some accumulator)"

definition checkWorkload :: "profEnv \<Rightarrow> u64 prog" where
  "checkWorkload env s =
     (case pe_clock env of
        [] \<Rightarrow> None
      | start # clock \<Rightarrow> map_option (\<lambda>sum. (Inr sum, s)) (workLoop (start + 350) clock 0))"

definition exitOf :: "((profError + 'a) \<times> profState) option \<Rightarrow> (exitCode \<times> profState) option" where
  "exitOf result =
     map_option (\<lambda>(r, s). (case r of Inl _ \<Rightarrow> EXIT_FAILURE | Inr _ \<Rightarrow> EXIT_SUCCESS, s)) result"

definition profileMain :: "string list \<Rightarrow> profEnv \<Rightarrow> profState \<Rightarrow> (exitCode \<times> profState) option" where
  "profileMain args env s =
     (case parseOptions_profile args defaultProfile of
        Inl _ \<Rightarrow> Some (EXIT_FAILURE, s)
      | Inr None \<Rightarrow> Some (EXIT_SUCCESS, s)
      | Inr (Some opts) \<Rightarrow>
          if po_selfTest opts then exitOf (selfTest env s)
          else if po_checkWorkload opts then exitOf (checkWorkload env s)
          else case pe_canonical env of
            Inl _ \<Rightarrow> Some (EXIT_FAILURE, s)
          | Inr executable \<Rightarrow> exitOf (runProfile env opts executable s))"


section \<open>What a program leaves alone\<close>

definition stagingCall :: "profCall \<Rightarrow> bool" where
  "stagingCall c \<longleftrightarrow> (case c of MakeTemp _ \<Rightarrow> True | RemoveTree _ \<Rightarrow> True | _ \<Rightarrow> False)"

lemma logged_fields [simp]:
  "ps_files (logged c s) = ps_files s" "ps_dirs (logged c s) = ps_dirs s" "ps_calls (logged c s) = ps_calls s @ [c]"
  by (simp_all add: logged_def)

lemma bind_p_cases:
  assumes "bind_p m k s = Some (r, s')"
  obtains (throws) e where "m s = Some (Inl e, s')" "r = Inl e"
  | (goes_on) v s1 where "m s = Some (Inr v, s1)" "k v s1 = Some (r, s')"
  using assms by (auto simp: bind_p_def split: option.splits sum.splits)

lemma catch_p_cases:
  assumes "catch_p m h s = Some (r, s')"
  obtains (throws) e s1 where "m s = Some (Inl e, s1)" "h e s1 = Some (r, s')"
  | (returns) v where "m s = Some (Inr v, s')" "r = Inr v"
  using assms by (auto simp: catch_p_def split: option.splits sum.splits)

lemma exitOf_Some: "exitOf x = Some (code, s') \<Longrightarrow> \<exists>r. x = Some (r, s') \<and> (code = EXIT_SUCCESS \<longleftrightarrow> (\<exists>v. r = Inr v))"
  by (cases x) (auto simp: exitOf_def split: sum.splits prod.splits)

text \<open>
  A relation between the state before and after that every call of the profiler keeps, except
  possibly those of the staging, is kept by every program made of such calls.
\<close>

locale call_relation =
  fixes rel :: "profState \<Rightarrow> profState \<Rightarrow> bool"
  assumes rel_refl: "rel s s"
    and rel_trans: "rel s s1 \<Longrightarrow> rel s1 s2 \<Longrightarrow> rel s s2"
    and rel_files: "rel s (s\<lparr>ps_files := f\<rparr>)"
    and rel_logged: "\<not> stagingCall c \<Longrightarrow> rel s (logged c s)"
begin

definition keeps :: "'a prog \<Rightarrow> bool" where
  "keeps m \<longleftrightarrow> (\<forall>s r s'. m s = Some (r, s') \<longrightarrow> rel s s')"

lemma keepsD: "keeps m \<Longrightarrow> m s = Some (r, s') \<Longrightarrow> rel s s'"
  unfolding keeps_def by blast

lemma rel_call: "\<not> stagingCall c \<Longrightarrow> rel s (logged c (s\<lparr>ps_files := f\<rparr>))"
  by (rule rel_trans [OF rel_files rel_logged])

lemma keeps_return: "keeps (return_p v)"
  by (auto simp: keeps_def return_p_def rel_refl)

lemma keeps_throw: "keeps (throw_p e)"
  by (auto simp: keeps_def throw_p_def rel_refl)

lemma keeps_bind: "keeps m \<Longrightarrow> (\<And>v. keeps (k v)) \<Longrightarrow> keeps (bind_p m k)"
  unfolding keeps_def by (intro allI impI, elim bind_p_cases) (blast intro: rel_trans)+

lemma keeps_catch: "keeps m \<Longrightarrow> (\<And>e. keeps (h e)) \<Longrightarrow> keeps (catch_p m h)"
  unfolding keeps_def by (intro allI impI, elim catch_p_cases) (blast intro: rel_trans)+

lemma keeps_seq: "keeps m \<Longrightarrow> keeps k \<Longrightarrow> keeps (seq_p m k)"
  unfolding seq_p_def by (rule keeps_bind)

lemma keeps_read: "keeps (\<lambda>s. return_p (f s) s)"
  by (auto simp: keeps_def return_p_def rel_refl)

lemma keeps_if: "(b \<Longrightarrow> keeps m) \<Longrightarrow> (\<not> b \<Longrightarrow> keeps m') \<Longrightarrow> keeps (if b then m else m')"
  by simp

lemma keeps_check: "keeps (check_p b message)"
  unfolding check_p_def by (intro keeps_if keeps_return keeps_throw)

lemma keeps_lift: "keeps (lift_p r)"
  by (cases r) (simp_all add: lift_p_def keeps_return keeps_throw)

lemma keeps_fsCall: "\<not> stagingCall c \<Longrightarrow> keeps (fsCall env c f)"
  by (auto simp: keeps_def fsCall_def rel_logged rel_call split: option.splits)

lemma keeps_calls:
  "keeps (removeFile env path)" "keeps (statFile env path)" "keeps (currentPath env)" "keeps (existsDir env path)"
  unfolding removeFile_def statFile_def currentPath_def existsDir_def
  by (intro keeps_fsCall keeps_bind keeps_return keeps_read; simp add: stagingCall_def)+

lemma keeps_streams:
  "keeps (openRead env path)" "keeps (writeFile env path content)" "keeps (setenv_p env name content)"
  by (auto simp: keeps_def openRead_def writeFile_def setenv_p_def Let_def rel_logged rel_call stagingCall_def
      split: option.splits)

lemma keeps_copyFile: "keeps (copyFile env path path')"
  by (auto simp: keeps_def copyFile_def rel_logged rel_call stagingCall_def split: option.splits if_splits)

lemma keeps_command: "keeps (command env arguments log timeoutSeconds)"
  by (auto simp: keeps_def command_def Let_def rel_logged rel_call stagingCall_def split: option.splits)

lemma keeps_readFile: "keeps (readFile env path)"
  unfolding readFile_def by (intro keeps_bind keeps_streams) (simp add: keeps_return keeps_throw split: option.splits)

lemma keeps_copyExecutable: "keeps (copyExecutable env path path')"
  unfolding copyExecutable_def by (intro keeps_seq keeps_copyFile keeps_fsCall) (simp add: stagingCall_def)

lemma keeps_rejects: "keeps m \<Longrightarrow> keeps (rejects_p m message)"
  unfolding rejects_p_def by (intro keeps_bind keeps_catch keeps_return keeps_check)

lemmas keeps_intros = keeps_return keeps_throw keeps_bind keeps_catch keeps_seq keeps_if keeps_check keeps_lift keeps_calls
  keeps_streams keeps_copyFile keeps_command keeps_readFile keeps_copyExecutable keeps_rejects

lemma keeps_checkPerf: "keeps (checkPerf env opts executable)"
  unfolding checkPerf_def Let_def by (intro keeps_intros)

lemma keeps_cacheSymbols: "keeps (cacheSymbols env opts binaries)"
  by (induction binaries) (simp_all add: keeps_intros)

lemma keeps_runModes: "keeps (runModes env opts benchmark native)"
  unfolding runModes_def runMode_def recordReport_def checkData_def by (intro keeps_intros keeps_cacheSymbols)

lemma keeps_destroy: "keeps m \<Longrightarrow> keeps d \<Longrightarrow> keeps (destroy_p m d)"
  unfolding keeps_def by (auto simp: destroy_p_def split: option.splits) (blast intro: rel_trans)+

end

text \<open>
  A stack of temporary directories that is observed through the state: calls other than those of the
  staging leave it alone, the staging pushes, and the removal pops, provided the environment is one in
  which the removal is seen.
\<close>

locale staging_stack =
  fixes stack :: "profState \<Rightarrow> string list option" and reliable :: "profEnv \<Rightarrow> bool"
  assumes stack_files: "stack (s\<lparr>ps_files := f\<rparr>) = stack s"
    and stack_logged: "\<not> stagingCall c \<Longrightarrow> stack (logged c s) = stack s"
    and stack_made: "stack s = Some t \<Longrightarrow> stack (logged (MakeTemp d) (s\<lparr>ps_dirs := d # ps_dirs s\<rparr>)) = Some (d # t)"
    and stack_removed: "reliable env \<Longrightarrow> stack s = Some (d # t) \<Longrightarrow> removeAll_p env d s = Some (r, s') \<Longrightarrow> stack s' = Some t"

sublocale staging_stack \<subseteq> call_relation "\<lambda>s s'. \<forall>t. stack s = Some t \<longrightarrow> stack s' = Some t"
  by unfold_locales (simp_all add: stack_files stack_logged)

context staging_stack
begin

lemma newNativeBinaries_stack:
  assumes "reliable env" and "stack s = Some t" and "newNativeBinaries env server sender s = Some (r, s')"
  shows "(\<exists>e. r = Inl e \<and> stack s' = Some t) \<or> (\<exists>native. r = Inr native \<and> stack s' = Some (m_dir native # t))"
proof (cases "errorNow env (MakeTemp (pe_temp env)) s")
  case (Some e)
  then show ?thesis using assms(2,3) by (auto simp: newNativeBinaries_def bind_p_def mkdtemp_def stack_logged stagingCall_def)
next
  case None
  let ?d = "pe_temp env" and ?s1 = "logged (MakeTemp (pe_temp env)) (s\<lparr>ps_dirs := pe_temp env # ps_dirs s\<rparr>)"
  let ?native = "nativeAt ?d"
  let ?m = "seq_p (copyExecutable env server (m_server ?native))
    (seq_p (copyExecutable env sender (m_sender ?native)) (return_p ?native))"
  have s1: "stack ?s1 = Some (?d # t)" using assms(2) by (rule stack_made)
  have "catch_p ?m (\<lambda>e. seq_p (removeAll_p env ?d) (throw_p e)) ?s1 = Some (r, s')"
    using None assms(3) by (simp add: newNativeBinaries_def bind_p_def mkdtemp_def Let_def)
  then obtain q s2 where q: "?m ?s1 = Some (q, s2)"
    and r: "(case q of Inl e \<Rightarrow> seq_p (removeAll_p env ?d) (throw_p e) s2 | Inr v \<Rightarrow> Some (Inr v, s2)) = Some (r, s')"
    by (auto simp: catch_p_def split: option.splits)
  have "\<forall>t. stack ?s1 = Some t \<longrightarrow> stack s2 = Some t" by (rule keepsD [of ?m, OF _ q]) (intro keeps_intros)
  with s1 have s2: "stack s2 = Some (?d # t)" by simp
  show ?thesis
  proof (cases q)
    case (Inl e)
    obtain s3 where s3: "removeAll_p env ?d s2 = Some (Inr (), s3)" by (simp add: removeAll_p_def)
    with Inl r have "r = Inl e" "s' = s3" by (simp_all add: seq_p_def bind_p_def throw_p_def)
    with stack_removed [OF assms(1) s2 s3] show ?thesis by simp
  next
    case (Inr v)
    have "v = ?native" using q Inr by (auto simp: seq_p_def bind_p_def return_p_def split: option.splits sum.splits)
    with Inr r s2 show ?thesis by (auto simp: nativeAt_def)
  qed
qed

lemma withNativeBinaries_stack:
  assumes "reliable env" and "\<And>native. keeps (body native)" and s: "stack s = Some t"
    and w: "withNativeBinaries env server sender body s = Some (r, s')"
  shows "stack s' = Some t"
proof -
  from w obtain q s1 where q: "newNativeBinaries env server sender s = Some (q, s1)"
    by (auto simp: withNativeBinaries_def bind_p_def split: option.splits)
  from newNativeBinaries_stack [OF assms(1) s q] show ?thesis
  proof
    assume "\<exists>e. q = Inl e \<and> stack s1 = Some t"
    then show ?thesis using w q by (auto simp: withNativeBinaries_def bind_p_def)
  next
    assume "\<exists>native. q = Inr native \<and> stack s1 = Some (m_dir native # t)"
    then obtain native where n: "q = Inr native" "stack s1 = Some (m_dir native # t)" by blast
    with w q obtain r2 s2 r3 where b: "body native s1 = Some (r2, s2)" "removeAll_p env (m_dir native) s2 = Some (r3, s')"
      by (auto simp: withNativeBinaries_def bind_p_def destroy_p_def split: option.splits)
    have "stack s2 = Some (m_dir native # t)" using keepsD [OF assms(2) b(1)] n(2) by simp
    from stack_removed [OF assms(1) this b(2)] show ?thesis .
  qed
qed

lemma keeps_withNativeBinaries:
  "reliable env \<Longrightarrow> (\<And>native. keeps (body native)) \<Longrightarrow> keeps (withNativeBinaries env server sender body)"
  unfolding keeps_def [of "withNativeBinaries env server sender body"] using withNativeBinaries_stack by blast

lemma keeps_runProfile: "reliable env \<Longrightarrow> keeps (runProfile env opts executable)"
  unfolding runProfile_def profileRest_def requireFile_def Let_def
  by (intro keeps_intros keeps_checkPerf keeps_withNativeBinaries keeps_runModes keeps_fsCall) (simp_all add: stagingCall_def)

lemma keeps_selfTest: "reliable env \<Longrightarrow> keeps (selfTest env)"
  unfolding selfTest_def selfTestBody_def selfTestLines_def verifyFile_def validateFile_def selfTestStaging_def selfTestProbe_def Let_def
  by (intro keeps_intros keeps_withNativeBinaries keeps_fsCall) (simp_all add: stagingCall_def)

lemma profileMain_stack:
  assumes "reliable env" and "profileMain args env s = Some (code, s')" and "stack s = Some t"
  shows "stack s' = Some t"
  using assms(2,3) keepsD [OF keeps_runProfile [OF assms(1)]] keepsD [OF keeps_selfTest [OF assms(1)]]
  by (auto simp: profileMain_def checkWorkload_def split: sum.splits option.splits if_splits list.splits dest!: exitOf_Some)

end

text \<open>The stack as the calls show it: a directory is removed only when it is the one made last.\<close>

fun stackStep :: "string list option \<Rightarrow> profCall \<Rightarrow> string list option" where
  "stackStep (Some t) (MakeTemp d) = Some (d # t)"
| "stackStep (Some (d' # t)) (RemoveTree d) = (if d' = d then Some t else None)"
| "stackStep (Some []) (RemoveTree d) = None"
| "stackStep t c = t"

definition tempStack :: "profCall list \<Rightarrow> string list option" where
  "tempStack cs = foldl stackStep (Some []) cs"

lemma stackStep_other: "\<not> stagingCall c \<Longrightarrow> stackStep t c = t"
  by (cases t; cases c) (auto simp: stagingCall_def)

interpretation made: staging_stack "\<lambda>s. tempStack (ps_calls s)" "\<lambda>_. True"
  by unfold_locales (auto simp: tempStack_def stackStep_other removeAll_p_def split: option.splits)

definition removalsWork :: "profEnv \<Rightarrow> bool" where
  "removalsWork env \<longleftrightarrow> (\<forall>n d. pe_errors env n (RemoveTree d) = None)"

interpretation left_over: staging_stack "\<lambda>s. Some (ps_dirs s)" removalsWork
  by unfold_locales (auto simp: removalsWork_def removeAll_p_def errorNow_def)

text \<open>Calls are only added.\<close>

interpretation grows: call_relation "\<lambda>s s'. \<exists>more. ps_calls s' = ps_calls s @ more"
  by unfold_locales auto


section \<open>What success shows\<close>

lemma bind_p_Inr: "bind_p m k s = Some (Inr v, s') \<longleftrightarrow> (\<exists>a s1. m s = Some (Inr a, s1) \<and> k a s1 = Some (Inr v, s'))"
  by (auto simp: bind_p_def split: option.splits sum.splits)

lemma seq_p_Inr: "seq_p m k s = Some (Inr v, s') \<longleftrightarrow> (\<exists>s1. m s = Some (Inr (), s1) \<and> k s1 = Some (Inr v, s'))"
  by (auto simp: seq_p_def bind_p_Inr)

lemma return_p_Inr: "return_p u s = Some (Inr v, s') \<longleftrightarrow> u = v \<and> s' = s"
  by (auto simp: return_p_def)

lemma check_p_Inr: "check_p b message s = Some (Inr u, s') \<longleftrightarrow> b \<and> s' = s"
  by (auto simp: check_p_def return_p_def throw_p_def)

lemma lift_p_Inr: "lift_p r s = Some (Inr v, s') \<longleftrightarrow> r = Inr v \<and> s' = s"
  by (cases r) (auto simp: lift_p_def return_p_def throw_p_def)

lemma fsCall_Inr: "fsCall env c f s = Some (Inr u, s') \<longleftrightarrow> errorNow env c s = None \<and> s' = logged c (s\<lparr>ps_files := f (ps_files s)\<rparr>)"
  by (auto simp: fsCall_def split: option.splits)

lemma openRead_Inr:
  "openRead env path s = Some (Inr content, s') \<longleftrightarrow>
     content = (if errorNow env (ReadFile path (ps_files s path)) s = None then ps_files s path else None) \<and>
     s' = logged (ReadFile path content) s"
  by (auto simp: openRead_def Let_def)

lemma command_Inr:
  "command env arguments log timeoutSeconds s = Some (Inr u, s') \<longleftrightarrow>
     (\<exists>trace. runCommand (pe_spawn env (length (ps_calls s)) arguments)
          (pe_effect env (length (ps_calls s)) arguments log (ps_files s) log) timeoutSeconds =
         Some (Inr (), trace) \<and>
       s' = logged (Command arguments log timeoutSeconds (Inr ()) trace)
         (s\<lparr>ps_files := pe_effect env (length (ps_calls s)) arguments log (ps_files s)\<rparr>))"
proof (cases "spawned (pe_spawn env (length (ps_calls s)) arguments)")
  case True
  then show ?thesis by (auto simp: command_def Let_def split: option.splits sum.splits)
next
  case False
  then have "runCommand (pe_spawn env (length (ps_calls s)) arguments) logFile timeoutSeconds \<noteq> Some (Inr (), trace)" for logFile trace
    using runCommand_not_spawned [OF False] by blast
  then show ?thesis using False by (auto simp: command_def Let_def split: option.splits sum.splits)
qed

lemmas success = bind_p_Inr seq_p_Inr return_p_Inr check_p_Inr lift_p_Inr fsCall_Inr openRead_Inr command_Inr

text \<open>The evidence that a mode leaves in the list of calls: the command of the mode succeeded, and the CSV file
  that was read right after it is what the command wrote, since the file did not exist before.\<close>

definition reportDone :: "profileOptions \<Rightarrow> nat \<Rightarrow> profCall list \<Rightarrow> bool" where
  "reportDone opts n cs \<longleftrightarrow>
     (\<exists>m trace report v. n + 1 < m \<and> m + 1 < length cs \<and>
        cs ! m = Command (reportCommand opts) (reportPath opts) 60 (Inr ()) trace \<and>
        cs ! (m + 1) = ReadFile (reportPath opts) report \<and> validateReport (reportPath opts) report = Inr v)"

text \<open>What the command of a mode does to the files.\<close>

definition modeLog :: "profileOptions \<Rightarrow> string \<Rightarrow> string" where
  "modeLog opts mode = pathJoin (po_output opts) (mode @ ''.log'')"

definition modeEffect :: "profEnv \<Rightarrow> profileOptions \<Rightarrow> string \<Rightarrow> string \<Rightarrow> nat \<Rightarrow> files \<Rightarrow> files" where
  "modeEffect env opts benchmark mode n = pe_effect env n (modeCommand opts benchmark mode) (modeLog opts mode)"

definition modeDone :: "profEnv \<Rightarrow> profileOptions \<Rightarrow> string \<Rightarrow> string \<Rightarrow> profCall list \<Rightarrow> bool" where
  "modeDone env opts benchmark mode cs \<longleftrightarrow>
     (\<exists>n fs trace. n + 1 < length cs \<and>
        cs ! n = Command (modeCommand opts benchmark mode) (modeLog opts mode) (po_timeout opts) (Inr ()) trace \<and>
        fs (csvPath opts mode) = None \<and>
        cs ! (n + 1) = ReadFile (csvPath opts mode) (modeEffect env opts benchmark mode n fs (csvPath opts mode)) \<and>
        verifyCsv (csvPath opts mode) (modeEffect env opts benchmark mode n fs (csvPath opts mode)) (po_frames opts) (po_batch opts) (po_repeat opts) = Inr () \<and>
        (mode = ''record'' \<longrightarrow> fs (dataPath opts) = None \<and>
           (\<exists>d. modeEffect env opts benchmark mode n fs (dataPath opts) = Some d \<and> d \<noteq> []) \<and> reportDone opts n cs))"

lemma reportDone_append: "reportDone opts n cs \<Longrightarrow> reportDone opts n (cs @ cs')"
  unfolding reportDone_def
proof (elim exE conjE)
  fix m trace report v
  assume "n + 1 < m" "m + 1 < length cs" "cs ! m = Command (reportCommand opts) (reportPath opts) 60 (Inr ()) trace"
    "cs ! (m + 1) = ReadFile (reportPath opts) report" "validateReport (reportPath opts) report = Inr v"
  then show "\<exists>m trace report v. n + 1 < m \<and> m + 1 < length (cs @ cs') \<and>
      (cs @ cs') ! m = Command (reportCommand opts) (reportPath opts) 60 (Inr ()) trace \<and>
      (cs @ cs') ! (m + 1) = ReadFile (reportPath opts) report \<and> validateReport (reportPath opts) report = Inr v"
    by (intro exI [of _ m] exI [of _ trace] exI [of _ report] exI [of _ v]) (simp add: nth_append)
qed

lemma modeDone_append: "modeDone env opts benchmark mode cs \<Longrightarrow> modeDone env opts benchmark mode (cs @ cs')"
  unfolding modeDone_def
  by (elim exE conjE) (intro exI conjI, auto simp: nth_append reportDone_append)

lemma recordReport_success:
  assumes "recordReport env opts native s = Some (Inr (), s')"
  shows "(\<exists>d. ps_files s (dataPath opts) = Some d \<and> d \<noteq> []) \<and>
    (\<forall>n. n + 1 < length (ps_calls s) \<longrightarrow> reportDone opts n (ps_calls s')) \<and> (\<exists>more. ps_calls s' = ps_calls s @ more)"
proof -
  from assms obtain s1 s2 where d: "checkData env (dataPath opts) s = Some (Inr (), s1)"
    and c: "cacheSymbols env opts [m_server native, m_sender native] s1 = Some (Inr (), s2)"
    and r: "\<exists>s3. command env (reportCommand opts) (reportPath opts) 60 s2 = Some (Inr (), s3) \<and>
      bind_p (openRead env (reportPath opts)) (\<lambda>content.
             bind_p (lift_p (validateReport (reportPath opts) content)) (\<lambda>_. return_p ())) s3 = Some (Inr (), s')"
    unfolding recordReport_def seq_p_Inr by blast
  from r obtain trace report v fs where s': "ps_calls s' = ps_calls s2 @ [Command (reportCommand opts) (reportPath opts) 60 (Inr ()) trace,
      ReadFile (reportPath opts) report]" "validateReport (reportPath opts) report = Inr v"
    by (auto simp: success)
  obtain more where m: "ps_calls s2 = ps_calls s1 @ more"
    using grows.keepsD [OF grows.keeps_cacheSymbols c] by blast
  have "ps_calls s1 = ps_calls s @ [StatFile (dataPath opts), StatFile (dataPath opts)]"
    "\<exists>d. ps_files s (dataPath opts) = Some d \<and> d \<noteq> []"
    using d by (auto simp: checkData_def statFile_def success throw_p_def split: if_splits)
  moreover have "reportDone opts n (ps_calls s')" if "n + 1 < length (ps_calls s)" for n
    unfolding reportDone_def using that s' m calculation(1)
    by (intro exI [of _ "length (ps_calls s2)"] exI [of _ trace] exI [of _ report] exI [of _ v]) (simp add: nth_append)
  ultimately show ?thesis using m s'(1) by simp
qed

lemma verifyCsv_found: "verifyCsv path None frames batch rep \<noteq> Inr ()"
  by (simp add: verifyCsv_def)

lemma runMode_success:
  assumes "runMode env opts native benchmark mode s = Some (Inr (), s')"
  shows "modeDone env opts benchmark mode (ps_calls s') \<and> (\<exists>more. ps_calls s' = ps_calls s @ more)"
proof -
  let ?csv = "csvPath opts mode" and ?log = "pathJoin (po_output opts) (mode @ ''.log'')"
  let ?n = "length (ps_calls s) + 2"
  let ?old = "if mode = ''record'' then dataPath opts else statPath opts"
  let ?fs = "(ps_files s)(?csv := None, ?old := None)"
  let ?rest = "if mode = ''record'' then recordReport env opts native else bind_p (openRead env (statPath opts)) (\<lambda>_. return_p ())"
  from assms obtain s1 s2 s3 s4 where s1: "removeFile env ?csv s = Some (Inr (), s1)" and s2: "removeFile env ?old s1 = Some (Inr (), s2)"
    and s3: "command env (modeCommand opts benchmark mode) ?log (po_timeout opts) s2 = Some (Inr (), s3)"
    and c: "bind_p (openRead env ?csv) (\<lambda>content.
      lift_p (verifyCsv ?csv content (po_frames opts) (po_batch opts) (po_repeat opts))) s3 = Some (Inr (), s4)"
    and r: "?rest s4 = Some (Inr (), s')"
    unfolding runMode_def seq_p_Inr by blast
  have f2: "ps_files s2 = ?fs" "ps_calls s2 = ps_calls s @ [RemoveFile ?csv, RemoveFile ?old]"
    using s1 s2 by (simp_all add: removeFile_def fsCall_Inr)
  from s3 obtain trace where f3: "ps_files s3 = modeEffect env opts benchmark mode ?n ?fs"
    "ps_calls s3 = ps_calls s2 @ [Command (modeCommand opts benchmark mode) ?log (po_timeout opts) (Inr ()) trace]"
    by (auto simp: command_Inr f2 modeEffect_def modeLog_def)
  have v: "verifyCsv ?csv (modeEffect env opts benchmark mode ?n ?fs ?csv) (po_frames opts) (po_batch opts) (po_repeat opts) = Inr ()"
    and f4: "ps_files s4 = ps_files s3" "ps_calls s4 = ps_calls s3 @ [ReadFile ?csv (modeEffect env opts benchmark mode ?n ?fs ?csv)]"
    using c verifyCsv_found f3(1) by (simp_all add: bind_p_Inr openRead_Inr lift_p_Inr split: if_splits)
  note s4 = f4(1) [unfolded f3(1)] f4(2) [unfolded f3(2) f2(2)]
  define cs where "cs = ps_calls s4"
  have n: "?n + 1 < length cs" "cs ! ?n = Command (modeCommand opts benchmark mode) ?log (po_timeout opts) (Inr ()) trace"
    "cs ! (?n + 1) = ReadFile ?csv (modeEffect env opts benchmark mode ?n ?fs ?csv)"
    by (simp_all add: cs_def s4(2) nth_append)
  have "\<exists>more. ps_calls s' = cs @ more \<and> (mode = ''record'' \<longrightarrow>
      (\<exists>d. modeEffect env opts benchmark mode ?n ?fs (dataPath opts) = Some d \<and> d \<noteq> []) \<and> reportDone opts ?n (ps_calls s'))"
  proof (cases "mode = ''record''")
    case True
    with r have "recordReport env opts native s4 = Some (Inr (), s')" by simp
    from recordReport_success [OF this] n(1) s4(1) show ?thesis unfolding cs_def by auto
  next
    case False
    then show ?thesis using r by (auto simp: success cs_def)
  qed
  then obtain more where m: "ps_calls s' = cs @ more" "mode = ''record'' \<longrightarrow>
      (\<exists>d. modeEffect env opts benchmark mode ?n ?fs (dataPath opts) = Some d \<and> d \<noteq> []) \<and> reportDone opts ?n (ps_calls s')" by blast
  have "modeDone env opts benchmark mode (ps_calls s')"
    unfolding modeDone_def
    by (rule exI [of _ ?n], rule exI [of _ ?fs], rule exI [of _ trace]) (use n m v in \<open>auto simp: nth_append modeLog_def\<close>)
  then show ?thesis using m(1) s4(2) cs_def by simp
qed

lemma runModes_success:
  assumes "runModes env opts benchmark native s = Some (Inr (), s')"
  shows "(po_mode opts \<noteq> ''stat'' \<longrightarrow> modeDone env opts benchmark ''record'' (ps_calls s')) \<and>
    (po_mode opts \<noteq> ''record'' \<longrightarrow> modeDone env opts benchmark ''stat'' (ps_calls s'))"
proof -
  from assms obtain s1 s2 where
    r1: "(if po_mode opts \<noteq> ''stat'' then runMode env opts native benchmark ''record'' else return_p ()) s1 = Some (Inr (), s2)"
    and r2: "(if po_mode opts \<noteq> ''record'' then runMode env opts native benchmark ''stat'' else return_p ()) s2 = Some (Inr (), s')"
    unfolding runModes_def bind_p_Inr seq_p_Inr by (auto simp: throw_p_def seq_p_Inr split: if_split_asm)
  have "po_mode opts \<noteq> ''stat'' \<longrightarrow> modeDone env opts benchmark ''record'' (ps_calls s2)"
    using r1 runMode_success by auto
  moreover have "(po_mode opts \<noteq> ''record'' \<longrightarrow> modeDone env opts benchmark ''stat'' (ps_calls s')) \<and> (\<exists>more. ps_calls s' = ps_calls s2 @ more)"
    using r2 runMode_success by (cases "po_mode opts = ''record''") (auto simp: return_p_Inr)
  ultimately show ?thesis using modeDone_append by metis
qed

lemma withNativeBinaries_success:
  assumes "withNativeBinaries env server sender body s = Some (Inr v, s')"
  shows "\<exists>native s1 s2 d. body native s1 = Some (Inr v, s2) \<and> ps_calls s' = ps_calls s2 @ [RemoveTree d]"
proof -
  from assms obtain native s1 where "destroy_p (body native) (removeAll_p env (m_dir native)) s1 = Some (Inr v, s')"
    unfolding withNativeBinaries_def bind_p_Inr by blast
  then have "\<exists>s2. body native s1 = Some (Inr v, s2) \<and> ps_calls s' = ps_calls s2 @ [RemoveTree (m_dir native)]"
    by (auto simp: destroy_p_def removeAll_p_def split: option.splits)
  then show ?thesis by blast
qed

text \<open>The calls with which every run begins.\<close>

definition checkCalls :: "profileOptions \<Rightarrow> string \<Rightarrow> commandCall list \<Rightarrow> profCall list" where
  "checkCalls opts executable trace =
     [MakeDirectories (po_output opts),
      Command (checkCommand opts executable) (pathJoin (po_output opts) ''check.log'') 20 (Inr ()) trace,
      RemoveFile (pathJoin (po_output opts) ''check.data'')]"

lemma catch_rethrow_Inr: "catch_p m (\<lambda>e. seq_p d (throw_p e)) s = Some (Inr v, s') \<longleftrightarrow> m s = Some (Inr v, s')"
  by (auto simp: catch_p_def seq_p_Inr throw_p_def split: option.splits sum.splits)

lemma checkPerf_success:
  assumes "checkPerf env opts executable s = Some (Inr (), s')"
  shows "\<exists>trace. ps_calls s' = ps_calls s @ [Command (checkCommand opts executable) (pathJoin (po_output opts) ''check.log'') 20 (Inr ()) trace,
    RemoveFile (pathJoin (po_output opts) ''check.data'')]"
proof -
  let ?c = "command env (checkCommand opts executable) (pathJoin (po_output opts) ''check.log'') 20"
  from assms obtain s1 where "catch_p ?c (\<lambda>e. seq_p (removeFile env (pathJoin (po_output opts) ''check.data'')) (throw_p e)) s = Some (Inr (), s1)"
    and r: "removeFile env (pathJoin (po_output opts) ''check.data'') s1 = Some (Inr (), s')"
    unfolding checkPerf_def Let_def seq_p_Inr by blast
  then have "?c s = Some (Inr (), s1)" unfolding catch_rethrow_Inr by blast
  then show ?thesis using r by (auto simp: command_Inr removeFile_def fsCall_Inr)
qed

lemma grows_staging: "grows.keeps (mkdtemp env)" "grows.keeps (removeAll_p env dir)"
  by (auto simp: grows.keeps_def mkdtemp_def removeAll_p_def split: option.splits)

lemma grows_withNativeBinaries:
  "(\<And>native. grows.keeps (body native)) \<Longrightarrow> grows.keeps (withNativeBinaries env server sender body)"
  unfolding withNativeBinaries_def newNativeBinaries_def Let_def
  by (intro grows.keeps_intros grows.keeps_destroy grows_staging)

lemma grows_profileRest: "grows.keeps (profileRest env opts)"
  unfolding profileRest_def Let_def requireFile_def
  by (intro grows.keeps_intros grows_withNativeBinaries grows.keeps_runModes)

lemma profileRest_success:
  assumes "profileRest env opts s = Some (Inr (), s')"
  shows "(po_mode opts \<noteq> ''stat'' \<longrightarrow> modeDone env opts (benchmarkPath env) ''record'' (ps_calls s')) \<and>
    (po_mode opts \<noteq> ''record'' \<longrightarrow> modeDone env opts (benchmarkPath env) ''stat'' (ps_calls s'))"
proof -
  from assms obtain s1 where "withNativeBinaries env (pathJoin (pe_cwd env) ''build-perf/telemetry-server'')
      (pathJoin (pe_cwd env) ''build-perf/telemetry-load'') (runModes env opts (benchmarkPath env)) s1 = Some (Inr (), s')"
    unfolding profileRest_def currentPath_def Let_def bind_p_Inr seq_p_Inr return_p_Inr benchmarkPath_def by blast
  from withNativeBinaries_success [OF this] obtain native s2 s3 d
    where "runModes env opts (benchmarkPath env) native s2 = Some (Inr (), s3)" "ps_calls s' = ps_calls s3 @ [RemoveTree d]" by blast
  with runModes_success [OF this(1)] show ?thesis by (simp add: modeDone_append)
qed

lemma runProfile_success:
  assumes "runProfile env opts executable s = Some (Inr (), s')"
  shows "(\<exists>trace more. ps_calls s' = ps_calls s @ checkCalls opts executable trace @ more \<and> (po_check opts \<longrightarrow> more = [])) \<and>
    (\<not> po_check opts \<longrightarrow> (po_mode opts \<noteq> ''stat'' \<longrightarrow> modeDone env opts (benchmarkPath env) ''record'' (ps_calls s')) \<and>
      (po_mode opts \<noteq> ''record'' \<longrightarrow> modeDone env opts (benchmarkPath env) ''stat'' (ps_calls s')))"
proof -
  from assms obtain s1 s2 where s1: "fsCall env (MakeDirectories (po_output opts)) id s = Some (Inr (), s1)"
    and s2: "checkPerf env opts executable s1 = Some (Inr (), s2)"
    and r: "(if po_check opts then return_p () else profileRest env opts) s2 = Some (Inr (), s')"
    unfolding runProfile_def seq_p_Inr by blast
  from checkPerf_success [OF s2] s1 obtain trace where c: "ps_calls s2 = ps_calls s @ checkCalls opts executable trace"
    by (auto simp: fsCall_Inr checkCalls_def)
  show ?thesis
  proof (cases "po_check opts")
    case True
    then show ?thesis using r c by (auto simp: return_p_Inr)
  next
    case False
    with r have p: "profileRest env opts s2 = Some (Inr (), s')" by simp
    with grows.keepsD [OF grows_profileRest p] profileRest_success [OF p] c False show ?thesis by auto
  qed
qed

lemma profileMain_success:
  assumes "profileMain args env s = Some (EXIT_SUCCESS, s')" and "parseOptions_profile args defaultProfile = Inr (Some opts)"
    and "\<not> po_selfTest opts" and "\<not> po_checkWorkload opts"
  shows "\<exists>executable. pe_canonical env = Inr executable \<and> runProfile env opts executable s = Some (Inr (), s')"
  using assms by (auto simp: profileMain_def split: sum.splits dest!: exitOf_Some)

end
