(* ===== verification/ProfilerLive.thy ===== *)
theory ProfilerLive
  imports ProfilerRun
begin

text \<open>
  Runs of the profiler that succeed: rules for programs that return, with which the self test is
  shown to pass and a profile to complete when the filesystem works and the tools do their part;
  and the properties of \<open>bench/profile_cpu.cpp\<close> that span its functions.
\<close>

section \<open>Runs in which nothing fails\<close>

definition noErrors :: "profEnv \<Rightarrow> bool" where
  "noErrors env \<longleftrightarrow> (\<forall>n c. pe_errors env n c = None)"

text \<open>A program returns, with a value and the files and directories it leaves.\<close>

definition runs :: "'a prog \<Rightarrow> profState \<Rightarrow> 'a \<Rightarrow> files \<Rightarrow> string list \<Rightarrow> bool" where
  "runs m s v F D \<longleftrightarrow> (\<exists>s'. m s = Some (Inr v, s') \<and> ps_files s' = F \<and> ps_dirs s' = D)"

lemma runs_bind:
  assumes "runs m s v F D" and "\<And>s1. ps_files s1 = F \<Longrightarrow> ps_dirs s1 = D \<Longrightarrow> runs (k v) s1 v' F' D'"
  shows "runs (bind_p m k) s v' F' D'"
  using assms unfolding runs_def bind_p_Inr by blast

lemma runs_seq:
  assumes "runs m s () F D" and "\<And>s1. ps_files s1 = F \<Longrightarrow> ps_dirs s1 = D \<Longrightarrow> runs k s1 v' F' D'"
  shows "runs (seq_p m k) s v' F' D'"
  unfolding seq_p_def using assms by (rule runs_bind)

lemma runs_catch: "runs m s v F D \<Longrightarrow> runs (catch_p m h) s v F D"
  unfolding runs_def by (auto simp: catch_p_def)

lemma runs_return: "ps_files s = F \<Longrightarrow> ps_dirs s = D \<Longrightarrow> v = v' \<Longrightarrow> runs (return_p v) s v' F D"
  by (simp add: runs_def return_p_def)

lemma runs_check: "b \<Longrightarrow> ps_files s = F \<Longrightarrow> ps_dirs s = D \<Longrightarrow> runs (check_p b message) s () F D"
  by (simp add: check_p_def runs_return)

lemma runs_lift: "r = Inr v \<Longrightarrow> ps_files s = F \<Longrightarrow> ps_dirs s = D \<Longrightarrow> runs (lift_p r) s v F D"
  by (simp add: lift_p_def runs_return)

lemma runs_fsCall: "noErrors env \<Longrightarrow> f (ps_files s) = F \<Longrightarrow> ps_dirs s = D \<Longrightarrow> runs (fsCall env c f) s () F D"
  by (simp add: runs_def fsCall_Inr errorNow_def noErrors_def)

lemma runs_removeFile: "noErrors env \<Longrightarrow> ps_files s = F \<Longrightarrow> ps_dirs s = D \<Longrightarrow> runs (removeFile env path) s () (F(path := None)) D"
  unfolding removeFile_def by (rule runs_fsCall) simp_all

lemma runs_openRead: "noErrors env \<Longrightarrow> ps_files s = F \<Longrightarrow> ps_dirs s = D \<Longrightarrow> runs (openRead env path) s (F path) F D"
  by (auto simp: runs_def openRead_Inr errorNow_def noErrors_def)

lemma runs_statFile: "noErrors env \<Longrightarrow> ps_files s = F \<Longrightarrow> ps_dirs s = D \<Longrightarrow> runs (statFile env path) s (F path) F D"
  unfolding statFile_def by (rule runs_bind [OF runs_fsCall]) (auto simp: runs_def return_p_def)

lemma runs_existsDir: "noErrors env \<Longrightarrow> ps_files s = F \<Longrightarrow> ps_dirs s = D \<Longrightarrow> runs (existsDir env path) s (path \<in> set D) F D"
  unfolding existsDir_def by (rule runs_bind [OF runs_fsCall]) (auto simp: runs_def return_p_def)

lemma runs_writeFile:
  "noErrors env \<Longrightarrow> ps_files s = F \<Longrightarrow> ps_dirs s = D \<Longrightarrow> runs (writeFile env path content) s () (F(path \<mapsto> content)) D"
  by (auto simp: runs_def writeFile_def errorNow_def noErrors_def)

lemma runs_copyExecutable:
  "noErrors env \<Longrightarrow> ps_files s = F \<Longrightarrow> ps_dirs s = D \<Longrightarrow> F path = Some content \<Longrightarrow> F path' = None \<Longrightarrow>
     runs (copyExecutable env path path') s () (F(path' \<mapsto> content)) D"
  unfolding copyExecutable_def
  by (rule runs_seq [of _ _ "F(path' \<mapsto> content)" D])
    (auto simp: runs_def copyFile_def errorNow_def noErrors_def fsCall_Inr)

text \<open>An exception that is expected.\<close>

lemma runs_rejects:
  assumes "\<exists>s'. m s = Some (Inl e, s') \<and> ps_files s' = F \<and> ps_dirs s' = D"
  shows "runs (rejects_p m message) s () F D"
proof -
  obtain s' where s': "m s = Some (Inl e, s')" "ps_files s' = F" "ps_dirs s' = D" using assms by blast
  then have "catch_p (bind_p m (\<lambda>_. return_p False)) (\<lambda>_. return_p True) s = Some (Inr True, s')"
    by (simp add: catch_p_def bind_p_def return_p_def)
  then show ?thesis using s' unfolding rejects_p_def runs_def bind_p_Inr by (auto simp: check_p_def return_p_def)
qed

text \<open>The staged copies are gone when the body has returned.\<close>

lemma isPrefix_append: "isPrefix p (p @ q)"
  by (induction p) auto

lemma pathJoin_plain: "a \<noteq> [] \<Longrightarrow> last a \<noteq> CHR ''/'' \<Longrightarrow> b \<noteq> [] \<Longrightarrow> hd b \<noteq> CHR ''/'' \<Longrightarrow> pathJoin a b = a @ ''/'' @ b"
  by (simp add: pathJoin_def)

definition freshTemp :: "profEnv \<Rightarrow> files \<Rightarrow> bool" where
  "freshTemp env F \<longleftrightarrow> pe_temp env \<noteq> [] \<and> last (pe_temp env) \<noteq> CHR ''/'' \<and>
     (\<forall>p. isPrefix (pe_temp env @ ''/'') p \<longrightarrow> F p = None)"

definition stagedBinaries :: "profEnv \<Rightarrow> nativeBinaries" where
  "stagedBinaries env = \<lparr>m_dir = pe_temp env, m_server = pe_temp env @ ''/telemetry-server'', m_sender = pe_temp env @ ''/telemetry-load''\<rparr>"

lemma nativeAt_temp: "freshTemp env F \<Longrightarrow> nativeAt (pe_temp env) = stagedBinaries env"
  by (simp add: nativeAt_def stagedBinaries_def freshTemp_def pathJoin_plain)

lemma runs_newNativeBinaries:
  assumes "noErrors env" and "ps_files s = F" and "ps_dirs s = D" and "freshTemp env F"
    and "F server = Some a" and "F sender = Some b"
  shows "runs (newNativeBinaries env server sender) s (stagedBinaries env)
    (F(m_server (stagedBinaries env) \<mapsto> a, m_sender (stagedBinaries env) \<mapsto> b)) (pe_temp env # D)"
proof -
  let ?native = "stagedBinaries env"
  have fresh: "F (m_server ?native) = None" "F (m_sender ?native) = None"
    using assms(4) isPrefix_append [of "pe_temp env @ ''/''" "''telemetry-server''"] isPrefix_append [of "pe_temp env @ ''/''" "''telemetry-load''"]
    by (simp_all add: freshTemp_def stagedBinaries_def)
  have ne: "m_server ?native \<noteq> m_sender ?native" "server \<noteq> m_server ?native" "sender \<noteq> m_server ?native"
    using fresh assms(5,6) by (auto simp: stagedBinaries_def)
  show ?thesis unfolding newNativeBinaries_def Let_def
  proof (rule runs_bind [of _ _ "pe_temp env" F "pe_temp env # D"])
    show "runs (mkdtemp env) s (pe_temp env) F (pe_temp env # D)"
      using assms(1-3) by (simp add: runs_def mkdtemp_def errorNow_def noErrors_def)
    fix s1 :: profState assume "ps_files s1 = F" "ps_dirs s1 = pe_temp env # D"
    then show "runs (catch_p (seq_p (copyExecutable env server (m_server (nativeAt (pe_temp env))))
        (seq_p (copyExecutable env sender (m_sender (nativeAt (pe_temp env)))) (return_p (nativeAt (pe_temp env)))))
        (\<lambda>e. seq_p (removeAll_p env (pe_temp env)) (throw_p e))) s1 ?native (F(m_server ?native \<mapsto> a, m_sender ?native \<mapsto> b)) (pe_temp env # D)"
      unfolding nativeAt_temp [OF assms(4)]
      by (intro runs_catch runs_seq [OF runs_copyExecutable [OF assms(1)]] runs_seq [OF runs_copyExecutable [OF assms(1)]] runs_return)
        (use fresh ne assms(5,6) in simp_all)
  qed
qed

lemma runs_withNativeBinaries:
  assumes "noErrors env" and "ps_files s = F" and "ps_dirs s = D" and "freshTemp env F"
    and "F server = Some a" and "F sender = Some b"
    and body: "\<And>s1. ps_files s1 = F(m_server (stagedBinaries env) \<mapsto> a, m_sender (stagedBinaries env) \<mapsto> b) \<Longrightarrow>
      ps_dirs s1 = pe_temp env # D \<Longrightarrow> runs (body (stagedBinaries env)) s1 v F' (pe_temp env # D)"
    and F'': "F'' = (\<lambda>p. if isPrefix (pe_temp env @ ''/'') p then None else F' p)"
  shows "runs (withNativeBinaries env server sender body) s v F'' D"
  unfolding withNativeBinaries_def
proof (rule runs_bind [OF runs_newNativeBinaries [OF assms(1-6)]])
  let ?native = "stagedBinaries env"
  fix s1 :: profState assume "ps_files s1 = F(m_server ?native \<mapsto> a, m_sender ?native \<mapsto> b)" "ps_dirs s1 = pe_temp env # D"
  from body [OF this] obtain s2 where "body ?native s1 = Some (Inr v, s2)" "ps_files s2 = F'" "ps_dirs s2 = pe_temp env # D"
    by (auto simp: runs_def)
  then show "runs (destroy_p (body ?native) (removeAll_p env (m_dir ?native))) s1 v F'' D"
    using assms(1) F'' by (simp add: runs_def destroy_p_def removeAll_p_def errorNow_def noErrors_def stagedBinaries_def cong: if_cong)
qed


section \<open>The self test passes\<close>

lemma selfTestCsv_printed:
  "selfTestCsv eol = printCsv eol [[''batch_frames'', ''run'', ''frames'', ''bytes'', ''verified_frames''],
     [''128'', ''1'', ''100'', ''3200'', ''100''], [''128'', ''2'', ''100'', ''3200'', ''100'']]"
  by (simp add: selfTestCsv_def printCsv_def)

lemma decimals: "dec_string 0 = ''0''" "dec_string 1 = ''1''" "dec_string 2 = ''2''" "dec_string 100 = ''100''" "dec_string 101 = ''101''" "dec_string 128 = ''128''"
  "dec_string 3200 = ''3200''" "dec_string 3232 = ''3232''"
  by code_simp+

lemma verifyCsv_selfTest:
  assumes "isEol eol"
  shows "verifyCsv path (Some (selfTestCsv eol)) frames batch rep = Inr () \<longleftrightarrow> rep = 2 \<and> dec_string frames = ''100'' \<and>
    dec_string batch = ''128'' \<and> dec_string (frames * 32) = ''3200''"
proof -
  let ?names = "[''batch_frames'', ''run'', ''frames'', ''bytes'', ''verified_frames'']"
  let ?rows = "[[''128'', ''1'', ''100'', ''3200'', ''100''], [''128'', ''2'', ''100'', ''3200'', ''100'']]"
  have p: "list_all (list_all plainField) (?names # ?rows)" by (simp add: plainField_def)
  have c: "csvColumnNames \<subseteq> set ?names" by (simp add: csvColumnNames_def)
  have d: "dec_string (Suc 0) = ''1''" "dec_string 2 = ''2''" using decimals by simp_all
  have l: "list_all (\<lambda>r. length r = length ?names) ?rows" by simp
  have two: "(\<forall>i < 2. P i) \<longleftrightarrow> P 0 \<and> P (Suc 0)" for P :: "nat \<Rightarrow> bool" by (auto simp: less_2_cases_iff)
  have g: "goodRow ?names frames batch 1 (?rows ! 0) \<and> goodRow ?names frames batch 2 (?rows ! Suc 0) \<longleftrightarrow>
    dec_string frames = ''100'' \<and> dec_string batch = ''128'' \<and> dec_string (frames * 32) = ''3200''"
    using d by (auto simp: goodRow_def expectedFields_def simp del: dec_string.simps)
  have "verifyCsv path (Some (selfTestCsv eol)) frames batch rep = Inr () \<longleftrightarrow>
      length ?rows = rep \<and> (\<forall>i < rep. goodRow ?names frames batch (i + 1) (?rows ! i))"
    unfolding selfTestCsv_printed by (rule verifyCsv_printed [OF assms p c l])
  also have "\<dots> \<longleftrightarrow> rep = 2 \<and> (\<forall>i < 2. goodRow ?names frames batch (i + 1) (?rows ! i))" by auto
  also have "\<dots> \<longleftrightarrow> rep = 2 \<and> goodRow ?names frames batch 1 (?rows ! 0) \<and> goodRow ?names frames batch 2 (?rows ! Suc 0)"
    unfolding two by (simp add: numeral_2_eq_2)
  finally show ?thesis using g by simp
qed

lemma runs_selfTestLines:
  assumes "noErrors env" and "isEol eol" and "ps_files s = F" and "ps_dirs s = D"
  shows "runs (selfTestLines env path eol) s () (F(path \<mapsto> selfTestCsv eol)) D"
proof -
  let ?F = "F(path \<mapsto> selfTestCsv eol)"
  note v = verifyCsv_selfTest [OF assms(2), of path]
  have rej: "\<exists>s'. verifyFile env path frames batch rep s1 = Some (Inl (RuntimeError e), s') \<and> ps_files s' = ?F \<and> ps_dirs s' = D"
    if "ps_files s1 = ?F" "ps_dirs s1 = D" "verifyCsv path (Some (selfTestCsv eol)) frames batch rep = Inl e" for s1 frames batch rep e
    using that assms(1) by (simp add: verifyFile_def bind_p_def openRead_def errorNow_def noErrors_def lift_p_def throw_p_def Let_def)
  obtain e1 e2 where e: "verifyCsv path (Some (selfTestCsv eol)) 100 128 3 = Inl e1" "verifyCsv path (Some (selfTestCsv eol)) 101 128 2 = Inl e2"
    using v [of 100 128 3] v [of 101 128 2] decimals
    by (cases "verifyCsv path (Some (selfTestCsv eol)) 100 128 3"; cases "verifyCsv path (Some (selfTestCsv eol)) 101 128 2") auto
  have ok: "verifyCsv path (?F path) 100 128 2 = Inr ()" using v decimals by simp
  show ?thesis unfolding selfTestLines_def
    apply (rule runs_seq [OF runs_writeFile [OF assms(1,3,4)]])
    apply (rule runs_seq [of _ _ ?F D])
     apply (simp only: verifyFile_def)
     apply (rule runs_bind [OF runs_openRead [OF assms(1)]], assumption, assumption)
     apply (rule runs_lift [OF ok], assumption, assumption)
    apply (rule runs_seq [OF runs_rejects [OF rej [OF _ _ e(1)]]], assumption, assumption)
    by (rule runs_rejects [OF rej [OF _ _ e(2)]])
qed

lemma validateReport_selfTest:
  "\<exists>v. validateReport path (Some (''  26.25% 279 telemetry-server [.] SharedRingBuffer::tryPop()'' @ nl)) = Inr v"
  "\<exists>e. validateReport path (Some (''  26.25% 279 telemetry-server [.] 0x00000000005e58'' @ nl)) = Inl e"
proof -
  have g: "getlines (l @ nl) = [l]" if "CHR 0x0A \<notin> set l" for l
    using getlines_line [OF that, of "[]"] by (simp add: getlines.simps [of "[]"])
  have "reportLine ''  26.25% 279 telemetry-server [.] SharedRingBuffer::tryPop()'' = Resolved"
    "reportLine ''  26.25% 279 telemetry-server [.] 0x00000000005e58'' = Unresolved"
    by code_simp+
  then show "\<exists>v. validateReport path (Some (''  26.25% 279 telemetry-server [.] SharedRingBuffer::tryPop()'' @ nl)) = Inr v"
    "\<exists>e. validateReport path (Some (''  26.25% 279 telemetry-server [.] 0x00000000005e58'' @ nl)) = Inl e"
    using g [of "''  26.25% 279 telemetry-server [.] SharedRingBuffer::tryPop()''"] g [of "''  26.25% 279 telemetry-server [.] 0x00000000005e58''"]
    by (simp_all add: validateReport_def Let_def countRows_def)
qed

lemma runs_validateFile:
  assumes "noErrors env" and "ps_files s = F" and "ps_dirs s = D" and "\<exists>v. validateReport path (F path) = Inr v"
  shows "runs (validateFile env path) s () F D"
proof -
  obtain v where v: "validateReport path (F path) = Inr v" using assms(4) by blast
  show ?thesis unfolding validateFile_def
    by (rule runs_bind [OF runs_openRead [OF assms(1-3)]], rule runs_bind [OF runs_lift [OF v]], assumption, assumption)
      (rule runs_return; simp)
qed

lemma runs_validate_rejects:
  assumes "noErrors env" and "ps_files s = F" and "ps_dirs s = D" and "\<exists>e. validateReport path (F path) = Inl e"
  shows "runs (rejects_p (validateFile env path) message) s () F D"
proof -
  obtain e where e: "validateReport path (F path) = Inl e" using assms(4) by blast
  show ?thesis
    by (rule runs_rejects [of _ _ "RuntimeError e"])
      (use assms e in \<open>simp add: validateFile_def bind_p_def openRead_def errorNow_def noErrors_def lift_p_def throw_p_def Let_def\<close>)
qed

lemma runs_selfTestProbe:
  assumes "noErrors env" and "ps_files s = G" and "ps_dirs s = D"
    and "G (m_server native) = Some probeText" and "G (m_sender native) = Some probeText"
  shows "runs (selfTestProbe env native) s (m_dir native) G D"
proof -
  have rd: "runs (readFile env (m_server native)) s1 probeText G D" if "ps_files s1 = G" "ps_dirs s1 = D" for s1
    unfolding readFile_def
    by (rule runs_bind [OF runs_openRead [OF assms(1) that]]) (simp add: assms(4) runs_return)
  have "runs (bind_p (statFile env (m_sender native)) (\<lambda>sender.
         if sender = None then throw_p (RuntimeError ''native executable staging failed'')
         else bind_p (readFile env (m_server native)) (\<lambda>content.
           if content \<noteq> probeText then throw_p (RuntimeError ''native executable staging failed'')
           else return_p (m_dir native)))) s1 (m_dir native) G D" if "ps_files s1 = G" "ps_dirs s1 = D" for s1
    by (rule runs_bind [OF runs_statFile [OF assms(1) that]]) (simp add: assms(5) runs_bind [OF rd] runs_return)
  then show ?thesis unfolding selfTestProbe_def
    by (intro runs_bind [OF runs_statFile [OF assms(1-3)]]) (simp add: assms(4))
qed

lemma runs_selfTestStaging:
  assumes "noErrors env" and "ps_files s = F" and "ps_dirs s = D" and "freshTemp env F" and "F executable = Some probeText"
  shows "runs (selfTestStaging env executable) s (pe_temp env) F D"
proof -
  let ?b = "stagedBinaries env"
  let ?F = "F(m_server ?b \<mapsto> probeText, m_sender ?b \<mapsto> probeText)"
  have under: "F = (\<lambda>p. if isPrefix (pe_temp env @ ''/'') p then None else ?F p)"
    using assms(4) isPrefix_append [of "pe_temp env @ ''/''" "''telemetry-server''"] isPrefix_append [of "pe_temp env @ ''/''" "''telemetry-load''"]
    by (auto simp: fun_eq_iff freshTemp_def stagedBinaries_def)
  have "runs (selfTestProbe env ?b) s1 (m_dir ?b) ?F (pe_temp env # D)" if "ps_files s1 = ?F" "ps_dirs s1 = pe_temp env # D" for s1
    by (rule runs_selfTestProbe [OF assms(1) that]) (simp_all add: stagedBinaries_def)
  then have b: "runs (selfTestProbe env ?b) s1 (pe_temp env) ?F (pe_temp env # D)" if "ps_files s1 = ?F" "ps_dirs s1 = pe_temp env # D" for s1
    using that by (simp add: stagedBinaries_def)
  show ?thesis unfolding selfTestStaging_def
    by (rule runs_withNativeBinaries [OF assms(1-4) assms(5) assms(5) _ under]) (rule b)
qed

text \<open>Names of the files of the self test.\<close>

lemma pathParent_join: "CHR ''/'' \<notin> set b \<Longrightarrow> a \<noteq> [] \<Longrightarrow> last a \<noteq> CHR ''/'' \<Longrightarrow> pathParent (a @ ''/'' @ b) = a"
proof -
  assume b: "CHR ''/'' \<notin> set b" and a: "a \<noteq> []" "last a \<noteq> CHR ''/''"
  have "dropWhile (\<lambda>c. c \<noteq> CHR ''/'') (rev b @ CHR ''/'' # rev a) = CHR ''/'' # rev a"
    using b by (simp add: dropWhile_append dropWhile_eq_Nil_conv; auto)
  moreover have "dropWhile (\<lambda>c. c = CHR ''/'') (rev a) = rev a"
    using a by (cases a rule: rev_cases) auto
  ultimately have "rev (dropWhile (\<lambda>c. c \<noteq> CHR ''/'') (rev (a @ ''/'' @ b))) = a @ ''/''"
    "rev (dropWhile (\<lambda>c. c = CHR ''/'') (rev (a @ ''/''))) = a" by simp_all
  then show ?thesis unfolding pathParent_def Let_def using a by (simp only: if_False simp_thms)
qed

definition selfTestFile :: "profEnv \<Rightarrow> string" where
  "selfTestFile env = pe_tempRoot env @ ''/telemetry-profiler-test-'' @ dec_string (pe_pid env) @ ''.csv''"

definition probeFile :: "profEnv \<Rightarrow> string" where
  "probeFile env = pe_tempRoot env @ ''/telemetry-profiler-probe-'' @ dec_string (pe_pid env)"

definition plainRoot :: "profEnv \<Rightarrow> bool" where
  "plainRoot env \<longleftrightarrow> pe_tempRoot env \<noteq> [] \<and> last (pe_tempRoot env) \<noteq> CHR ''/''"

lemma dec_string_no_slash: "CHR ''/'' \<notin> set (dec_string n)"
  using dec_string_digits [of n] by (auto simp: is_digit_def)

lemma selfTest_names:
  assumes "plainRoot env"
  shows "pathJoin (pe_tempRoot env) (''telemetry-profiler-test-'' @ dec_string (pe_pid env) @ ''.csv'') = selfTestFile env"
    and "pathJoin (pathParent (selfTestFile env)) (''telemetry-profiler-probe-'' @ dec_string (pe_pid env)) = probeFile env"
    and "selfTestFile env \<noteq> probeFile env"
proof -
  have "pathParent (selfTestFile env) = pe_tempRoot env"
    using pathParent_join [of "''telemetry-profiler-test-'' @ dec_string (pe_pid env) @ ''.csv''" "pe_tempRoot env"] assms dec_string_no_slash
    by (simp add: selfTestFile_def plainRoot_def)
  then show "pathJoin (pathParent (selfTestFile env)) (''telemetry-profiler-probe-'' @ dec_string (pe_pid env)) = probeFile env"
    using assms by (simp add: probeFile_def plainRoot_def pathJoin_def)
  show "pathJoin (pe_tempRoot env) (''telemetry-profiler-test-'' @ dec_string (pe_pid env) @ ''.csv'') = selfTestFile env"
    using assms by (simp add: selfTestFile_def plainRoot_def pathJoin_def)
  show "selfTestFile env \<noteq> probeFile env" by (simp add: selfTestFile_def probeFile_def)
qed

lemma runs_selfTestBody:
  assumes "noErrors env" and "plainRoot env" and "ps_files s = F" and "ps_dirs s = D"
    and "freshTemp env F" and "\<not> isPrefix (pe_temp env @ ''/'') (selfTestFile env)" and "\<not> isPrefix (pe_temp env @ ''/'') (probeFile env)"
    and "pe_temp env \<notin> set D"
  shows "runs (selfTestBody env (selfTestFile env)) s () (F(selfTestFile env := None, probeFile env := None)) D"
proof -
  let ?p = "selfTestFile env" and ?x = "probeFile env"
  let ?r1 = "''  26.25% 279 telemetry-server [.] SharedRingBuffer::tryPop()'' @ nl"
  let ?r2 = "''  26.25% 279 telemetry-server [.] 0x00000000005e58'' @ nl"
  define F1 where "F1 = F(?p \<mapsto> selfTestCsv nl)"
  define F2 where "F2 = F1(?p \<mapsto> selfTestCsv (cr # nl))"
  define F3 where "F3 = F2(?x \<mapsto> probeText)"
  define F4 where "F4 = F3(?x := None)"
  define F5 where "F5 = F4(?p \<mapsto> ?r1)"
  define F6 where "F6 = F5(?p \<mapsto> ?r2)"
  have ne: "?p \<noteq> ?x" by (rule selfTest_names(3) [OF assms(2)])
  have F7: "F6(?p := None) = F(?p := None, ?x := None)"
    using ne by (auto simp: fun_eq_iff F1_def F2_def F3_def F4_def F5_def F6_def)
  have fresh: "freshTemp env F3" using assms(5-7) by (simp add: freshTemp_def F1_def F2_def F3_def)
  have eol: "isEol nl" "isEol (cr # nl)" by (simp_all add: isEol_def)
  have v1: "\<exists>v. validateReport ?p (F5 ?p) = Inr v" using validateReport_selfTest(1) by (simp add: F5_def)
  have v2: "\<exists>e. validateReport ?p (F6 ?p) = Inl e" using validateReport_selfTest(2) by (simp add: F6_def)
  have st1: "runs (selfTestLines env ?p nl) s () F1 D"
    unfolding F1_def by (rule runs_selfTestLines [OF assms(1) eol(1) assms(3,4)])
  have st2: "runs (selfTestLines env ?p (cr # nl)) t () F2 D" if "ps_files t = F1" "ps_dirs t = D" for t
    unfolding F2_def by (rule runs_selfTestLines [OF assms(1) eol(2) that])
  have st3: "runs (writeFile env ?x probeText) t () F3 D" if "ps_files t = F2" "ps_dirs t = D" for t
    unfolding F3_def by (rule runs_writeFile [OF assms(1) that])
  have st4: "runs (selfTestStaging env ?x) t (pe_temp env) F3 D" if "ps_files t = F3" "ps_dirs t = D" for t
    by (rule runs_selfTestStaging [OF assms(1) that fresh]) (simp add: F3_def)
  have st5: "runs (removeFile env ?x) t () F4 D" if "ps_files t = F3" "ps_dirs t = D" for t
    unfolding F4_def by (rule runs_removeFile [OF assms(1) that])
  have st6: "runs (existsDir env (pe_temp env)) t False F4 D" if "ps_files t = F4" "ps_dirs t = D" for t
    by (use runs_existsDir [OF assms(1) that, of "pe_temp env"] assms(8) in simp)
  have st8: "runs (writeFile env ?p ?r1) t () F5 D" if "ps_files t = F4" "ps_dirs t = D" for t
    unfolding F5_def by (rule runs_writeFile [OF assms(1) that])
  have st9: "runs (validateFile env ?p) t () F5 D" if "ps_files t = F5" "ps_dirs t = D" for t
    by (rule runs_validateFile [OF assms(1) that v1])
  have st10: "runs (writeFile env ?p ?r2) t () F6 D" if "ps_files t = F5" "ps_dirs t = D" for t
    unfolding F6_def by (rule runs_writeFile [OF assms(1) that])
  have st11: "runs (rejects_p (validateFile env ?p) message) t () F6 D" if "ps_files t = F6" "ps_dirs t = D" for t message
    by (rule runs_validate_rejects [OF assms(1) that v2])
  have st7: "runs (check_p (\<not> False) message) t () F4 D" if "ps_files t = F4" "ps_dirs t = D" for t message
    by (rule runs_check [OF _ that]) simp
  have st12: "runs (removeFile env ?p) t () (F6(?p := None)) D" if "ps_files t = F6" "ps_dirs t = D" for t
    by (rule runs_removeFile [OF assms(1) that])
  show ?thesis
    unfolding selfTestBody_def Let_def selfTest_names(2) [OF assms(2)] F7 [symmetric]
    by (rule runs_seq [OF st1], rule runs_seq [OF st2], assumption, assumption, rule runs_seq [OF st3], assumption, assumption,
        rule runs_bind [OF st4], assumption, assumption, rule runs_seq [OF st5], assumption, assumption,
        rule runs_bind [OF st6], assumption, assumption, rule runs_seq [OF st7], assumption, assumption,
        rule runs_seq [OF st8], assumption, assumption, rule runs_seq [OF st9], assumption, assumption,
        rule runs_seq [OF st10], assumption, assumption, rule runs_seq [OF st11], assumption, assumption, rule st12)
qed

lemma selfTest_runs:
  assumes "noErrors env" and "plainRoot env" and "freshTemp env (ps_files s)" and "\<not> isPrefix (pe_temp env @ ''/'') (selfTestFile env)"
    and "\<not> isPrefix (pe_temp env @ ''/'') (probeFile env)" and "pe_temp env \<notin> set (ps_dirs s)"
  shows "runs (selfTest env) s () ((ps_files s)(selfTestFile env := None, probeFile env := None)) (ps_dirs s)"
proof -
  have p: "parseNumber_profile ''128'' 1 4096 ''batch'' = Inr 128"
    using parseNumber_profile_dec_string [of 4096 128 1 "''batch''"] decimals by simp
  have "\<exists>e. parseNumber_profile (dec_string 0) 1 4096 ''batch'' = Inl e" by (simp add: parseNumber_profile_dec_string)
  then obtain e where z: "parseNumber_profile ''0'' 1 4096 ''batch'' = Inl e" unfolding decimals by blast
  have zr: "\<exists>s'. lift_p (parseNumber_profile ''0'' 1 4096 ''batch'') s1 = Some (Inl (RuntimeError e), s') \<and> ps_files s' = F \<and> ps_dirs s' = D"
    if "ps_files s1 = F" "ps_dirs s1 = D" for s1 F D
    using that unfolding z lift_p_def throw_p_def by simp
  show ?thesis
    unfolding selfTest_def Let_def selfTest_names(1) [OF assms(2)]
    apply (rule runs_bind [OF runs_lift [OF p refl refl]])
    apply (rule runs_seq [OF runs_check [OF refl]], assumption, assumption)
    apply (rule runs_seq [OF runs_rejects [OF zr]], assumption, assumption)
    apply (rule runs_seq [OF runs_fsCall [OF assms(1)]], simp, assumption)
    apply (rule runs_catch)
    by (rule runs_selfTestBody [OF assms(1,2) _ _ assms(3-6)]) simp_all
qed


section \<open>A profile completes\<close>

text \<open>A program returns a value in a state with a property.\<close>

definition ends :: "'a prog \<Rightarrow> profState \<Rightarrow> 'a \<Rightarrow> (profState \<Rightarrow> bool) \<Rightarrow> bool" where
  "ends m s v P \<longleftrightarrow> (\<exists>s'. m s = Some (Inr v, s') \<and> P s')"

lemma ends_bind:
  assumes "ends m s v P" and "\<And>s1. P s1 \<Longrightarrow> ends (k v) s1 v' Q"
  shows "ends (bind_p m k) s v' Q"
  using assms unfolding ends_def bind_p_Inr by blast

lemma ends_seq:
  assumes "ends m s () P" and "\<And>s1. P s1 \<Longrightarrow> ends k s1 v Q"
  shows "ends (seq_p m k) s v Q"
  unfolding seq_p_def using assms by (rule ends_bind)

lemma ends_catch: "ends m s v P \<Longrightarrow> ends (catch_p m h) s v P"
  unfolding ends_def by (auto simp: catch_p_def)

lemma ends_runs: "runs m s v F D \<Longrightarrow> (\<And>s'. ps_files s' = F \<Longrightarrow> ps_dirs s' = D \<Longrightarrow> P s') \<Longrightarrow> ends m s v P"
  unfolding ends_def runs_def by blast

text \<open>
  A process that starts and ends with status 0 before the deadline, and one that starts or not, but
  ends at some time with some status.
\<close>

definition finishes :: "spawnAnswers \<Rightarrow> nat \<Rightarrow> bool" where
  "finishes sp t \<longleftrightarrow> spawned sp \<and> (\<exists>early now rest. sp_polls sp = early @ (Ended (Exited 0), now) # rest \<and>
     (\<forall>(poll, time) \<in> set early. poll \<in> {StillRunning, PollFailed EINTR} \<and> time < sp_start sp + 1000 * t))"

definition comesBack :: "spawnAnswers \<Rightarrow> bool" where
  "comesBack sp \<longleftrightarrow> (\<exists>status now. (Ended status, now) \<in> set (sp_polls sp)) \<and> (\<exists>r \<in> set (sp_reap sp). \<not> interrupted r)"

lemma waitLoop_finishes:
  "\<forall>(poll, time) \<in> set early. poll \<in> {StillRunning, PollFailed EINTR} \<and> time < deadline \<Longrightarrow>
   \<exists>trace'. waitLoop sp deadline (early @ (Ended status, now) # rest) trace = Some (Inr status, trace')"
proof (induction early arbitrary: trace)
  case (Cons x early)
  obtain poll time where x: "x = (poll, time)" by fastforce
  with Cons.prems have "poll = StillRunning \<or> poll = PollFailed EINTR" "\<not> deadline \<le> time" by auto
  with Cons.IH [of "trace @ [Slept]"] Cons.prems show ?case by (auto simp: x)
qed simp

lemma finishes_run: "finishes sp t \<Longrightarrow> \<exists>trace. runCommand sp logFile t = Some (Inr (), trace)"
  unfolding finishes_def
proof (elim conjE exE)
  fix early now rest
  assume f: "spawned sp" "sp_polls sp = early @ (Ended (Exited 0), now) # rest"
    "\<forall>(poll, time) \<in> set early. poll \<in> {StillRunning, PollFailed EINTR} \<and> time < sp_start sp + 1000 * t"
  from waitLoop_finishes [OF f(3)] obtain trace' where
    "waitLoop sp (sp_start sp + 1000 * t) (sp_polls sp) [DestroyActions, DestroyAttr] = Some (Inr (Exited 0), trace')"
    unfolding f(2) by blast
  with f(1) show ?thesis by (simp add: runCommand_def spawned_def)
qed

lemma waitLoop_ends:
  assumes "\<exists>r \<in> set (sp_reap sp). \<not> interrupted r"
  shows "\<exists>status now. (Ended status, now) \<in> set polls \<Longrightarrow> \<exists>x. waitLoop sp deadline polls trace = Some x"
proof (induction polls arbitrary: trace)
  case (Cons x polls)
  obtain reaped where "reapLoop (sp_reap sp) = Some reaped"
    using assms unfolding settle_Some_iff [symmetric] by (auto simp: reapLoop_settle)
  moreover obtain poll time where "x = (poll, time)" by fastforce
  moreover have "\<exists>y. waitLoop sp deadline polls t = Some y" if "\<forall>status. poll \<noteq> Ended status" for t
  proof -
    have "\<exists>status now. (Ended status, now) \<in> set polls" using Cons.prems that \<open>x = (poll, time)\<close> by auto
    then show ?thesis by (rule Cons.IH)
  qed
  ultimately show ?case by (cases poll) auto
qed simp

lemma comesBack_run: "comesBack sp \<Longrightarrow> \<exists>r trace. runCommand sp logFile t = Some (r, trace)"
proof -
  assume "comesBack sp"
  then obtain x where "waitLoop sp (sp_start sp + 1000 * t) (sp_polls sp) [DestroyActions, DestroyAttr] = Some x"
    unfolding comesBack_def using waitLoop_ends by meson
  then show ?thesis by (cases x) (auto simp: runCommand_def Let_def split: option.split sum.split)
qed

lemma ends_command:
  assumes "\<And>n. finishes (pe_spawn env n arguments) t"
  shows "ends (command env arguments log t) s () (\<lambda>s'. \<exists>n. ps_files s' = pe_effect env n arguments log (ps_files s))"
proof -
  let ?n = "length (ps_calls s)"
  obtain trace where "runCommand (pe_spawn env ?n arguments) (pe_effect env ?n arguments log (ps_files s) log) t = Some (Inr (), trace)"
    using finishes_run [OF assms] by blast
  then show ?thesis unfolding ends_def command_Inr by auto
qed

text \<open>A command whose failure is ignored.\<close>

lemma ends_tried:
  assumes "\<And>n. comesBack (pe_spawn env n arguments)"
  shows "ends (catch_p (command env arguments log t) (\<lambda>_. return_p ())) s ()
    (\<lambda>s'. ps_files s' = ps_files s \<or> (\<exists>n. ps_files s' = pe_effect env n arguments log (ps_files s)))"
proof -
  let ?n = "length (ps_calls s)"
  let ?fs = "if spawned (pe_spawn env ?n arguments) then pe_effect env ?n arguments log (ps_files s) else ps_files s"
  obtain r trace where "runCommand (pe_spawn env ?n arguments) (?fs log) t = Some (r, trace)"
    using comesBack_run [OF assms] by blast
  then show ?thesis by (cases r) (auto simp: ends_def catch_p_def command_def Let_def return_p_def logged_def)
qed

text \<open>The files the profile starts from and those that it stages, and the files that it removes.\<close>

definition inputFiles :: "profEnv \<Rightarrow> string set" where
  "inputFiles env = {pathJoin (pe_cwd env) ''bench/run_benchmark.py'', pathJoin (pe_cwd env) ''build-perf/telemetry-server'',
     pathJoin (pe_cwd env) ''build-perf/telemetry-load''}"

definition stagedFiles :: "profEnv \<Rightarrow> string set" where
  "stagedFiles env = {m_server (stagedBinaries env), m_sender (stagedBinaries env)}"

definition outputFiles :: "profileOptions \<Rightarrow> string set" where
  "outputFiles opts = {pathJoin (po_output opts) ''check.data'', csvPath opts ''record'', csvPath opts ''stat'', dataPath opts,
     statPath opts}"

definition inputsPresent :: "profEnv \<Rightarrow> profState \<Rightarrow> bool" where
  "inputsPresent env s \<longleftrightarrow> inputFiles env \<subseteq> dom (ps_files s) \<and> freshTemp env (ps_files s)"

definition benchmarkReady :: "profEnv \<Rightarrow> files \<Rightarrow> bool" where
  "benchmarkReady env F \<longleftrightarrow> inputFiles env \<union> stagedFiles env \<subseteq> dom F"

text \<open>No command touches the inputs and the staged copies, and the outputs are other files.\<close>

definition commandsHarmless :: "profEnv \<Rightarrow> profileOptions \<Rightarrow> bool" where
  "commandsHarmless env opts \<longleftrightarrow>
     (\<forall>n arguments log F p. p \<in> inputFiles env \<or> isPrefix (pe_temp env @ ''/'') p \<longrightarrow> pe_effect env n arguments log F p = F p) \<and>
     (\<forall>p \<in> outputFiles opts. p \<notin> inputFiles env \<and> \<not> isPrefix (pe_temp env @ ''/'') p)"

lemma stagedFiles_temp: "p \<in> stagedFiles env \<Longrightarrow> isPrefix (pe_temp env @ ''/'') p"
  using isPrefix_append [of "pe_temp env @ ''/''" "''telemetry-server''"] isPrefix_append [of "pe_temp env @ ''/''" "''telemetry-load''"]
  by (auto simp: stagedFiles_def stagedBinaries_def)

lemma harmless_effect:
  assumes "commandsHarmless env opts"
  shows "benchmarkReady env F \<Longrightarrow> benchmarkReady env (pe_effect env n arguments log F)"
    and "inputsPresent env s \<Longrightarrow> ps_files s' = pe_effect env n arguments log (ps_files s) \<Longrightarrow> inputsPresent env s'"
proof -
  have e: "pe_effect env n arguments log F p = F p" if "p \<in> inputFiles env \<union> stagedFiles env \<or> isPrefix (pe_temp env @ ''/'') p" for F p
    using assms that stagedFiles_temp [of p env] unfolding commandsHarmless_def by blast
  show "benchmarkReady env F \<Longrightarrow> benchmarkReady env (pe_effect env n arguments log F)"
    unfolding benchmarkReady_def using e by (simp add: subset_iff dom_def)
  show "inputsPresent env s \<Longrightarrow> ps_files s' = pe_effect env n arguments log (ps_files s) \<Longrightarrow> inputsPresent env s'"
    unfolding inputsPresent_def freshTemp_def using e by (auto simp: subset_iff dom_def)
qed

lemma harmless_remove:
  assumes "commandsHarmless env opts" and "path \<in> outputFiles opts"
  shows "benchmarkReady env F \<Longrightarrow> benchmarkReady env (F(path := None))"
    and "inputsPresent env s \<Longrightarrow> ps_files s' = (ps_files s)(path := None) \<Longrightarrow> inputsPresent env s'"
proof -
  have "path \<notin> inputFiles env" "path \<notin> stagedFiles env"
    using assms stagedFiles_temp [of path env] unfolding commandsHarmless_def by blast+
  then show "benchmarkReady env F \<Longrightarrow> benchmarkReady env (F(path := None))"
    "inputsPresent env s \<Longrightarrow> ps_files s' = (ps_files s)(path := None) \<Longrightarrow> inputsPresent env s'"
    by (auto simp: benchmarkReady_def inputsPresent_def freshTemp_def)
qed

text \<open>
  What the tools write. The benchmark writes a CSV table with a row for each run under the names of
  the columns; \<open>perf report\<close> prints a row that names a symbol of the server.
\<close>

definition csvWritten :: "profileOptions \<Rightarrow> string option \<Rightarrow> bool" where
  "csvWritten opts file \<longleftrightarrow> (\<exists>eol names rows. isEol eol \<and> list_all (list_all plainField) (names # rows) \<and>
     csvColumnNames \<subseteq> set names \<and> list_all (\<lambda>r. length r = length names) rows \<and> length rows = po_repeat opts \<and>
     (\<forall>i < po_repeat opts. goodRow names (po_frames opts) (po_batch opts) (i + 1) (rows ! i)) \<and>
     file = Some (printCsv eol (names # rows)))"

definition namesSymbol :: "string \<Rightarrow> bool" where
  "namesSymbol line \<longleftrightarrow> (\<exists>overhead gap symbol. line = overhead @ ''telemetry-server'' @ gap @ ''[.] '' @ symbol \<and>
     CHR ''['' \<notin> set (overhead @ gap) \<and> symbol \<noteq> [] \<and> \<not> isBlank (hd symbol) \<and>
     \<not> isPrefix ''0x'' symbol \<and> \<not> isPrefix ''[unknown]'' symbol)"

definition nonEmpty :: "string option \<Rightarrow> bool" where
  "nonEmpty file \<longleftrightarrow> file \<noteq> None \<and> file \<noteq> Some []"

definition selectedModes :: "profileOptions \<Rightarrow> string set" where
  "selectedModes opts = (if po_mode opts \<noteq> ''stat'' then {''record''} else {}) \<union> (if po_mode opts \<noteq> ''record'' then {''stat''} else {})"

text \<open>
  The tools work: the check, the benchmark under perf and the report end well within their time,
  and the caching of symbols ends somehow. Where the benchmark and its binaries are in place, a
  mode leaves the table of its runs, and a recording also leaves data, which the caching of symbols
  does not touch; a report of that data names a symbol in the log. Nothing else is said of what the
  commands write.
\<close>

definition toolsWork :: "profEnv \<Rightarrow> profileOptions \<Rightarrow> string \<Rightarrow> bool" where
  "toolsWork env opts executable \<longleftrightarrow>
     (\<forall>n. finishes (pe_spawn env n (checkCommand opts executable)) 20) \<and>
     (\<forall>n. \<forall>mode \<in> selectedModes opts. finishes (pe_spawn env n (modeCommand opts (benchmarkPath env) mode)) (po_timeout opts)) \<and>
     (\<forall>n. \<forall>binary \<in> stagedFiles env. comesBack (pe_spawn env n (cacheCommand opts binary))) \<and>
     (\<forall>n. finishes (pe_spawn env n (reportCommand opts)) 60) \<and>
     (\<forall>n F. \<forall>mode \<in> selectedModes opts. benchmarkReady env F \<longrightarrow>
        csvWritten opts (modeEffect env opts (benchmarkPath env) mode n F (csvPath opts mode)) \<and>
        (mode = ''record'' \<longrightarrow> nonEmpty (modeEffect env opts (benchmarkPath env) mode n F (dataPath opts)))) \<and>
     (\<forall>n log F. \<forall>binary \<in> stagedFiles env. pe_effect env n (cacheCommand opts binary) log F (dataPath opts) = F (dataPath opts)) \<and>
     (\<forall>n F. nonEmpty (F (dataPath opts)) \<longrightarrow>
        (\<exists>content. pe_effect env n (reportCommand opts) (reportPath opts) F (reportPath opts) = Some content \<and>
           (\<exists>line \<in> set (getlines content). namesSymbol line)))"

lemma findSub_append: "findSub pat (pre @ pat @ post) \<noteq> None"
proof (induction pre)
  case Nil
  show ?case using isPrefix_append [of pat post] by (cases "pat @ post") simp_all
qed simp

lemma findSub_first: "c \<notin> set pre \<Longrightarrow> findSub (c # pat) (pre @ (c # pat) @ post) = Some (length pre)"
proof (induction pre)
  case Nil
  show ?case using isPrefix_append [of "c # pat" post] by simp
qed simp

lemma drop_marker: "drop (length pre + 3) (pre @ ''[.]'' @ post) = post"
  by simp

lemma reportLine_symbol:
  assumes "namesSymbol line"
  shows "reportLine line = Resolved"
proof -
  obtain overhead gap symbol where l: "line = overhead @ ''telemetry-server'' @ gap @ ''[.] '' @ symbol"
    and n: "CHR ''['' \<notin> set (overhead @ gap)" "symbol \<noteq> []" "\<not> isBlank (hd symbol)" "\<not> isPrefix ''0x'' symbol" "\<not> isPrefix ''[unknown]'' symbol"
    using assms unfolding namesSymbol_def by blast
  have found: "findSub ''telemetry-server'' line \<noteq> None" unfolding l by (rule findSub_append)
  let ?pre = "overhead @ ''telemetry-server'' @ gap"
  have "CHR ''['' \<notin> set ?pre" using n(1) by simp
  from findSub_first [OF this, of "''.]''" "'' '' @ symbol"] have m: "findSub ''[.]'' line = Some (length ?pre)" by (simp add: l)
  have eq: "line = ?pre @ ''[.]'' @ '' '' @ symbol" by (simp add: l)
  have "drop (length ?pre + 3) line = '' '' @ symbol" unfolding eq by (rule drop_marker)
  moreover have "dropWhile isBlank ('' '' @ symbol) = symbol" using n(2,3) by (cases symbol) (simp_all add: isBlank_def)
  ultimately show ?thesis using found m n(4,5) by (simp add: reportLine_def Let_def)
qed

lemma csvWritten_verified: "csvWritten opts file \<Longrightarrow> verifyCsv path file (po_frames opts) (po_batch opts) (po_repeat opts) = Inr ()"
  unfolding csvWritten_def using verifyCsv_printed by blast

lemma report_validated:
  assumes "line \<in> set (getlines text)" and "namesSymbol line"
  shows "\<exists>v. validateReport path (Some text) = Inr v"
proof -
  have "line \<in> set (filter (\<lambda>l. reportLine l = Resolved) (getlines text))"
    using assms(1) reportLine_symbol [OF assms(2)] by simp
  then have "countRows Resolved (getlines text) \<noteq> 0" by (auto simp: countRows_def filter_empty_conv)
  then show ?thesis by (simp add: validateReport_def Let_def)
qed

lemma ends_checkPerf:
  assumes "noErrors env" and "toolsWork env opts executable" and "commandsHarmless env opts" and "inputsPresent env s"
  shows "ends (checkPerf env opts executable) s () (inputsPresent env)"
proof -
  have "\<And>n. finishes (pe_spawn env n (checkCommand opts executable)) 20" using assms(2) by (simp add: toolsWork_def)
  from ends_command [OF this, of "pathJoin (po_output opts) ''check.log''" s]
  have c: "ends (command env (checkCommand opts executable) (pathJoin (po_output opts) ''check.log'') 20) s () (inputsPresent env)"
    using harmless_effect(2) [OF assms(3,4)] unfolding ends_def by blast
  have r: "ends (removeFile env (pathJoin (po_output opts) ''check.data'')) s1 () (inputsPresent env)" if "inputsPresent env s1" for s1
    by (rule ends_runs [OF runs_removeFile [OF assms(1) refl refl]], rule harmless_remove(2) [OF assms(3) _ that])
      (simp_all add: outputFiles_def)
  show ?thesis unfolding checkPerf_def Let_def by (rule ends_seq [OF ends_catch [OF c] r])
qed

text \<open>The state between a recording and its report.\<close>

definition recordedState :: "profEnv \<Rightarrow> profileOptions \<Rightarrow> profState \<Rightarrow> bool" where
  "recordedState env opts s \<longleftrightarrow> benchmarkReady env (ps_files s) \<and> nonEmpty (ps_files s (dataPath opts))"

lemma ends_cacheSymbols:
  assumes "toolsWork env opts executable" and "commandsHarmless env opts"
  shows "set binaries \<subseteq> stagedFiles env \<Longrightarrow> recordedState env opts s \<Longrightarrow>
    ends (cacheSymbols env opts binaries) s () (recordedState env opts)"
proof (induction binaries arbitrary: s)
  case (Cons binary binaries)
  have b: "\<And>n. comesBack (pe_spawn env n (cacheCommand opts binary))"
    "\<And>n log F. pe_effect env n (cacheCommand opts binary) log F (dataPath opts) = F (dataPath opts)"
    using assms(1) Cons.prems(1) by (simp_all add: toolsWork_def)
  show ?case unfolding cacheSymbols.simps
  proof (rule ends_seq [OF ends_tried [OF b(1)]])
    fix s1 :: profState
    let ?log = "pathJoin (po_output opts) (pathFilename binary @ ''-buildid.log'')"
    assume "ps_files s1 = ps_files s \<or> (\<exists>n. ps_files s1 = pe_effect env n (cacheCommand opts binary) ?log (ps_files s))"
    then have "recordedState env opts s1"
      using Cons.prems(2) harmless_effect(1) [OF assms(2)] b(2) by (auto simp: recordedState_def)
    with Cons show "ends (cacheSymbols env opts binaries) s1 () (recordedState env opts)" by simp
  qed
qed (simp add: ends_def return_p_def)

lemma ends_recordReport:
  assumes "noErrors env" and "toolsWork env opts executable" and "commandsHarmless env opts" and "recordedState env opts s"
  shows "ends (recordReport env opts (stagedBinaries env)) s () (\<lambda>s'. benchmarkReady env (ps_files s'))"
proof -
  let ?rec = "recordedState env opts" and ?ready = "\<lambda>s'. benchmarkReady env (ps_files s')"
  obtain d where d: "ps_files s (dataPath opts) = Some d" "d \<noteq> []" using assms(4) by (auto simp: recordedState_def nonEmpty_def)
  have c: "ends (checkData env (dataPath opts)) s () ?rec"
  proof -
    let ?same = "\<lambda>s2. ps_files s2 = ps_files s"
    have st: "ends (statFile env (dataPath opts)) s1 (Some d) ?same" if "?same s1" for s1
      by (rule ends_runs [OF runs_statFile [OF assms(1) that refl, of "dataPath opts", unfolded d(1)]]) simp
    have "ends (checkData env (dataPath opts)) s () ?same" unfolding checkData_def
    proof (rule ends_bind [OF st], rule refl)
      fix s1 :: profState assume "?same s1"
      have "ends (bind_p (statFile env (dataPath opts)) (\<lambda>content.
          check_p (content \<noteq> Some []) ''perf.data missing or empty'')) s1 () ?same"
        by (rule ends_bind [OF st [OF \<open>?same s1\<close>]]) (use d(2) in \<open>simp add: ends_def check_p_def return_p_def\<close>)
      then show "ends (if Some d = None then throw_p (RuntimeError ''perf.data missing or empty'')
          else bind_p (statFile env (dataPath opts)) (\<lambda>content.
            check_p (content \<noteq> Some []) ''perf.data missing or empty'')) s1 () ?same" by simp
    qed
    then show ?thesis using assms(4) unfolding ends_def recordedState_def by metis
  qed
  have k: "ends (cacheSymbols env opts [m_server (stagedBinaries env), m_sender (stagedBinaries env)]) s1 () ?rec" if "?rec s1" for s1
    by (rule ends_cacheSymbols [OF assms(2,3) _ that]) (simp add: stagedFiles_def)
  let ?named = "\<lambda>s2. ?ready s2 \<and> (\<exists>v. validateReport (reportPath opts) (ps_files s2 (reportPath opts)) = Inr v)"
  have r: "ends (command env (reportCommand opts) (reportPath opts) 60) s1 () ?named" if "?rec s1" for s1
  proof -
    have "\<And>n. finishes (pe_spawn env n (reportCommand opts)) 60" using assms(2) by (simp add: toolsWork_def)
    from ends_command [OF this, of "reportPath opts" s1] obtain s2 n where
      s2: "command env (reportCommand opts) (reportPath opts) 60 s1 = Some (Inr (), s2)"
        "ps_files s2 = pe_effect env n (reportCommand opts) (reportPath opts) (ps_files s1)"
      unfolding ends_def by blast
    have "nonEmpty (ps_files s1 (dataPath opts))" using that by (simp add: recordedState_def)
    then obtain content line where "ps_files s2 (reportPath opts) = Some content" "line \<in> set (getlines content)" "namesSymbol line"
      using assms(2) unfolding s2(2) toolsWork_def by meson
    then have "?named s2"
      using report_validated harmless_effect(1) [OF assms(3)] that s2(2) by (simp add: recordedState_def)
    with s2(1) show ?thesis unfolding ends_def by blast
  qed
  have v: "ends (bind_p (openRead env (reportPath opts)) (\<lambda>content.
      bind_p (lift_p (validateReport (reportPath opts) content)) (\<lambda>_. return_p ()))) s2 () ?ready" if "?named s2" for s2
  proof -
    from that obtain w where w: "validateReport (reportPath opts) (ps_files s2 (reportPath opts)) = Inr w" by blast
    from runs_validateFile [OF assms(1) refl refl, unfolded validateFile_def, OF exI [of _ w], OF this] show ?thesis
      by (rule ends_runs) (use that in simp)
  qed
  show ?thesis unfolding recordReport_def
    by (rule ends_seq [OF c], rule ends_seq [OF k], assumption, rule ends_seq [OF r], assumption, rule v)
qed

lemma ends_runMode:
  assumes "noErrors env" and "toolsWork env opts executable" and "commandsHarmless env opts" and "mode \<in> selectedModes opts"
    and "benchmarkReady env (ps_files s)"
  shows "ends (runMode env opts (stagedBinaries env) (benchmarkPath env) mode) s () (\<lambda>s'. benchmarkReady env (ps_files s'))"
proof -
  let ?ready = "\<lambda>s'. benchmarkReady env (ps_files s')"
  let ?written = "\<lambda>s'. ?ready s' \<and> csvWritten opts (ps_files s' (csvPath opts mode)) \<and>
    (mode = ''record'' \<longrightarrow> nonEmpty (ps_files s' (dataPath opts)))"
  have mode: "mode = ''record'' \<or> mode = ''stat''" using assms(4) by (auto simp: selectedModes_def split: if_splits)
  have rm: "ends (removeFile env path) s1 () ?ready" if "path \<in> outputFiles opts" "?ready s1" for path s1
    by (rule ends_runs [OF runs_removeFile [OF assms(1) refl refl]]) (use harmless_remove(1) [OF assms(3) that] in simp)
  have out: "csvPath opts mode \<in> outputFiles opts" "(if mode = ''record'' then dataPath opts else statPath opts) \<in> outputFiles opts"
    using mode by (auto simp: outputFiles_def)
  have cmd: "ends (command env (modeCommand opts (benchmarkPath env) mode) (pathJoin (po_output opts) (mode @ ''.log'')) (po_timeout opts)) s1 () ?written"
    if "?ready s1" for s1
  proof -
    have "\<And>n. finishes (pe_spawn env n (modeCommand opts (benchmarkPath env) mode)) (po_timeout opts)"
      using assms(2,4) by (simp add: toolsWork_def)
    from ends_command [OF this, of "modeLog opts mode" s1] obtain s2 n where
      s2: "command env (modeCommand opts (benchmarkPath env) mode) (modeLog opts mode) (po_timeout opts) s1 = Some (Inr (), s2)"
        "ps_files s2 = modeEffect env opts (benchmarkPath env) mode n (ps_files s1)"
      unfolding ends_def modeEffect_def by blast
    have "?ready s2" using harmless_effect(1) [OF assms(3) that] by (simp add: s2(2) modeEffect_def)
    moreover have "\<forall>n F. \<forall>mode \<in> selectedModes opts. benchmarkReady env F \<longrightarrow>
        csvWritten opts (modeEffect env opts (benchmarkPath env) mode n F (csvPath opts mode)) \<and>
        (mode = ''record'' \<longrightarrow> nonEmpty (modeEffect env opts (benchmarkPath env) mode n F (dataPath opts)))"
      using assms(2) unfolding toolsWork_def by blast
    ultimately have "?written s2" using assms(4) that unfolding s2(2) by blast
    with s2(1) show ?thesis unfolding ends_def modeLog_def by blast
  qed
  have csv: "ends (bind_p (openRead env (csvPath opts mode)) (\<lambda>content.
      lift_p (verifyCsv (csvPath opts mode) content (po_frames opts) (po_batch opts) (po_repeat opts)))) s1 () ?written" if "?written s1" for s1
  proof -
    have "verifyCsv (csvPath opts mode) (ps_files s1 (csvPath opts mode)) (po_frames opts) (po_batch opts) (po_repeat opts) = Inr ()"
      using that csvWritten_verified by blast
    then have "runs (bind_p (openRead env (csvPath opts mode)) (\<lambda>content.
      lift_p (verifyCsv (csvPath opts mode) content (po_frames opts) (po_batch opts) (po_repeat opts)))) s1 () (ps_files s1) (ps_dirs s1)"
      by (intro runs_bind [OF runs_openRead [OF assms(1) refl refl]] runs_lift)
    then show ?thesis by (rule ends_runs) (use that in simp)
  qed
  have rest: "ends (if mode = ''record'' then recordReport env opts (stagedBinaries env) else bind_p (openRead env (statPath opts)) (\<lambda>_. return_p ()))
      s1 () ?ready" if "?written s1" for s1
  proof (cases "mode = ''record''")
    case True
    with that have "recordedState env opts s1" by (simp add: recordedState_def)
    from ends_recordReport [OF assms(1-3) this] True show ?thesis by simp
  next
    case False
    with that show ?thesis by (auto simp: ends_def bind_p_Inr openRead_Inr return_p_Inr logged_def)
  qed
  show ?thesis unfolding runMode_def
    by (rule ends_seq [OF rm [OF out(1) assms(5)]], rule ends_seq [OF rm [OF out(2)]], assumption, rule ends_seq [OF cmd], assumption,
        rule ends_seq [OF csv], assumption, rule rest)
qed

lemma ends_runModes:
  assumes "noErrors env" and "toolsWork env opts executable" and "commandsHarmless env opts" and "benchmarkReady env (ps_files s)"
  shows "ends (runModes env opts (benchmarkPath env) (stagedBinaries env)) s () (\<lambda>_. True)"
proof -
  let ?ready = "\<lambda>s'. benchmarkReady env (ps_files s')"
  have se: "ends (setenv_p env name content) s1 True ?ready" if "?ready s1" for name content s1
    using assms(1) that by (simp add: ends_def setenv_p_def errorNow_def noErrors_def logged_def)
  have m: "ends (if b then runMode env opts (stagedBinaries env) (benchmarkPath env) mode else return_p ()) s1 () ?ready"
    if "b \<Longrightarrow> mode \<in> selectedModes opts" "?ready s1" for b mode s1
    using ends_runMode [OF assms(1-3) _ that(2)] that by (cases b) (simp_all add: ends_def return_p_def)
  have sel: "po_mode opts \<noteq> ''stat'' \<Longrightarrow> ''record'' \<in> selectedModes opts" "po_mode opts \<noteq> ''record'' \<Longrightarrow> ''stat'' \<in> selectedModes opts"
    by (simp_all add: selectedModes_def)
  have weak: "ends p s1 () ?ready \<Longrightarrow> ends p s1 () (\<lambda>_. True)" for p s1 by (auto simp: ends_def)
  show ?thesis unfolding runModes_def
    by (rule ends_bind [OF se [OF assms(4)]], simp only: if_True, rule ends_bind [OF se], assumption, simp only: not_True_eq_False if_False,
        rule ends_seq [OF m [OF sel(1)]], assumption, assumption, rule weak, rule m [OF sel(2)])
qed

lemma ends_withNativeBinaries:
  assumes "noErrors env" and "inputsPresent env s" and "server \<in> dom (ps_files s)" and "sender \<in> dom (ps_files s)"
    and "\<And>s1. benchmarkReady env (ps_files s1) \<Longrightarrow> ends (body (stagedBinaries env)) s1 v (\<lambda>_. True)"
  shows "ends (withNativeBinaries env server sender body) s v (\<lambda>_. True)"
proof -
  obtain a b where ab: "ps_files s server = Some a" "ps_files s sender = Some b" using assms(3,4) by auto
  have f: "freshTemp env (ps_files s)" "inputFiles env \<subseteq> dom (ps_files s)" using assms(2) by (simp_all add: inputsPresent_def)
  have "ends (newNativeBinaries env server sender) s (stagedBinaries env) (\<lambda>s1. benchmarkReady env (ps_files s1))"
    by (rule ends_runs [OF runs_newNativeBinaries [OF assms(1) refl refl f(1) ab]])
      (use f(2) in \<open>auto simp: benchmarkReady_def stagedFiles_def\<close>)
  moreover have "ends (destroy_p (body (stagedBinaries env)) (removeAll_p env (m_dir (stagedBinaries env)))) s1 v (\<lambda>_. True)"
    if "benchmarkReady env (ps_files s1)" for s1
    using assms(5) [OF that] by (auto simp: ends_def destroy_p_def removeAll_p_def)
  ultimately show ?thesis unfolding withNativeBinaries_def by (rule ends_bind)
qed

lemma ends_profileRest:
  assumes "noErrors env" and "toolsWork env opts executable" and "commandsHarmless env opts" and "inputsPresent env s"
  shows "ends (profileRest env opts) s () (\<lambda>_. True)"
proof -
  have cp: "ends (currentPath env) s (pe_cwd env) (inputsPresent env)"
    using assms(1,4) by (auto simp: ends_def currentPath_def bind_p_Inr fsCall_Inr return_p_Inr errorNow_def noErrors_def inputsPresent_def)
  have rq: "ends (requireFile env path message) s1 () (inputsPresent env)" if "path \<in> inputFiles env" "inputsPresent env s1" for path message s1
  proof -
    have "ps_files s1 path \<noteq> None" using that by (auto simp: inputsPresent_def)
    then have "runs (requireFile env path message) s1 () (ps_files s1) (ps_dirs s1)"
      unfolding requireFile_def by (intro runs_bind [OF runs_statFile [OF assms(1) refl refl]] runs_check)
    then show ?thesis by (rule ends_runs) (use that(2) in \<open>simp add: inputsPresent_def\<close>)
  qed
  have w: "ends (withNativeBinaries env (pathJoin (pe_cwd env) ''build-perf/telemetry-server'') (pathJoin (pe_cwd env) ''build-perf/telemetry-load'')
      (runModes env opts (benchmarkPath env))) s1 () (\<lambda>_. True)" if "inputsPresent env s1" for s1
  proof (rule ends_withNativeBinaries [OF assms(1) that])
    show "ends (runModes env opts (benchmarkPath env) (stagedBinaries env)) s2 () (\<lambda>_. True)" if "benchmarkReady env (ps_files s2)" for s2
      by (rule ends_runModes [OF assms(1-3) that])
  qed (use that in \<open>auto simp: inputsPresent_def inputFiles_def\<close>)
  show ?thesis unfolding profileRest_def Let_def
    by (rule ends_bind [OF cp], rule ends_seq [OF rq], simp add: inputFiles_def, assumption, rule ends_seq [OF rq], simp add: inputFiles_def, assumption,
        rule ends_seq [OF rq], simp add: inputFiles_def, assumption, rule w [unfolded benchmarkPath_def])
qed

lemma profileMain_completes:
  assumes "noErrors env" and "toolsWork env opts executable" and "commandsHarmless env opts" and "inputsPresent env s"
    and "profileInRange opts" and "\<not> po_selfTest opts" and "\<not> po_checkWorkload opts" and "pe_canonical env = Inr executable"
  shows "\<exists>s'. profileMain (profileCommandLine opts) env s = Some (EXIT_SUCCESS, s')"
proof -
  have md: "ends (fsCall env (MakeDirectories (po_output opts)) id) s () (inputsPresent env)"
    using assms(1,4) by (simp add: ends_def fsCall_Inr errorNow_def noErrors_def inputsPresent_def)
  have r: "ends (if po_check opts then return_p () else profileRest env opts) s1 () (\<lambda>_. True)" if "inputsPresent env s1" for s1
    using ends_profileRest [OF assms(1-3) that] by (simp add: ends_def return_p_def)
  have "ends (runProfile env opts executable) s () (\<lambda>_. True)" unfolding runProfile_def
    by (rule ends_seq [OF md], rule ends_seq [OF ends_checkPerf [OF assms(1-3)]], assumption, rule r)
  then show ?thesis using assms(6-8) parseOptions_profile_printed [OF assms(5)] by (auto simp: ends_def profileMain_def exitOf_def)
qed


section \<open>Properties\<close>

text \<open>A run in which perf and the benchmark do their work.\<close>

definition demoOptions :: profileOptions where
  "demoOptions = defaultProfile\<lparr>po_frames := 1, po_batch := 1, po_repeat := 1, po_mode := ''both'', po_output := ''out''\<rparr>"

definition demoCsv :: string where
  "demoCsv = ''run,batch_frames,frames,bytes,verified_frames'' @ cr # nl @ ''1,1,1,32,1'' @ cr # nl"

definition demoEffect :: "string list \<Rightarrow> string \<Rightarrow> files \<Rightarrow> files" where
  "demoEffect arguments log F =
     (if arguments = modeCommand demoOptions ''/repo/bench/run_benchmark.py'' ''record''
      then F(''out/record_runs.csv'' \<mapsto> demoCsv, ''out/perf.data'' \<mapsto> ''samples'')
      else if arguments = modeCommand demoOptions ''/repo/bench/run_benchmark.py'' ''stat''
      then F(''out/stat_runs.csv'' \<mapsto> demoCsv, ''out/stat.txt'' \<mapsto> ''counters'')
      else if arguments = reportCommand demoOptions \<and> log = ''out/report.txt''
      then F(log \<mapsto> ''50% 12 telemetry-server  [.] decode'')
      else F)"

text \<open>Every process is still running at the first poll, and symbols cannot be cached.\<close>

definition demoEnv :: profEnv where
  "demoEnv = \<lparr>pe_errors = \<lambda>_ _. None,
     pe_spawn = \<lambda>_ arguments. demoSpawn\<lparr>sp_polls := [(StillRunning, 5),
       (Ended (Exited (if arguments ! 1 = ''buildid-cache'' then 1 else 0)), 25)]\<rparr>,
     pe_effect = \<lambda>_. demoEffect,
     pe_temp = ''/tmp/telemetry-perf-abcdef'', pe_cwd = ''/repo'', pe_tempRoot = ''/tmp'', pe_pid = 7,
     pe_canonical = Inr ''/repo/telemetry-profile-cpu'', pe_clock = [0, 400]\<rparr>"

definition demoStart :: profState where
  "demoStart = \<lparr>ps_files = [''/repo/bench/run_benchmark.py'' \<mapsto> [], ''/repo/build-perf/telemetry-server'' \<mapsto> ''server'',
     ''/repo/build-perf/telemetry-load'' \<mapsto> ''load''], ps_dirs = [], ps_calls = []\<rparr>"

lemma command_kinds [simp]:
  "modeCommand opts benchmark mode ! 1 = mode" "reportCommand opts ! 1 = ''report''" "cacheCommand opts binary ! 1 = ''buildid-cache''"
  "checkCommand opts executable ! 1 = ''record''"
  "modeCommand opts benchmark ''stat'' \<noteq> modeCommand opts' benchmark' ''record''"
  by (auto simp: modeCommand_def reportCommand_def cacheCommand_def checkCommand_def)

lemma command_differs:
  "cacheCommand opts binary \<noteq> modeCommand opts' benchmark ''record''" "cacheCommand opts binary \<noteq> modeCommand opts' benchmark ''stat''"
  "cacheCommand opts binary \<noteq> reportCommand opts'" "reportCommand opts \<noteq> modeCommand opts' benchmark ''record''"
  "reportCommand opts \<noteq> modeCommand opts' benchmark ''stat''"
  by (simp_all add: modeCommand_def reportCommand_def cacheCommand_def)

lemma demoCsv_written: "csvWritten demoOptions (Some demoCsv)"
proof -
  let ?names = "[''run'', ''batch_frames'', ''frames'', ''bytes'', ''verified_frames'']" and ?row = "[''1'', ''1'', ''1'', ''32'', ''1'']"
  have o: "po_repeat demoOptions = 1" "po_frames demoOptions = 1" "po_batch demoOptions = 1"
    by (simp_all add: demoOptions_def defaultProfile_def)
  have "demoCsv = printCsv (cr # nl) (?names # [?row])" by (simp add: demoCsv_def printCsv_def)
  moreover have "isEol (cr # nl)" by (simp add: isEol_def)
  moreover have "list_all (list_all plainField) (?names # [?row])" by (simp add: plainField_def)
  moreover have "csvColumnNames \<subseteq> set ?names" by (simp add: csvColumnNames_def)
  moreover have "goodRow ?names 1 1 1 ?row"
  proof -
    have d: "dec_string (Suc 0) = ''1''" "dec_string 32 = ''32''" using decimals by (simp, code_simp)
    show ?thesis using d by (simp add: goodRow_def expectedFields_def del: dec_string.simps)
  qed
  ultimately show ?thesis
    unfolding csvWritten_def o by (intro exI [of _ "cr # nl"] exI [of _ ?names] exI [of _ "[?row]"]) simp
qed

lemma demo_paths:
  "benchmarkPath demoEnv = ''/repo/bench/run_benchmark.py''" "csvPath demoOptions ''record'' = ''out/record_runs.csv''"
  "csvPath demoOptions ''stat'' = ''out/stat_runs.csv''" "dataPath demoOptions = ''out/perf.data''"
  "reportPath demoOptions = ''out/report.txt''" "statPath demoOptions = ''out/stat.txt''"
  "pathJoin (po_output demoOptions) ''check.data'' = ''out/check.data''"
  "inputFiles demoEnv = {''/repo/bench/run_benchmark.py'', ''/repo/build-perf/telemetry-server'', ''/repo/build-perf/telemetry-load''}"
  by (simp_all add: benchmarkPath_def csvPath_def dataPath_def reportPath_def statPath_def inputFiles_def pathJoin_def
      demoEnv_def demoOptions_def defaultProfile_def)

lemma demo_effects:
  "modeEffect demoEnv demoOptions (benchmarkPath demoEnv) ''record'' n F = F(''out/record_runs.csv'' \<mapsto> demoCsv, ''out/perf.data'' \<mapsto> ''samples'')"
  "modeEffect demoEnv demoOptions (benchmarkPath demoEnv) ''stat'' n F = F(''out/stat_runs.csv'' \<mapsto> demoCsv, ''out/stat.txt'' \<mapsto> ''counters'')"
  "pe_effect demoEnv n (cacheCommand demoOptions binary) log F = F"
  "pe_effect demoEnv n (reportCommand demoOptions) ''out/report.txt'' F = F(''out/report.txt'' \<mapsto> ''50% 12 telemetry-server  [.] decode'')"
  unfolding modeEffect_def demo_paths(1) by (simp_all add: demoEnv_def demoEffect_def command_differs)

lemma demo_effect_elsewhere:
  assumes "p \<notin> {''out/record_runs.csv'', ''out/perf.data'', ''out/stat_runs.csv'', ''out/stat.txt'', ''out/report.txt''}"
  shows "pe_effect demoEnv n arguments log F p = F p"
  using assms by (simp add: demoEnv_def demoEffect_def)

lemma demo_spawns:
  "comesBack (pe_spawn demoEnv n arguments)" "arguments ! 1 \<noteq> ''buildid-cache'' \<Longrightarrow> 1 \<le> t \<Longrightarrow> finishes (pe_spawn demoEnv n arguments) t"
proof -
  show "comesBack (pe_spawn demoEnv n arguments)"
    by (auto simp: comesBack_def demoEnv_def demoSpawn_def interrupted_def)
  show "finishes (pe_spawn demoEnv n arguments) t" if "arguments ! 1 \<noteq> ''buildid-cache''" "1 \<le> t"
    unfolding finishes_def using that
    by (intro conjI exI [of _ "[(StillRunning, 5)]"]) (auto simp: demoEnv_def demoSpawn_def spawned_def spawnSetup_def)
qed

lemma demo_names: "namesSymbol ''50% 12 telemetry-server  [.] decode''"
  unfolding namesSymbol_def
  by (rule exI [of _ "''50% 12 ''"], rule exI [of _ "''  ''"], rule exI [of _ "''decode''"]) (simp add: isBlank_def)

lemma demo_toolsWork: "toolsWork demoEnv demoOptions executable"
proof -
  have modes: "selectedModes demoOptions = {''record'', ''stat''}" "po_timeout demoOptions = 300"
    by (auto simp: selectedModes_def demoOptions_def defaultProfile_def)
  have g: "getlines ''50% 12 telemetry-server  [.] decode'' = [''50% 12 telemetry-server  [.] decode'']" by code_simp
  show ?thesis unfolding toolsWork_def modes
  proof (intro conjI allI ballI impI)
    fix n and F :: files
    show "\<exists>content. pe_effect demoEnv n (reportCommand demoOptions) (reportPath demoOptions) F (reportPath demoOptions) = Some content \<and>
        (\<exists>line \<in> set (getlines content). namesSymbol line)"
      using g demo_names unfolding demo_paths(5) demo_effects(4) by simp
  qed (auto simp: demo_spawns demo_effects demo_paths(2-) demoCsv_written nonEmpty_def simp del: One_nat_def)
qed

lemma demo_tools: "noErrors demoEnv" "toolsWork demoEnv demoOptions ''/repo/telemetry-profile-cpu''" "commandsHarmless demoEnv demoOptions"
  "inputsPresent demoEnv demoStart"
  "profileInRange demoOptions" "\<not> po_selfTest demoOptions" "\<not> po_checkWorkload demoOptions" "\<not> po_check demoOptions"
  "pe_canonical demoEnv = Inr ''/repo/telemetry-profile-cpu''" "po_mode demoOptions = ''both''"
proof -
  show "noErrors demoEnv" by (simp add: noErrors_def demoEnv_def)
  show "toolsWork demoEnv demoOptions ''/repo/telemetry-profile-cpu''" by (rule demo_toolsWork)
  show "commandsHarmless demoEnv demoOptions" unfolding commandsHarmless_def
  proof (intro conjI allI impI ballI)
    fix n arguments log F p
    assume "p \<in> inputFiles demoEnv \<or> isPrefix (pe_temp demoEnv @ ''/'') p"
    then have "p \<notin> {''out/record_runs.csv'', ''out/perf.data'', ''out/stat_runs.csv'', ''out/stat.txt'', ''out/report.txt''}"
      unfolding demo_paths by (auto simp: demoEnv_def)
    then show "pe_effect demoEnv n arguments log F p = F p" by (rule demo_effect_elsewhere)
  next
    fix p assume "p \<in> outputFiles demoOptions"
    then show "p \<notin> inputFiles demoEnv" "\<not> isPrefix (pe_temp demoEnv @ ''/'') p"
      unfolding demo_paths outputFiles_def by (auto simp: demoEnv_def)
  qed
  show "inputsPresent demoEnv demoStart"
    unfolding inputsPresent_def demo_paths by (auto simp: demoEnv_def demoStart_def freshTemp_def)
  show "profileInRange demoOptions" "\<not> po_selfTest demoOptions" "\<not> po_checkWorkload demoOptions" "\<not> po_check demoOptions"
    "po_mode demoOptions = ''both''"
    by (simp_all add: demoOptions_def defaultProfile_def profileInRange_def)
  show "pe_canonical demoEnv = Inr ''/repo/telemetry-profile-cpu''" by (simp add: demoEnv_def)
qed

text \<open>The self test passes in a working filesystem and leaves the files as they were.\<close>

lemma self_test_passes:
  assumes "noErrors env" and "plainRoot env" and "freshTemp env (ps_files s)" and "\<not> isPrefix (pe_temp env @ ''/'') (selfTestFile env)"
    and "\<not> isPrefix (pe_temp env @ ''/'') (probeFile env)" and "pe_temp env \<notin> set (ps_dirs s)"
    and "ps_files s (selfTestFile env) = None" and "ps_files s (probeFile env) = None"
  shows "\<exists>s'. profileMain [''--self-test''] env s = Some (EXIT_SUCCESS, s') \<and> ps_files s' = ps_files s \<and> ps_dirs s' = ps_dirs s"
proof -
  have "(ps_files s)(selfTestFile env := None, probeFile env := None) = ps_files s" using assms(7,8) by auto
  with selfTest_runs [OF assms(1-6)] obtain s' where "selfTest env s = Some (Inr (), s')" "ps_files s' = ps_files s" "ps_dirs s' = ps_dirs s"
    by (auto simp: runs_def)
  then show ?thesis by (simp add: profileMain_def exitOf_def parseOptions_profile.simps)
qed


text \<open>C39: on every way out of the profiler, exceptions included, each temporary directory with staged binaries
  was removed exactly once, the one made last first, and nothing else was removed as a tree; when the
  removals work, no directory is left behind.\<close>

theorem profile_cleans_up:
  assumes "profileMain args env s = Some (code, s')" and "ps_calls s = []"
  shows "tempStack (ps_calls s') = Some [] \<and> (removalsWork env \<longrightarrow> ps_dirs s' = ps_dirs s)"
  using made.profileMain_stack [OF _ assms(1), of "[]"] left_over.profileMain_stack [OF _ assms(1)] assms(2)
  by (simp add: tempStack_def)

theorem profile_cleans_up_witness:
  "\<exists>s'. profileMain (profileCommandLine demoOptions) demoEnv demoStart = Some (EXIT_SUCCESS, s') \<and>
     tempStack (ps_calls s') = Some [] \<and> ps_dirs s' = []"
proof -
  obtain s' where s': "profileMain (profileCommandLine demoOptions) demoEnv demoStart = Some (EXIT_SUCCESS, s')"
    using profileMain_completes [OF demo_tools(1-7,9)] by blast
  have "ps_calls demoStart = []" "ps_dirs demoStart = []" "removalsWork demoEnv"
    by (simp_all add: demoStart_def removalsWork_def demoEnv_def)
  with profile_cleans_up [OF s'] s' show ?thesis by auto
qed


text \<open>C38: a profile that exits with success checked perf first, and, unless only the check was asked for, has
  run every selected mode with evidence: the command of the mode ended with success, the CSV file read
  right after it was written by that command, because it did not exist when the command began, and
  passed \<open>verifyCsv\<close>; for a recording the data file is new and not empty and a later report command
  succeeded and its report has resolved symbols.\<close>

theorem profile_evidence:
  assumes "profileMain args env s = Some (EXIT_SUCCESS, s')" and "parseOptions_profile args defaultProfile = Inr (Some opts)"
    and "\<not> po_selfTest opts" and "\<not> po_checkWorkload opts"
  shows "(\<exists>executable trace more. ps_calls s' = ps_calls s @ checkCalls opts executable trace @ more \<and> (po_check opts \<longrightarrow> more = [])) \<and>
    (\<not> po_check opts \<longrightarrow> (po_mode opts \<noteq> ''stat'' \<longrightarrow> modeDone env opts (benchmarkPath env) ''record'' (ps_calls s')) \<and>
      (po_mode opts \<noteq> ''record'' \<longrightarrow> modeDone env opts (benchmarkPath env) ''stat'' (ps_calls s')))"
  using profileMain_success [OF assms] runProfile_success by blast

theorem profile_evidence_witness:
  "\<exists>s'. profileMain (profileCommandLine demoOptions) demoEnv demoStart = Some (EXIT_SUCCESS, s') \<and>
     modeDone demoEnv demoOptions (benchmarkPath demoEnv) ''record'' (ps_calls s') \<and>
     modeDone demoEnv demoOptions (benchmarkPath demoEnv) ''stat'' (ps_calls s')"
proof -
  obtain s' where s': "profileMain (profileCommandLine demoOptions) demoEnv demoStart = Some (EXIT_SUCCESS, s')"
    using profileMain_completes [OF demo_tools(1-7,9)] by blast
  from profile_evidence [OF s' parseOptions_profile_printed [OF demo_tools(5)] demo_tools(6,7)] demo_tools(8,10) s' show ?thesis by auto
qed


text \<open>C40: the profiler finishes its work. When the filesystem calls succeed, the inputs are there and
  the outputs are other files, the program called with the options exits with success, provided
  that the tools do what they are for: the check, the benchmark under perf and the report are
  started and end with status 0 before their deadlines, however often they are polled; each
  selected mode leaves the table of its runs, and a recording its data; and the report of the data
  has a row that names a symbol of the server. The caching of symbols may fail.\<close>

theorem profile_completes:
  assumes "noErrors env" and "toolsWork env opts executable" and "commandsHarmless env opts" and "inputsPresent env s"
    and "profileInRange opts" and "\<not> po_selfTest opts" and "\<not> po_checkWorkload opts" and "pe_canonical env = Inr executable"
  shows "\<exists>s'. profileMain (profileCommandLine opts) env s = Some (EXIT_SUCCESS, s')"
  by (rule profileMain_completes [OF assms])

theorem profile_completes_witness: "\<exists>s'. profileMain (profileCommandLine demoOptions) demoEnv demoStart = Some (EXIT_SUCCESS, s')"
  by (rule profile_completes [OF demo_tools(1-7,9)])

end
