(* ===== verification/Spec2Isabelle.thy ===== *)
theory Spec2Isabelle
  imports MainProc RingConcurrent LoadGen ProfilerLive
begin

text \<open>
  A verification development of the telemetry server: a C++20 program in which a server process
  receives telemetry frames over TCP, hands them to a reader process through a ring buffer in
  shared memory, and the reader stores them in rotated and synced files. Beside it stand a load
  generator and a controller that profiles a benchmark.

  \<^bold>\<open>The parts and how they interact.\<close> \<open>src/main.cpp\<close> parses the command line (\<open>Config/\<close>), blocks the
  managed signals, creates the ring (\<open>Ipc/\<close>) and two event descriptors, and forks. The child runs
  \<open>Reader::run\<close> (\<open>Reader/\<close>), which pops frames, decodes them (\<open>Protocol/\<close>) and appends them to the
  \<open>FileStore\<close> (\<open>Storage/\<close>). The parent runs \<open>Server::run\<close> (\<open>Server/\<close>), an epoll loop that reads
  clients into a \<open>ClientBuffer\<close>, validates frames and pushes them, and pauses clients when the ring
  fills; then it closes the producer, wakes or kills the reader, and collects it.
  \<open>bench/telemetry_load.cpp\<close> is a client that sends a given number of frames, and
  \<open>bench/profile_cpu.cpp\<close> runs a benchmark of the whole under perf and checks its results.

  \<^bold>\<open>Theories.\<close> Each opens with a note on what it holds.
  \<^item> \<open>Prelude\<close>: bytes and words, answers of system calls (\<open>sysret\<close>, \<open>settle\<close>), frames as chunks of a
    byte list, decimal numbers.
  \<^item> \<open>Codec\<close>: \<open>Protocol/src/TelemetryCodec.cpp\<close>, \<open>TelemetryRecord.hpp\<close>: \<open>encode\<close>, \<open>decode\<close> and their
    helpers on bytes and words. Round trips in both directions, the wire format, the order of errors.
  \<^item> \<open>Config\<close>: \<open>Config/src/ConfigParser.cpp\<close>: \<open>from_chars\<close>, \<open>parseArguments\<close>, \<open>validate\<close>, \<open>printUsage\<close>.
    Accepted configurations are valid; printing and parsing is the identity.
  \<^item> \<open>EventFd\<close>: \<open>Ipc/src/EventFd.cpp\<close>, with the contract of a call that is retried on \<open>EINTR\<close> as the locale
    \<open>eintr_retry\<close>, interpreted for both helpers, and for the collection of the child in \<open>MainProc\<close>.
  \<^item> \<open>Ring\<close>: \<open>Ipc/src/SharedRingBuffer.cpp\<close>: the layout as a byte memory with 64-bit head and tail, single
    and batched transfers with wrap-around. The locale \<open>spsc_queue\<close> states the queue that its clients
    rely on; the ring is an interpretation of it.
  \<^item> \<open>RingConcurrent\<close>: the same operations cut into loads, byte copies and stores of two sides that
    interleave arbitrarily (\<open>concReach\<close>): first in first out, no race on a byte, and an undisturbed
    side leaves the memory of the sequential operation.
  \<^item> \<open>ClientBuffer\<close>: \<open>Server/include/Buffer.hpp\<close>.
  \<^item> \<open>FileStore\<close>: \<open>Storage/src/FileStore.cpp\<close>: opening and recovery, appending with partial writes, syncing,
    rotation, closing. The locale \<open>frame_store\<close> is the contract that the reader relies on.
  \<^item> \<open>Reader\<close>, \<open>ReaderTotal\<close>: \<open>Reader/src/Reader.cpp\<close> with the producer acting before every access to the
    ring; what is stored is a prefix of what was accepted, and, for a producer that stays within the
    capacity and closes, the run ends with success and everything stored.
  \<^item> \<open>Server\<close>, \<open>ServerInv\<close>, \<open>ServerProps\<close>: \<open>Server/src/Server.cpp\<close>: every handler of the event loop; an
    invariant of all reachable states (descriptors, registrations, backpressure, buffers and published
    frames) and the properties that follow from it.
  \<^item> \<open>MainProc\<close>: \<open>src/main.cpp\<close>, parent and child.
  \<^item> \<open>LoadGen\<close>: \<open>bench/telemetry_load.cpp\<close>.
  \<^item> \<open>Profiler\<close>: \<open>bench/profile_cpu.cpp\<close>: options, the checks of the CSV file and of the report, and
    \<open>runCommand\<close>, which runs a process with a deadline. The accepted files are characterised by the names
    of their columns, a command that was started and fails is always killed, and the wait is bounded.
  \<^item> \<open>ProfilerRun\<close>: the rest of it as programs on a state of files, temporary directories and calls:
    \<open>NativeBinaries\<close>, \<open>checkPerf\<close>, \<open>runProfile\<close>, the self test and \<open>main\<close>. The locale \<open>call_relation\<close> gives
    what every program keeps that its calls keep; \<open>staging_stack\<close> extends it to the lifetime of staged
    binaries and is interpreted for the list of calls and for the directories.
  \<^item> \<open>ProfilerLive\<close>: runs of it that succeed, and the properties that span its functions.
  \<^item> this theory: what spans the components.

  \<^bold>\<open>How the code is translated.\<close> A class or a set of locals is a record that is passed on explicitly, and
  each function or handler is a definition with the branches of the source in their order. A system
  call takes its answer from a script that is part of the state or of the environment: \<open>Ret v\<close>, or
  \<open>Fail e\<close> with an \<open>errno\<close>. The result \<open>None\<close> of a definition means that the script has ended and the
  program is still inside a call. Safety properties therefore cover every finite behaviour of the
  environment, and the properties about returning say which answers are enough. Numbers whose
  wrap-around matters are words (head and tail of the ring, fields of a record, checks of the codec);
  sizes that are bounded by the code are natural numbers, with the width written out where a value is
  parsed or subtracted (\<open>from_chars\<close>, \<open>sub64\<close>). A double is its 64 bits. Loops are recursive functions
  on the script or with a measure; the append loop of the store and the loops of the reader, whose
  end depends on the environment, are \<open>partial_function\<close>s into \<open>option\<close>, and that they return is proved.
  There is no fuel. A program of the profiler returns an exception or a value; its calls fail as the
  environment says for their number.

  \<^bold>\<open>The two processes.\<close> Each process is modelled with the other side acting on the ring between its own
  accesses, and \<open>RingConcurrent\<close> shows that the accesses themselves may be interleaved at the level of
  bytes. \<open>system_delivers\<close> joins the two runs: it assumes that both refer to the same ring, so that the
  frames the ring accepted are those the server published, and that the status that \<open>waitpid\<close> reports is
  the exit code of the child.

  \<^bold>\<open>Not modelled.\<close> Messages on the console; socket addresses and options; the statistics that the load
  generator prints; two spellings of the same path in the profiler, whose files are known by the name
  it uses; the memory model of the processor beyond the acquire and release pairs that
  the interleaving of loads and stores expresses; the test programs, the build files, the Python
  benchmark driver and the documents.
\<close>

section \<open>From the main program to the file\<close>






section \<open>From the load generator to the ring\<close>

lemma chunks_take_any: "0 < n \<Longrightarrow> chunks n (take k xs) = take (k div n) (chunks n xs)"
proof (rule nth_equalityI)
  assume n: "0 < n"
  show len: "length (chunks n (take k xs)) = length (take (k div n) (chunks n xs))"
    using n by (simp add: length_chunks min_def div_le_mono) (metis div_le_mono le_antisym nat_le_linear)
  fix i assume "i < length (chunks n (take k xs))"
  then have i: "i < length (take k xs) div n" using n by (simp add: length_chunks)
  then have "Suc i * n \<le> length (take k xs)" using n by (meson Suc_leI less_eq_div_iff_mult_less_eq)
  then have "i * n + n \<le> k" by simp
  moreover have "i < length xs div n" "i < k div n"
    using i div_le_mono [of "length (take k xs)" "length xs" n] div_le_mono [of "length (take k xs)" k n] by simp_all
  ultimately have "i * n + n \<le> k" "i < length xs div n" "i < k div n" by simp_all
  then show "chunks n (take k xs) ! i = take (k div n) (chunks n xs) ! i"
    using i n by (simp add: nth_chunks drop_take min_def)
qed

text \<open>C19: the server accepts everything that the load generator sends: however the stream is cut off,
  the bytes that arrived parse as the frames with timestamps 1, 2, and so on, none is rejected,
  less than a frame is left over, and nothing is left over when the generator returns success.\<close>

theorem load_accepted:
  assumes "parseOptions args defaultLoad = LoadAccepted opts" and "loadMain args env = Some (code, s)"
  shows "validPrefix (ls_wire s) = take (length (ls_wire s) div kFrameSize) (loadFrames 0 (lo_frames opts)) \<and>
    allValid (ls_wire s) \<and> length (remainder (ls_wire s)) < kFrameSize \<and>
    (code = EXIT_SUCCESS \<longrightarrow> validPrefix (ls_wire s) = loadFrames 0 (lo_frames opts) \<and> remainder (ls_wire s) = [])"
proof -
  let ?fs = "loadFrames 0 (lo_frames opts)"
  obtain k where k: "ls_wire s = take k (concat ?fs)" "code = EXIT_SUCCESS \<longrightarrow> ls_wire s = concat ?fs"
    using loadMain_result [OF assms] by blast
  have fr: "\<forall>f \<in> set ?fs. validFrame f" using validFrame_encode by (auto simp: loadFrames_def)
  have c: "chunks kFrameSize (concat ?fs) = ?fs"
    using fr by (intro chunks_concat_frames) (auto simp: validFrame_def)
  have "length ?fs = lo_frames opts" by (simp add: loadFrames_def)
  then have len: "length (concat ?fs) = length ?fs * kFrameSize" by (simp add: length_concat_loadFrames)
  have ch: "chunks kFrameSize (ls_wire s) = take (length (ls_wire s) div kFrameSize) ?fs"
  proof -
    have "ls_wire s = take (length (ls_wire s)) (concat ?fs)" unfolding k(1) by (simp add: min_def)
    then show ?thesis using chunks_take_any [OF kFrameSize_pos(1)] c by metis
  qed
  have "validPrefix (ls_wire s) = chunks kFrameSize (ls_wire s)"
    unfolding validPrefix_def ch using fr by (simp add: takeWhile_eq_all_conv validFrame_def) (meson in_set_takeD)
  moreover from this have "allValid (ls_wire s)" by (simp add: allValid_def)
  moreover from this have "length (remainder (ls_wire s)) < kFrameSize" by (rule remainder_short)
  moreover have "remainder (ls_wire s) = []" if "code = EXIT_SUCCESS"
    using calculation(1) k(2) that c len by (simp add: remainder_def)
  ultimately show ?thesis using ch k(2) c by auto
qed

theorem load_accepted_witness:
  "\<exists>s. loadMain demoLoadArgs demoLoad = Some (EXIT_SUCCESS, s) \<and> validPrefix (ls_wire s) = loadFrames 0 3"
proof -
  obtain s where s: "loadMain demoLoadArgs demoLoad = Some (EXIT_SUCCESS, s)" using demoLoad_runs by blast
  have "validPrefix (ls_wire s) = loadFrames 0 (lo_frames \<lparr>lo_frames = 3, lo_batchFrames = 2, lo_port = 9000\<rparr>)"
    using load_accepted [OF demoLoad_options s] by blast
  with s show ?thesis by auto
qed

end
